(* ===== verification/Prelude.thy ===== *)
theory Prelude
  imports Main "HOL-Library.Char_ord"
begin

text \<open>
  What every component of the library shares: Go results, the part of Go's \<open>strings\<close> and
  \<open>strconv\<close> packages the sources call, generic facts on lists, and the locales of the
  interfaces that more than one component provides.

  A Go string is a sequence of bytes, so it is a \<^typ>\<open>string\<close> (a list of 8-bit characters).
  A Go function that returns \<open>(T, error)\<close> returns \<open>'e + 'a\<close>: \<^term>\<open>Inl\<close> is the error,
  a constructor of the component's own error type, and \<^term>\<open>Inr\<close> the value.
\<close>

subsection \<open>Results\<close>

definition is_ok :: "'e + 'a \<Rightarrow> bool" where
  "is_ok r = (case r of Inl _ \<Rightarrow> False | Inr _ \<Rightarrow> True)"

lemma is_ok_simps [simp]: "\<not> is_ok (Inl e)" "is_ok (Inr x)"
  by (simp_all add: is_ok_def)

lemma is_ok_iff: "is_ok r \<longleftrightarrow> (\<exists>x. r = Inr x)"
  by (cases r) auto

lemma unit_ok_iff: "(r :: 'e + unit) = Inr () \<longleftrightarrow> is_ok r"
  by (cases r) auto

text \<open>A loop that checks every element and returns the first error; the check sees the index,
  which counts from the given number.\<close>

fun check_all :: "(nat \<Rightarrow> 'a \<Rightarrow> 'e + unit) \<Rightarrow> nat \<Rightarrow> 'a list \<Rightarrow> 'e + unit" where
  "check_all f i [] = Inr ()"
| "check_all f i (x # xs) = (case f i x of Inl e \<Rightarrow> Inl e | Inr _ \<Rightarrow> check_all f (Suc i) xs)"

lemma check_all_ok_nth:
  "is_ok (check_all f i xs) \<longleftrightarrow> (\<forall>k < length xs. is_ok (f (i + k) (xs ! k)))"
proof (induction xs arbitrary: i)
  case Nil
  then show ?case by simp
next
  case (Cons x xs)
  show ?case
    by (cases "f i x") (auto simp: Cons.IH less_Suc_eq_0_disj split: nat.splits)
qed

lemma check_all_ok: "is_ok (check_all (\<lambda>_. f) i xs) \<longleftrightarrow> (\<forall>x \<in> set xs. is_ok (f x))"
  by (auto simp: check_all_ok_nth all_set_conv_all_nth)

subsection \<open>Characters\<close>

abbreviation code :: "char \<Rightarrow> nat" where
  "code c \<equiv> of_char c"

definition is_digit :: "char \<Rightarrow> bool" where
  "is_digit c = (48 \<le> code c \<and> code c \<le> 57)"

definition is_lower :: "char \<Rightarrow> bool" where
  "is_lower c = (97 \<le> code c \<and> code c \<le> 122)"

definition is_upper :: "char \<Rightarrow> bool" where
  "is_upper c = (65 \<le> code c \<and> code c \<le> 90)"

text \<open>A printing ASCII byte that is no space: what a word of a command line is made of.\<close>

definition is_plain :: "char \<Rightarrow> bool" where
  "is_plain c = (33 \<le> code c \<and> code c \<le> 126)"

lemmas char_class_defs = is_digit_def is_lower_def is_upper_def is_plain_def

lemma digit_plain [simp]: "is_digit c \<Longrightarrow> is_plain c"
  by (simp add: char_class_defs)

lemma lower_plain [simp]: "is_lower c \<Longrightarrow> is_plain c"
  by (simp add: char_class_defs)

subsection \<open>strings.HasPrefix, HasSuffix, TrimSuffix, CutPrefix, Contains\<close>

definition HasPrefix :: "string \<Rightarrow> string \<Rightarrow> bool" where
  "HasPrefix s p = (take (length p) s = p)"

definition HasSuffix :: "string \<Rightarrow> string \<Rightarrow> bool" where
  "HasSuffix s t = (length t \<le> length s \<and> drop (length s - length t) s = t)"

definition TrimSuffix :: "string \<Rightarrow> string \<Rightarrow> string" where
  "TrimSuffix s t = (if HasSuffix s t then take (length s - length t) s else s)"

definition CutPrefix :: "string \<Rightarrow> string \<Rightarrow> string option" where
  "CutPrefix s p = (if HasPrefix s p then Some (drop (length p) s) else None)"

definition CutSuffix :: "string \<Rightarrow> string \<Rightarrow> string option" where
  "CutSuffix s t = (if HasSuffix s t then Some (take (length s - length t) s) else None)"

fun Contains :: "string \<Rightarrow> string \<Rightarrow> bool" where
  "Contains [] t = (t = [])"
| "Contains (c # s) t = (HasPrefix (c # s) t \<or> Contains s t)"

lemma HasPrefix_iff: "HasPrefix s p \<longleftrightarrow> (\<exists>r. s = p @ r)"
  unfolding HasPrefix_def by (metis append_eq_conv_conj append_take_drop_id)

lemma HasSuffix_iff: "HasSuffix s t \<longleftrightarrow> (\<exists>r. s = r @ t)"
proof
  assume "HasSuffix s t"
  then have "s = take (length s - length t) s @ t"
    by (metis HasSuffix_def append_take_drop_id)
  then show "\<exists>r. s = r @ t" ..
qed (auto simp: HasSuffix_def)

lemma Contains_iff: "Contains s t \<longleftrightarrow> (\<exists>a b. s = a @ t @ b)"
proof (induction s)
  case Nil
  then show ?case by auto
next
  case (Cons c s)
  show ?case
  proof
    assume "Contains (c # s) t"
    then consider "HasPrefix (c # s) t" | "Contains s t" by auto
    then show "\<exists>a b. c # s = a @ t @ b"
    proof cases
      case 1
      then show ?thesis by (metis HasPrefix_iff append_Nil)
    next
      case 2
      then show ?thesis using Cons.IH by (metis append_Cons)
    qed
  next
    assume "\<exists>a b. c # s = a @ t @ b"
    then obtain a b where ab: "c # s = a @ t @ b" by blast
    show "Contains (c # s) t"
    proof (cases a)
      case Nil
      then have "HasPrefix (c # s) t" using ab by (simp add: HasPrefix_iff)
      then show ?thesis by simp
    next
      case (Cons d a')
      then have "s = a' @ t @ b" using ab by simp
      then show ?thesis using Cons.IH by auto
    qed
  qed
qed

lemma Contains_char: "Contains s [c] \<longleftrightarrow> c \<in> set s"
  by (auto simp: Contains_iff in_set_conv_decomp)

subsection \<open>strings.Cut, Split, Join\<close>

text \<open>\<open>strings.Cut\<close> around a one-byte separator: what is before, what is after, and whether it
  was found.\<close>

definition Cut :: "string \<Rightarrow> char \<Rightarrow> string \<times> string \<times> bool" where
  "Cut s c = (if c \<in> set s then (takeWhile (\<lambda>x. x \<noteq> c) s, tl (dropWhile (\<lambda>x. x \<noteq> c) s), True)
              else (s, [], False))"

fun Split :: "string \<Rightarrow> char \<Rightarrow> string list" where
  "Split [] c = [[]]"
| "Split (x # xs) c =
     (if x = c then [] # Split xs c
      else case Split xs c of [] \<Rightarrow> [[x]] | w # ws \<Rightarrow> (x # w) # ws)"

text \<open>\<open>path.Base\<close> and \<open>filepath.Base\<close>.\<close>

definition path_Base :: "string \<Rightarrow> string" where
  "path_Base s =
     (if s = [] then ''.''
      else let b = last (Split (rev (dropWhile (\<lambda>c. c = CHR ''/'') (rev s))) CHR ''/'')
           in if b = [] then ''/'' else b)"

fun Join :: "string list \<Rightarrow> string \<Rightarrow> string" where
  "Join [] sep = []"
| "Join [w] sep = w"
| "Join (w # v # ws) sep = w @ sep @ Join (v # ws) sep"

lemma Cut_absent [simp]: "c \<notin> set s \<Longrightarrow> Cut s c = (s, [], False)"
  by (simp add: Cut_def)

lemma Cut_append [simp]: "c \<notin> set a \<Longrightarrow> Cut (a @ c # b) c = (a, b, True)"
  by (auto simp: Cut_def takeWhile_append dropWhile_append)

lemma Split_nonempty [simp]: "Split s c \<noteq> []"
  by (induction s) (auto split: list.splits)

lemma Join_Cons: "Join (w # ws) sep = (if ws = [] then w else w @ sep @ Join ws sep)"
  by (cases ws) auto

lemma Join_Split: "Join (Split s c) [c] = s"
proof (induction s)
  case Nil
  then show ?case by simp
next
  case (Cons x s)
  then show ?case
    by (cases "Split s c") (auto simp: Join_Cons split: if_splits)
qed

lemma Split_no_sep: "w \<in> set (Split s c) \<Longrightarrow> c \<notin> set w"
proof (induction s arbitrary: w)
  case Nil
  then show ?case by simp
next
  case (Cons x s)
  obtain v vs where vs: "Split s c = v # vs"
    by (meson Split_nonempty neq_Nil_conv)
  have "c \<notin> set v" and "\<And>u. u \<in> set vs \<Longrightarrow> c \<notin> set u"
    using Cons.IH vs by auto
  then show ?case
    using Cons.prems vs by (auto split: if_splits)
qed

lemma Split_subset: "w \<in> set (Split s c) \<Longrightarrow> set w \<subseteq> set s"
proof (induction s arbitrary: w)
  case Nil
  then show ?case by simp
next
  case (Cons x s)
  obtain v vs where vs: "Split s c = v # vs"
    by (meson Split_nonempty neq_Nil_conv)
  have "set v \<subseteq> set s" and "\<And>u. u \<in> set vs \<Longrightarrow> set u \<subseteq> set s"
    using Cons.IH vs by auto
  then show ?case
    using Cons.prems vs by (auto split: if_splits)
qed

lemma Split_absent [simp]: "c \<notin> set w \<Longrightarrow> Split w c = [w]"
  by (induction w) auto

lemma Split_sep [simp]: "c \<notin> set w \<Longrightarrow> Split (w @ c # s) c = w # Split s c"
  by (induction w) (auto split: list.splits)

lemma Split_Join:
  assumes "ws \<noteq> []" and "\<And>w. w \<in> set ws \<Longrightarrow> c \<notin> set w"
  shows "Split (Join ws [c]) c = ws"
  using assms
proof (induction ws)
  case Nil
  then show ?case by simp
next
  case (Cons w ws)
  then show ?case by (cases ws) auto
qed

lemma Split_append_sep: "Split (a @ c # b) c = Split a c @ Split b c"
proof (induction a)
  case Nil
  then show ?case by simp
next
  case (Cons x a)
  obtain v vs where "Split a c = v # vs"
    by (meson Split_nonempty neq_Nil_conv)
  then show ?case using Cons by auto
qed

lemma set_Join: "set (Join ws sep) \<subseteq> (\<Union>w \<in> set ws. set w) \<union> set sep"
  by (induction ws sep rule: Join.induct) auto

subsection \<open>strings.ToLower\<close>

text \<open>
  \<open>strings.ToLower\<close> byte by byte. The ASCII capitals fold as usual, and of the code points past
  ASCII two fold into it: U+0130 (bytes \<open>C4 B0\<close>) to \<open>i\<close> and U+212A (bytes \<open>E2 84 AA\<close>)
  to \<open>k\<close>. Go maps every other rune past ASCII to a rune past ASCII; the model keeps its bytes,
  and no check in the sources accepts such a byte afterwards.
\<close>

definition lower_byte :: "char \<Rightarrow> char" where
  "lower_byte c = (if is_upper c then char_of (code c + 32) else c)"

function ToLower :: "string \<Rightarrow> string" where
  "ToLower [] = []"
| "ToLower (c # s) =
     (if code c = 196 \<and> s \<noteq> [] \<and> code (hd s) = 176 then CHR ''i'' # ToLower (tl s)
      else if code c = 226 \<and> map code (take 2 s) = [132, 170] then CHR ''k'' # ToLower (drop 2 s)
      else lower_byte c # ToLower s)"
  by pat_completeness auto
termination
  by (relation "measure length") auto

lemma code_char_of [simp]: "n < 256 \<Longrightarrow> code (char_of n) = n"
  by simp

lemma lower_byte_not_upper: "\<not> is_upper (lower_byte c)"
  by (auto simp: lower_byte_def is_upper_def)

lemma lower_byte_id [simp]: "\<not> is_upper c \<Longrightarrow> lower_byte c = c"
  by (simp add: lower_byte_def)

lemma ToLower_ascii: "list_all (\<lambda>c. code c < 128) s \<Longrightarrow> ToLower s = map lower_byte s"
  by (induction s) simp_all

lemma ToLower_no_upper: "c \<in> set (ToLower s) \<Longrightarrow> \<not> is_upper c"
proof (induction s rule: ToLower.induct)
  case 1
  then show ?case by simp
next
  case (2 d s)
  have "\<not> is_upper (CHR ''i'')" "\<not> is_upper (CHR ''k'')"
    by (simp_all add: is_upper_def)
  then show ?case
    using 2 lower_byte_not_upper by (auto split: if_splits)
qed

lemma ToLower_id:
  assumes "\<And>c. c \<in> set s \<Longrightarrow> code c < 128 \<and> \<not> is_upper c"
  shows "ToLower s = s"
proof -
  have "ToLower s = map lower_byte s"
    using assms by (intro ToLower_ascii) (simp add: list_all_iff)
  also have "\<dots> = s"
    using assms by (intro map_idI) auto
  finally show ?thesis .
qed

subsection \<open>strings.Fields\<close>

text \<open>The number of bytes of the white-space rune a string starts with, 0 when it starts with no
  such rune (\<open>unicode.IsSpace\<close>, in UTF-8).\<close>

definition space_len :: "string \<Rightarrow> nat" where
  "space_len s =
     (if s = [] then 0
      else if code (hd s) \<in> {9, 10, 11, 12, 13, 32} then 1
      else if map code (take 2 s) \<in> {[194, 133], [194, 160]} then 2
      else if map code (take 3 s) \<in> {[225, 154, 128], [226, 129, 159], [227, 128, 128]} then 3
      else if map code (take 2 s) = [226, 128] \<and> 3 \<le> length s
              \<and> (128 \<le> code (s ! 2) \<and> code (s ! 2) \<le> 138 \<or> code (s ! 2) \<in> {168, 169, 175}) then 3
      else 0)"

function fields_from :: "string \<Rightarrow> string \<Rightarrow> string list" where
  "fields_from cur [] = (if cur = [] then [] else [cur])"
| "fields_from cur (c # s) =
     (if space_len (c # s) = 0 then fields_from (cur @ [c]) s
      else (if cur = [] then [] else [cur]) @ fields_from [] (drop (space_len (c # s) - 1) s))"
  by pat_completeness auto
termination
  by (relation "measure (\<lambda>(cur, s). length s)") auto

definition Fields :: "string \<Rightarrow> string list" where
  "Fields s = fields_from [] s"

lemma space_len_plain [simp]: "is_plain c \<Longrightarrow> space_len (c # s) = 0"
  by (auto simp: space_len_def is_plain_def)

lemma fields_from_plain [simp]:
  "list_all is_plain w \<Longrightarrow> fields_from cur (w @ s) = fields_from (cur @ w) s"
  by (induction w arbitrary: cur) auto

lemma Fields_one: "w \<noteq> [] \<Longrightarrow> list_all is_plain w \<Longrightarrow> Fields w = [w]"
  using fields_from_plain [of w "[]" "[]"] by (simp add: Fields_def)

lemma Fields_two:
  assumes "w \<noteq> []" "list_all is_plain w" "v \<noteq> []" "list_all is_plain v"
  shows "Fields (w @ CHR '' '' # v) = [w, v]"
proof -
  have "Fields (w @ CHR '' '' # v) = fields_from w (CHR '' '' # v)"
    using assms(2) by (simp add: Fields_def)
  also have "\<dots> = w # fields_from [] v"
    using assms(1) by (simp add: space_len_def)
  also have "fields_from [] v = [v]"
    using Fields_one [OF assms(3,4)] by (simp add: Fields_def)
  finally show ?thesis .
qed

subsection \<open>strconv.Itoa and Atoi\<close>

definition digit_char :: "nat \<Rightarrow> char" where
  "digit_char d = char_of (48 + d)"

fun itoa_nat :: "nat \<Rightarrow> string" where
  "itoa_nat n = (if n < 10 then [digit_char n] else itoa_nat (n div 10) @ [digit_char (n mod 10)])"

declare itoa_nat.simps [simp del]

definition Itoa :: "int \<Rightarrow> string" where
  "Itoa i = (if i < 0 then CHR ''-'' # itoa_nat (nat (- i)) else itoa_nat (nat i))"

text \<open>The value of a nonempty string of decimal digits.\<close>

fun digits_value :: "nat \<Rightarrow> string \<Rightarrow> nat option" where
  "digits_value acc [] = Some acc"
| "digits_value acc (c # s) =
     (if is_digit c then digits_value (10 * acc + (code c - 48)) s else None)"

definition parse_uint :: "string \<Rightarrow> nat option" where
  "parse_uint s = (if s = [] then None else digits_value 0 s)"

text \<open>\<open>strconv.Atoi\<close>: an optional sign and decimal digits, within the 64 bits of a Go \<open>int\<close>.\<close>

definition Atoi :: "string \<Rightarrow> int option" where
  "Atoi s =
     (let (neg, body) = (if s \<noteq> [] \<and> hd s = CHR ''-'' then (True, tl s)
                         else if s \<noteq> [] \<and> hd s = CHR ''+'' then (False, tl s) else (False, s))
      in case parse_uint body of
           None \<Rightarrow> None
         | Some n \<Rightarrow> (let v = (if neg then - int n else int n)
                     in if - (2 ^ 63) \<le> v \<and> v < 2 ^ 63 then Some v else None))"

lemma is_digit_digit_char [simp]: "d < 10 \<Longrightarrow> is_digit (digit_char d)"
  by (simp add: is_digit_def digit_char_def)

lemma code_digit_char [simp]: "d < 10 \<Longrightarrow> code (digit_char d) = 48 + d"
  by (simp add: digit_char_def)

lemma itoa_nat_nonempty [simp]: "itoa_nat n \<noteq> []"
  by (subst itoa_nat.simps) simp

lemma itoa_nat_digits: "list_all is_digit (itoa_nat n)"
proof (induction n rule: itoa_nat.induct)
  case (1 n)
  show ?case
  proof (cases "n < 10")
    case True
    then show ?thesis by (subst itoa_nat.simps) simp
  next
    case False
    with 1 show ?thesis by (subst itoa_nat.simps) simp
  qed
qed

lemma digits_value_append:
  "digits_value acc (s @ t) = (case digits_value acc s of None \<Rightarrow> None | Some v \<Rightarrow> digits_value v t)"
  by (induction acc s rule: digits_value.induct) auto

lemma digits_value_itoa: "digits_value 0 (itoa_nat n) = Some n"
proof (induction n rule: itoa_nat.induct)
  case (1 n)
  show ?case
  proof (cases "n < 10")
    case True
    then show ?thesis by (subst itoa_nat.simps) simp
  next
    case False
    with 1 have "digits_value 0 (itoa_nat (n div 10)) = Some (n div 10)" by simp
    with False show ?thesis
      by (subst itoa_nat.simps) (simp add: digits_value_append)
  qed
qed

lemma parse_uint_itoa [simp]: "parse_uint (itoa_nat n) = Some n"
  by (simp add: parse_uint_def digits_value_itoa)

lemma digits_value_Some_digits: "digits_value acc s = Some v \<Longrightarrow> list_all is_digit s"
  by (induction acc s rule: digits_value.induct) (auto split: if_splits)

lemma itoa_nat_hd: "is_digit (hd (itoa_nat n))"
  using itoa_nat_digits [of n] by (cases "itoa_nat n") auto

lemma Atoi_itoa_nat: "int n < 2 ^ 63 \<Longrightarrow> Atoi (itoa_nat n) = Some (int n)"
proof -
  assume n: "int n < 2 ^ 63"
  have "hd (itoa_nat n) \<noteq> CHR ''-''" "hd (itoa_nat n) \<noteq> CHR ''+''"
    using itoa_nat_hd [of n] by (auto simp: is_digit_def)
  then show ?thesis using n by (simp add: Atoi_def)
qed

lemma Atoi_Itoa: "0 \<le> i \<Longrightarrow> i < 2 ^ 63 \<Longrightarrow> Atoi (Itoa i) = Some i"
  using Atoi_itoa_nat [of "nat i"] by (simp add: Itoa_def)

subsection \<open>An ordered list of rules, where the first match decides\<close>

text \<open>
  The interface of every rule walk in the sources: the proxy's decision, the resolver's, the
  stack's judge. \<open>walk\<close> asks \<open>hit\<close> of each rule in order; \<open>out\<close> is what the first
  hit answers, and \<open>fall\<close> what no hit answers.
\<close>

locale first_match =
  fixes walk :: "'r list \<Rightarrow> 'q \<Rightarrow> 'd"
    and hit :: "'r \<Rightarrow> 'q \<Rightarrow> bool"
    and out :: "'r \<Rightarrow> 'q \<Rightarrow> 'd"
    and fall :: "'q \<Rightarrow> 'd"
  assumes walk_Nil: "walk [] q = fall q"
    and walk_Cons: "walk (r # rs) q = (if hit r q then out r q else walk rs q)"
begin

lemma walk_append_miss: "(\<And>r. r \<in> set pre \<Longrightarrow> \<not> hit r q) \<Longrightarrow> walk (pre @ rs) q = walk rs q"
  by (induction pre) (simp_all add: walk_Cons)

lemma walk_first: "(\<And>r. r \<in> set pre \<Longrightarrow> \<not> hit r q) \<Longrightarrow> hit r q \<Longrightarrow> walk (pre @ r # post) q = out r q"
  by (simp add: walk_append_miss walk_Cons)

lemma walk_none: "(\<And>r. r \<in> set rs \<Longrightarrow> \<not> hit r q) \<Longrightarrow> walk rs q = fall q"
  using walk_append_miss [of rs q "[]"] by (simp add: walk_Nil)

lemma walk_cases:
  obtains (none) "\<And>r. r \<in> set rs \<Longrightarrow> \<not> hit r q" "walk rs q = fall q"
  | (first) pre r post where "rs = pre @ r # post" "\<And>p. p \<in> set pre \<Longrightarrow> \<not> hit p q" "hit r q"
      "walk rs q = out r q"
proof (cases "\<exists>r \<in> set rs. hit r q")
  case True
  then obtain pre r post where rs: "rs = pre @ r # post" and r: "hit r q"
    and pre: "\<forall>p \<in> set pre. \<not> hit p q"
    using split_list_first_prop [of rs "\<lambda>r. hit r q"] by blast
  show ?thesis
    by (rule first [OF rs _ r]) (use pre r rs in \<open>auto intro: walk_first\<close>)
next
  case False
  show ?thesis
    by (rule none) (use False in \<open>auto intro: walk_none\<close>)
qed

lemma walk_filter: "(\<And>r. r \<in> set rs \<Longrightarrow> hit r q \<Longrightarrow> keep r) \<Longrightarrow> walk (filter keep rs) q = walk rs q"
  by (induction rs) (auto simp: walk_Nil walk_Cons)

lemma walk_all: "P (fall q) \<Longrightarrow> (\<And>r. r \<in> set rs \<Longrightarrow> hit r q \<Longrightarrow> P (out r q)) \<Longrightarrow> P (walk rs q)"
  by (rule walk_cases [of rs q]) auto

end

text \<open>Two walks over rules that correspond one to one: where each pair hits alike and answers
  alike, the walks answer alike. This is how one enforcement point refines another.\<close>

locale first_match_sim = a: first_match walk hit out fall + b: first_match walk' hit' out' fall'
  for walk :: "'r list \<Rightarrow> 'q \<Rightarrow> 'd" and hit out fall
    and walk' :: "'s list \<Rightarrow> 'p \<Rightarrow> 'e" and hit' out' fall'
begin

lemma walk_related:
  assumes "list_all2 (\<lambda>r s. hit r q = hit' s p \<and> (hit r q \<longrightarrow> rel (out r q) (out' s p))) rs ss"
    and "rel (fall q) (fall' p)"
  shows "rel (walk rs q) (walk' ss p)"
  using assms(1)
proof (induction rule: list_all2_induct)
  case Nil
  then show ?case using assms(2) by (simp add: a.walk_Nil b.walk_Nil)
next
  case (Cons r rs s ss)
  then show ?case by (simp add: a.walk_Cons b.walk_Cons)
qed

end

subsection \<open>A transition system and its invariant\<close>

text \<open>The interface of a component whose state only its own steps change: an invariant of every
  start state that every step keeps holds in every state the component reaches.\<close>

locale stepping =
  fixes start :: "'s \<Rightarrow> bool"
    and step :: "'s \<Rightarrow> 's \<Rightarrow> bool"
    and inv :: "'s \<Rightarrow> bool"
  assumes start_inv: "start s \<Longrightarrow> inv s"
    and step_inv: "inv s \<Longrightarrow> step s t \<Longrightarrow> inv t"
begin

lemma steps_inv: "step\<^sup>*\<^sup>* s t \<Longrightarrow> inv s \<Longrightarrow> inv t"
  by (induction rule: rtranclp_induct) (auto intro: step_inv)

lemma reach_inv: "start s \<Longrightarrow> step\<^sup>*\<^sup>* s t \<Longrightarrow> inv t"
  using steps_inv start_inv by blast

end

end
