(* ===== verification/Netip.thy ===== *)
theory Netip
  imports Prelude "HOL-Library.Word"
begin

text \<open>
  The part of Go's \<open>net/netip\<close> the sources call: addresses, prefixes, their parsers and printers.
  An IPv4 address keeps its 32 bits and an IPv6 one its 128 bits and its zone; the zero value of
  \<open>netip.Addr\<close>, which names no address, is a constructor of its own. A prefix whose length does
  not fit its address is the invalid prefix, as \<open>PrefixFrom\<close> makes it.
\<close>

unbundle bit_operations_syntax

type_synonym u32 = "32 word"

datatype addr = AddrZero | V4 u32 | V6 "128 word" string

datatype prefix = Prefix (pfx_addr: addr) (pfx_bits: "nat option")

subsection \<open>Addresses\<close>

fun Is4 :: "addr \<Rightarrow> bool" where
  "Is4 (V4 a) = True"
| "Is4 _ = False"

fun BitLen :: "addr \<Rightarrow> nat" where
  "BitLen AddrZero = 0"
| "BitLen (V4 a) = 32"
| "BitLen (V6 a z) = 128"

definition addr_IsValid :: "addr \<Rightarrow> bool" where
  "addr_IsValid a = (a \<noteq> AddrZero)"

fun withoutZone :: "addr \<Rightarrow> addr" where
  "withoutZone (V6 a z) = V6 a []"
| "withoutZone a = a"

text \<open>\<open>Next\<close> of the last address is the zero value.\<close>

fun addr_Next :: "addr \<Rightarrow> addr" where
  "addr_Next AddrZero = AddrZero"
| "addr_Next (V4 a) = (if a + 1 = 0 then AddrZero else V4 (a + 1))"
| "addr_Next (V6 a z) = (if a + 1 = 0 then AddrZero else V6 (a + 1) z)"

text \<open>\<open>Unmap\<close> turns an IPv4-mapped IPv6 address into the IPv4 one.\<close>

fun Unmap :: "addr \<Rightarrow> addr" where
  "Unmap (V6 a z) = (if drop_bit 32 a = 0xffff then V4 (ucast a) else V6 a z)"
| "Unmap a = a"

fun IsUnspecified :: "addr \<Rightarrow> bool" where
  "IsUnspecified AddrZero = False"
| "IsUnspecified (V4 a) = (a = 0)"
| "IsUnspecified (V6 a z) = (a = 0 \<and> z = [])"

fun IsMulticast :: "addr \<Rightarrow> bool" where
  "IsMulticast AddrZero = False"
| "IsMulticast (V4 a) = (drop_bit 28 a = 0xe)"
| "IsMulticast (V6 a z) =
     (if drop_bit 32 a = 0xffff then drop_bit 28 (ucast a :: u32) = 0xe else drop_bit 120 a = 0xff)"

subsection \<open>Prefixes\<close>

definition PrefixFrom :: "addr \<Rightarrow> int \<Rightarrow> prefix" where
  "PrefixFrom a bits =
     Prefix (withoutZone a)
       (if a \<noteq> AddrZero \<and> 0 \<le> bits \<and> bits \<le> int (BitLen a) then Some (nat bits) else None)"

definition pfx_IsValid :: "prefix \<Rightarrow> bool" where
  "pfx_IsValid p = (pfx_bits p \<noteq> None)"

fun pfx_Contains :: "prefix \<Rightarrow> addr \<Rightarrow> bool" where
  "pfx_Contains (Prefix (V4 p) (Some b)) (V4 a) = (drop_bit (32 - b) (a XOR p) = 0)"
| "pfx_Contains (Prefix (V6 p z) (Some b)) (V6 a z') = (z' = [] \<and> drop_bit (128 - b) (a XOR p) = 0)"
| "pfx_Contains _ _ = False"

fun Masked :: "prefix \<Rightarrow> prefix" where
  "Masked (Prefix (V4 p) (Some b)) = Prefix (V4 (push_bit (32 - b) (drop_bit (32 - b) p))) (Some b)"
| "Masked (Prefix (V6 p z) (Some b)) =
     Prefix (V6 (push_bit (128 - b) (drop_bit (128 - b) p)) []) (Some b)"
| "Masked p = Prefix AddrZero None"

text \<open>Two prefixes overlap when the shorter one covers the start of the longer one.\<close>

fun Overlaps :: "prefix \<Rightarrow> prefix \<Rightarrow> bool" where
  "Overlaps (Prefix (V4 p) (Some b)) (Prefix (V4 q) (Some c)) =
     (drop_bit (32 - min b c) (p XOR q) = 0)"
| "Overlaps (Prefix (V6 p y) (Some b)) (Prefix (V6 q z) (Some c)) =
     (drop_bit (128 - min b c) (p XOR q) = 0)"
| "Overlaps _ _ = False"

subsection \<open>ParseAddr\<close>

text \<open>
  \<open>parseIPv4Fields\<close>: the value and the number of digits of the octet so far, the octets before
  it, and the rest of the text. A dot at the start, after a dot or at the end is refused, as are a
  leading zero, a value past 255 and a fifth octet.
\<close>

fun ipv4_fields :: "nat \<Rightarrow> nat \<Rightarrow> nat list \<Rightarrow> string \<Rightarrow> nat list option" where
  "ipv4_fields v d fs [] = (if length fs < 3 then None else Some (fs @ [v]))"
| "ipv4_fields v d fs (c # s) =
     (if is_digit c then
        (if d = 1 \<and> v = 0 then None
         else if 10 * v + (code c - 48) > 255 then None
         else ipv4_fields (10 * v + (code c - 48)) (Suc d) fs s)
      else if c = CHR ''.'' then
        (if d = 0 \<or> s = [] then None
         else if length fs = 3 then None
         else ipv4_fields 0 0 (fs @ [v]) s)
      else None)"

definition word_of_bytes :: "nat list \<Rightarrow> 'a::len word" where
  "word_of_bytes bs = foldl (\<lambda>acc b. 256 * acc + word_of_nat b) 0 bs"

definition parse_ipv4 :: "string \<Rightarrow> addr option" where
  "parse_ipv4 s = map_option (\<lambda>fs. V4 (word_of_bytes fs)) (ipv4_fields 0 0 [] s)"

definition hex_digit :: "char \<Rightarrow> nat option" where
  "hex_digit c =
     (if is_digit c then Some (code c - 48)
      else if 97 \<le> code c \<and> code c \<le> 102 then Some (code c - 87)
      else if 65 \<le> code c \<and> code c \<le> 70 then Some (code c - 55)
      else None)"

fun hex_group :: "nat \<Rightarrow> nat \<Rightarrow> string \<Rightarrow> (nat \<times> nat \<times> string) option" where
  "hex_group off acc [] = Some (acc, off, [])"
| "hex_group off acc (c # s) =
     (case hex_digit c of
        None \<Rightarrow> Some (acc, off, c # s)
      | Some h \<Rightarrow> (if off > 3 then None else hex_group (Suc off) (16 * acc + h) s))"

text \<open>The loop of \<open>parseIPv6\<close>: the bytes so far, where the ellipsis stands, and the rest.\<close>

function ipv6_loop :: "nat list \<Rightarrow> nat option \<Rightarrow> string \<Rightarrow> (nat list \<times> nat option \<times> string) option" where
  "ipv6_loop bs ell s =
     (if 16 \<le> length bs then Some (bs, ell, s)
      else case hex_group 0 0 s of
        None \<Rightarrow> None
      | Some (acc, off, rest) \<Rightarrow>
          if off = 0 then None
          else if rest \<noteq> [] \<and> hd rest = CHR ''.'' then
            (if ell = None \<and> length bs \<noteq> 12 then None
             else if 16 < length bs + 4 then None
             else map_option (\<lambda>fs. (bs @ fs, ell, [])) (ipv4_fields 0 0 [] s))
          else if rest = [] then Some (bs @ [acc div 256, acc mod 256], ell, [])
          else if hd rest \<noteq> CHR '':'' then None
          else if length rest = 1 then None
          else if hd (tl rest) = CHR '':'' then
            (if ell \<noteq> None then None
             else if tl (tl rest) = [] then Some (bs @ [acc div 256, acc mod 256], Some (length bs + 2), [])
             else ipv6_loop (bs @ [acc div 256, acc mod 256]) (Some (length bs + 2)) (tl (tl rest)))
          else ipv6_loop (bs @ [acc div 256, acc mod 256]) ell (tl rest))"
  by pat_completeness auto
termination
  by (relation "measure (\<lambda>(bs, ell, s). 16 - length bs)") auto

declare ipv6_loop.simps [simp del]

definition parse_ipv6 :: "string \<Rightarrow> addr option" where
  "parse_ipv6 s =
     (let (s0, zone, zoned) = Cut s (CHR ''%'');
          lead = HasPrefix s0 ''::'';
          s1 = (if lead then drop 2 s0 else s0)
      in if zoned \<and> zone = [] then None
         else if lead \<and> s1 = [] then Some (V6 0 zone)
         else case ipv6_loop [] (if lead then Some 0 else None) s1 of
           None \<Rightarrow> None
         | Some (bs, ell, rest) \<Rightarrow>
             if rest \<noteq> [] then None
             else if length bs < 16 then
               (case ell of
                  None \<Rightarrow> None
                | Some e \<Rightarrow> Some (V6 (word_of_bytes
                              (take e bs @ replicate (16 - length bs) 0 @ drop e bs)) zone))
             else if ell \<noteq> None then None
             else Some (V6 (word_of_bytes bs) zone))"

text \<open>\<open>ParseAddr\<close> picks the parser by the first of dot, colon and percent.\<close>

fun parse_addr_kind :: "string \<Rightarrow> string \<Rightarrow> addr option" where
  "parse_addr_kind s [] = None"
| "parse_addr_kind s (c # t) =
     (if c = CHR ''.'' then parse_ipv4 s
      else if c = CHR '':'' then parse_ipv6 s
      else if c = CHR ''%'' then None
      else parse_addr_kind s t)"

definition ParseAddr :: "string \<Rightarrow> addr option" where
  "ParseAddr s = parse_addr_kind s s"

subsection \<open>ParsePrefix\<close>

definition last_cut :: "string \<Rightarrow> char \<Rightarrow> (string \<times> string) option" where
  "last_cut s c =
     (case Cut (rev s) c of (a, b, found) \<Rightarrow> if found then Some (rev b, rev a) else None)"

definition ParsePrefix :: "string \<Rightarrow> prefix option" where
  "ParsePrefix s =
     (case last_cut s (CHR ''/'') of
        None \<Rightarrow> None
      | Some (a, bits) \<Rightarrow>
          (case ParseAddr a of
             None \<Rightarrow> None
           | Some ip \<Rightarrow>
               if withoutZone ip \<noteq> ip then None
               else if 1 < length bits \<and> \<not> (CHR ''1'' \<le> hd bits \<and> hd bits \<le> CHR ''9'') then None
               else (case Atoi bits of
                       None \<Rightarrow> None
                     | Some n \<Rightarrow> if n < 0 \<or> int (BitLen ip) < n then None else Some (PrefixFrom ip n))))"

subsection \<open>String\<close>

definition octets :: "u32 \<Rightarrow> nat list" where
  "octets a = map (\<lambda>i. unat (take_bit 8 (drop_bit i a))) [24, 16, 8, 0]"

definition ipv4_String :: "u32 \<Rightarrow> string" where
  "ipv4_String a = Join (map itoa_nat (octets a)) ''.''"

definition pfx4_String :: "u32 \<Rightarrow> nat \<Rightarrow> string" where
  "pfx4_String a b = ipv4_String a @ ''/'' @ itoa_nat b"

subsection \<open>Facts\<close>

lemma octets_mod: "octets a = map (\<lambda>i. unat (drop_bit i a) mod 256) [24, 16, 8, 0]"
proof -
  have "unat (take_bit 8 w) = unat w mod 256" for w :: u32
    by (simp only: unsigned_take_bit_eq) (simp add: take_bit_eq_mod)
  then show ?thesis by (simp add: octets_def)
qed

lemma ipv4_fields_octet:
  assumes "v < 256"
  obtains d where "0 < d" "\<And>s. ipv4_fields 0 0 fs (itoa_nat v @ s) = ipv4_fields v d fs s"
proof -
  consider "v < 10" | "10 \<le> v" "v < 100" | "100 \<le> v" by linarith
  then show ?thesis
  proof cases
    case 1
    then have "itoa_nat v = [digit_char v]" by (subst itoa_nat.simps) simp
    then show ?thesis using 1 that [of 1] by simp
  next
    case 2
    then have "itoa_nat v = [digit_char (v div 10), digit_char (v mod 10)]"
      by (subst itoa_nat.simps, subst itoa_nat.simps) simp
    moreover have "v div 10 < 10" "v div 10 \<noteq> 0" "v mod 10 < 10" "10 * (v div 10) + v mod 10 = v"
      using 2 by auto
    ultimately show ?thesis using assms that [of 2] by (simp add: numeral_2_eq_2)
  next
    case 3
    let ?h = "v div 100" and ?t = "v div 10 mod 10" and ?u = "v mod 10"
    have "itoa_nat v = [digit_char ?h, digit_char ?t, digit_char ?u]"
      using 3 assms by (subst itoa_nat.simps, subst itoa_nat.simps, subst itoa_nat.simps)
        (simp add: div_mult2_eq [symmetric], linarith)
    moreover have "v div 100 = v div 10 div 10" by (simp add: div_mult2_eq [symmetric])
    then have "10 * ?h + ?t = v div 10" by simp
    moreover have "?h < 10" "?h \<noteq> 0" "?t < 10" "?u < 10"
      "10 * (v div 10) + ?u = v" "v div 10 \<noteq> 0" "v div 10 < 26"
      using 3 assms by auto
    ultimately show ?thesis using assms that [of 3] by (simp add: numeral_3_eq_3)
  qed
qed

lemma ipv4_fields_dot:
  assumes "v < 256" "length fs < 3" "s \<noteq> []"
  shows "ipv4_fields 0 0 fs (itoa_nat v @ CHR ''.'' # s) = ipv4_fields 0 0 (fs @ [v]) s"
proof -
  obtain d where "0 < d" "ipv4_fields 0 0 fs (itoa_nat v @ CHR ''.'' # s) = ipv4_fields v d fs (CHR ''.'' # s)"
    using ipv4_fields_octet [OF assms(1)] by metis
  then show ?thesis using assms by (simp add: is_digit_def)
qed

lemma ipv4_fields_end:
  assumes "v < 256" "length fs = 3"
  shows "ipv4_fields 0 0 fs (itoa_nat v) = Some (fs @ [v])"
proof -
  obtain d where "0 < d" "ipv4_fields 0 0 fs (itoa_nat v @ []) = ipv4_fields v d fs []"
    using ipv4_fields_octet [OF assms(1)] by metis
  then show ?thesis using assms by simp
qed

lemma ipv4_fields_String: "ipv4_fields 0 0 [] (ipv4_String a) = Some (octets a)"
  by (simp add: ipv4_String_def octets_mod ipv4_fields_dot ipv4_fields_end)

lemma unat_drop_bit_div: "unat (drop_bit n w) = unat w div 2 ^ n"
  by (subst unat_drop_bit_eq) (rule drop_bit_eq_div)

lemma word_of_bytes_octets: "word_of_bytes (octets a) = (a :: u32)"
proof -
  let ?A = "unat a"
  have lt: "?A < 2 ^ 32" using unsigned_less [of a] by simp
  have "word_of_bytes (octets a) = (word_of_nat
      (256 * (256 * (256 * (?A div 2 ^ 24 mod 256) + ?A div 2 ^ 16 mod 256) + ?A div 2 ^ 8 mod 256)
        + ?A mod 256) :: u32)"
    by (simp add: word_of_bytes_def octets_mod unat_drop_bit_div)
  also have "256 * (256 * (256 * (?A div 2 ^ 24 mod 256) + ?A div 2 ^ 16 mod 256) + ?A div 2 ^ 8 mod 256)
        + ?A mod 256 = ?A"
  proof -
    have "?A div 2 ^ 16 = ?A div 256 div 256" "?A div 2 ^ 24 = ?A div 256 div 256 div 256"
      by (simp_all add: div_mult2_eq [symmetric])
    moreover have "?A div 256 div 256 div 256 mod 256 = ?A div 256 div 256 div 256"
      using lt by (simp add: div_mult2_eq [symmetric])
    ultimately show ?thesis
      using mult_div_mod_eq [of 256 ?A] mult_div_mod_eq [of 256 "?A div 256"]
        mult_div_mod_eq [of 256 "?A div 256 div 256"] by simp
  qed
  finally show ?thesis by simp
qed

lemma ipv4_String_chars: "c \<in> set (ipv4_String a) \<Longrightarrow> is_digit c \<or> c = CHR ''.''"
proof -
  have "list_all is_digit (itoa_nat n)" for n by (rule itoa_nat_digits)
  then show "c \<in> set (ipv4_String a) \<Longrightarrow> is_digit c \<or> c = CHR ''.''"
    using set_Join [of "map itoa_nat (octets a)" "''.''"]
    unfolding ipv4_String_def by (auto simp: list_all_iff)
qed

lemma parse_addr_kind_dot:
  "list_all (\<lambda>c. is_digit c \<or> c = CHR ''.'') t \<Longrightarrow> CHR ''.'' \<in> set t \<Longrightarrow> parse_addr_kind s t = parse_ipv4 s"
  by (induction t) (auto simp: is_digit_def)

lemma ParseAddr_String: "ParseAddr (ipv4_String a) = Some (V4 a)"
proof -
  have "CHR ''.'' \<in> set (ipv4_String a)"
    by (simp add: ipv4_String_def octets_mod)
  then have "ParseAddr (ipv4_String a) = parse_ipv4 (ipv4_String a)"
    unfolding ParseAddr_def
    by (intro parse_addr_kind_dot) (auto simp: list_all_iff dest: ipv4_String_chars)
  also have "\<dots> = Some (V4 a)"
    by (simp add: parse_ipv4_def ipv4_fields_String word_of_bytes_octets)
  finally show ?thesis .
qed

lemma last_cut_append: "c \<notin> set b \<Longrightarrow> last_cut (a @ c # b) c = Some (a, b)"
  by (simp add: last_cut_def)

lemma ParsePrefix_String: 
  assumes "b \<le> 32"
  shows "ParsePrefix (pfx4_String a b) = Some (Prefix (V4 a) (Some b))"
proof -
  have "CHR ''/'' \<notin> set (itoa_nat b)"
    using itoa_nat_digits [of b] by (auto simp: list_all_iff is_digit_def)
  then have "last_cut (pfx4_String a b) (CHR ''/'') = Some (ipv4_String a, itoa_nat b)"
    by (simp add: pfx4_String_def last_cut_append)
  moreover have "1 < length (itoa_nat b) \<Longrightarrow> CHR ''1'' \<le> hd (itoa_nat b) \<and> hd (itoa_nat b) \<le> CHR ''9''"
  proof -
    assume len: "1 < length (itoa_nat b)"
    then have "\<not> b < 10" using itoa_nat.simps [of b] by (metis One_nat_def length_Cons less_irrefl list.size(3))
    then have "itoa_nat b = [digit_char (b div 10), digit_char (b mod 10)]" "1 \<le> b div 10" "b div 10 < 10"
      using assms by (subst itoa_nat.simps, subst itoa_nat.simps, auto)
    then show ?thesis by (simp add: less_eq_char_def)
  qed
  moreover have "Atoi (itoa_nat b) = Some (int b)"
    using assms by (intro Atoi_itoa_nat) simp
  ultimately show ?thesis
    using assms by (auto simp: ParsePrefix_def ParseAddr_String PrefixFrom_def)
qed

lemma pfx_Contains_V4:
  "b \<le> 32 \<Longrightarrow> pfx_Contains (Prefix (V4 p) (Some b)) (V4 a) \<longleftrightarrow> unat a div 2 ^ (32 - b) = unat p div 2 ^ (32 - b)"
proof -
  have "drop_bit n (a XOR p) = 0 \<longleftrightarrow> drop_bit n a = drop_bit n p" for n
    by (auto simp: bit_eq_iff bit_simps)
  moreover have "drop_bit n a = drop_bit n p \<longleftrightarrow> unat a div 2 ^ n = unat p div 2 ^ n" for n
    by (metis unat_drop_bit_div word_unat_eq_iff)
  ultimately show ?thesis by simp
qed

lemma pfx_Contains_0: "pfx_Contains (Prefix (V4 p) (Some 0)) (V4 a)"
  by (simp add: pfx_Contains_V4 div_eq_0_iff)

end
