(* ===== verification/Hosts.thy ===== *)
theory Hosts
  imports Netip
begin

text \<open>
  Host names as the grants and the policies spell them: \<open>CanonicalHost\<close>, \<open>ValidDestination\<close> and
  \<open>validSecretDestination\<close> of \<open>services/secret/secret.go\<close>, and the wildcard matcher
  \<open>MatchHost\<close> of \<open>services/egress/decide.go\<close>. The public suffix list is a package outside the
  repository, so the check of \<open>EffectiveTLDPlusOne\<close> is the parameter \<open>etld1\<close>: it answers whether
  a name has a registrable domain. The words of an error are not modelled, its kind is.
\<close>

datatype host_error =
    HostEmpty | HostNotAlone | HostIsAddress | HostTooLong | HostNoDot
  | HostStarInside | HostBadLabel | HostStarPastLeft | HostPublicSuffix

definition CanonicalHost :: "string \<Rightarrow> string" where
  "CanonicalHost host = ToLower (TrimSuffix host ''.'')"

text \<open>\<open>labelShape\<close>: lower-case letters, digits and dashes, with no dash at either end.\<close>

definition label_char :: "char \<Rightarrow> bool" where
  "label_char c = (is_lower c \<or> is_digit c)"

definition labelShape :: "string \<Rightarrow> bool" where
  "labelShape l = (l \<noteq> [] \<and> label_char (hd l) \<and> label_char (last l)
     \<and> list_all (\<lambda>c. label_char c \<or> c = CHR ''-'') l)"

definition valid_label :: "string \<Rightarrow> host_error + unit" where
  "valid_label l =
     (if l = ''*'' then Inr ()
      else if Contains l ''*'' then Inl HostStarInside
      else if \<not> labelShape l then Inl HostBadLabel
      else Inr ())"

definition validDestination :: "string \<Rightarrow> host_error + string" where
  "validDestination dest =
     (let canonical = CanonicalHost dest; labels = Split canonical (CHR ''.'') in
      if canonical = [] then Inl HostEmpty
      else if CHR ''/'' \<in> set canonical \<or> CHR '':'' \<in> set canonical then Inl HostNotAlone
      else if ParseAddr canonical \<noteq> None then Inl HostIsAddress
      else if length canonical > 253 then Inl HostTooLong
      else if length labels < 2 then Inl HostNoDot
      else case check_all (\<lambda>_. valid_label) 0 labels of Inl e \<Rightarrow> Inl e | Inr _ \<Rightarrow> Inr canonical)"

definition validSecretDestination :: "(string \<Rightarrow> bool) \<Rightarrow> string \<Rightarrow> host_error + string" where
  "validSecretDestination etld1 dest =
     (case validDestination dest of
        Inl e \<Rightarrow> Inl e
      | Inr canonical \<Rightarrow>
          (let labels = Split canonical (CHR ''.'') in
           if ''*'' \<in> set (tl labels) then Inl HostStarPastLeft
           else if hd labels \<noteq> ''*'' then Inr canonical
           else if \<not> etld1 (Join (tl labels) ''.'') then Inl HostPublicSuffix
           else Inr canonical))"

text \<open>\<open>MatchHost\<close>: a leading star label is one or more labels, any other star exactly one.\<close>

definition MatchHost :: "string \<Rightarrow> string \<Rightarrow> bool" where
  "MatchHost pattern host =
     (if pattern = ''*'' then True
      else if \<not> Contains pattern ''*'' then pattern = host
      else
        (let want = Split pattern (CHR ''.''); got = Split host (CHR ''.'') in
         if hd want = ''*'' then
           (let rest = tl want in
            if length got \<le> length rest then False
            else list_all2 (\<lambda>w g. w = ''*'' \<or> w = g) rest (drop (length got - length rest) got))
         else list_all2 (\<lambda>w g. w = ''*'' \<or> w = g) want got))"

subsection \<open>Canonical names\<close>

text \<open>What an accepted name is: lower-case labels over letters, digits and dashes, or a star.\<close>

definition host_labels :: "string \<Rightarrow> string list" where
  "host_labels h = Split h (CHR ''.'')"

definition plain_host :: "string \<Rightarrow> bool" where
  "plain_host h = (2 \<le> length (host_labels h) \<and> length h \<le> 253 \<and> ParseAddr h = None
     \<and> (\<forall>l \<in> set (host_labels h). l = ''*'' \<or> labelShape l))"

lemma labelShape_char:
  assumes "labelShape l" "c \<in> set l"
  shows "is_lower c \<or> is_digit c \<or> c = CHR ''-''"
  using assms by (auto simp: labelShape_def label_char_def list_all_iff)

lemma valid_label_ok: "is_ok (valid_label l) \<longleftrightarrow> l = ''*'' \<or> labelShape l"
proof -
  have "labelShape l \<Longrightarrow> \<not> Contains l ''*''"
    using labelShape_char by (fastforce simp: Contains_char char_class_defs)
  then show ?thesis by (auto simp: valid_label_def)
qed

lemma plain_host_char:
  assumes "plain_host h" "c \<in> set h"
  shows "is_lower c \<or> is_digit c \<or> c = CHR ''-'' \<or> c = CHR ''*'' \<or> c = CHR ''.''"
proof -
  have "c \<in> (\<Union>w \<in> set (host_labels h). set w) \<union> set ''.''"
    using assms(2) set_Join [of "host_labels h" "''.''"] unfolding host_labels_def Join_Split by blast
  then show ?thesis
    using assms(1) labelShape_char by (fastforce simp: plain_host_def)
qed

lemma plain_host_plain: "plain_host h \<Longrightarrow> list_all is_plain h"
  by (auto simp: list_all_iff char_class_defs dest!: plain_host_char)

lemma plain_host_nonempty: "plain_host h \<Longrightarrow> h \<noteq> []"
  by (auto simp: plain_host_def host_labels_def)

lemma HasSuffix_char: "HasSuffix s [c] \<longleftrightarrow> s \<noteq> [] \<and> last s = c"
  by (cases s rule: rev_cases) (auto simp: HasSuffix_iff)

lemma plain_host_no_dot_end:
  assumes "plain_host h"
  shows "\<not> HasSuffix h ''.''"
proof
  assume "HasSuffix h ''.''"
  then obtain r where "h = r @ CHR ''.'' # []"
    by (auto simp: HasSuffix_iff)
  then have "[] \<in> set (host_labels h)"
    by (simp only: host_labels_def Split_append_sep) simp
  then show False using assms by (auto simp: plain_host_def labelShape_def)
qed

lemma CanonicalHost_plain: "plain_host h \<Longrightarrow> CanonicalHost h = h"
proof -
  assume h: "plain_host h"
  have "ToLower h = h"
    by (rule ToLower_id) (use plain_host_char [OF h] in \<open>fastforce simp: char_class_defs\<close>)
  then show "CanonicalHost h = h"
    using plain_host_no_dot_end [OF h] by (simp add: CanonicalHost_def TrimSuffix_def)
qed

lemma validDestination_Inr:
  "validDestination dest = Inr h \<longleftrightarrow> h = CanonicalHost dest \<and> plain_host h"
proof -
  have ok: "(case check_all (\<lambda>_. valid_label) 0 ls of Inl e \<Rightarrow> Inl e | Inr _ \<Rightarrow> Inr c) = Inr h
      \<longleftrightarrow> h = c \<and> (\<forall>l \<in> set ls. l = ''*'' \<or> labelShape l)" for ls and c h :: string
    using check_all_ok [of valid_label 0 ls]
    by (cases "check_all (\<lambda>_. valid_label) 0 ls") (auto simp: valid_label_ok)
  show ?thesis
  proof
    assume "validDestination dest = Inr h"
    then show "h = CanonicalHost dest \<and> plain_host h"
      by (auto simp: validDestination_def Let_def ok plain_host_def host_labels_def split: if_splits)
  next
    assume h: "h = CanonicalHost dest \<and> plain_host h"
    then have "h \<noteq> []" "CHR ''/'' \<notin> set h" "CHR '':'' \<notin> set h"
      using plain_host_nonempty plain_host_char [of h "CHR ''/''"] plain_host_char [of h "CHR '':''"]
      by (auto simp: char_class_defs)
    moreover have "ParseAddr h = None" "length h \<le> 253" "2 \<le> length (Split h (CHR ''.''))"
      "\<forall>l \<in> set (Split h (CHR ''.'')). l = ''*'' \<or> labelShape l"
      using h by (auto simp: plain_host_def host_labels_def)
    moreover have "CanonicalHost dest = h" using h by simp
    ultimately show "validDestination dest = Inr h"
      unfolding validDestination_def Let_def by (simp add: ok)
  qed
qed

lemma validDestination_idem: "validDestination dest = Inr h \<Longrightarrow> validDestination h = Inr h"
  by (auto simp: validDestination_Inr CanonicalHost_plain)

subsection \<open>What a pattern matches\<close>

abbreviation label_hits :: "string \<Rightarrow> string \<Rightarrow> bool" where
  "label_hits w g \<equiv> w = ''*'' \<or> w = g"

lemma list_all2_drop_suffix:
  "length rest < length got \<Longrightarrow>
   list_all2 P rest (drop (length got - length rest) got) \<longleftrightarrow>
   (\<exists>pre post. got = pre @ post \<and> pre \<noteq> [] \<and> list_all2 P rest post)"
proof
  assume "length rest < length got" "list_all2 P rest (drop (length got - length rest) got)"
  then have "got = take (length got - length rest) got @ drop (length got - length rest) got
    \<and> take (length got - length rest) got \<noteq> []
    \<and> list_all2 P rest (drop (length got - length rest) got)"
    by auto
  then show "\<exists>pre post. got = pre @ post \<and> pre \<noteq> [] \<and> list_all2 P rest post" by blast
next
  assume "\<exists>pre post. got = pre @ post \<and> pre \<noteq> [] \<and> list_all2 P rest post"
  then obtain pre post where "got = pre @ post" "list_all2 P rest post" by blast
  moreover from this have "length rest = length post" by (auto dest: list_all2_lengthD)
  ultimately show "list_all2 P rest (drop (length got - length rest) got)" by simp
qed

lemma label_hits_exact: "list_all2 label_hits ws gs \<Longrightarrow> ''*'' \<notin> set ws \<Longrightarrow> gs = ws"
  by (induction rule: list_all2_induct) auto

lemma host_labels_inj [simp]: "host_labels a = host_labels b \<longleftrightarrow> a = b"
  unfolding host_labels_def by (metis Join_Split)

lemma MatchHost_exact: "\<not> Contains pattern ''*'' \<Longrightarrow> MatchHost pattern host \<longleftrightarrow> host = pattern"
  by (auto simp: MatchHost_def Contains_char)

lemma MatchHost_labels:
  assumes "pattern \<noteq> ''*''" "hd (host_labels pattern) \<noteq> ''*''"
  shows "MatchHost pattern host \<longleftrightarrow> list_all2 label_hits (host_labels pattern) (host_labels host)"
proof (cases "Contains pattern ''*''")
  case True
  then show ?thesis using assms by (simp add: MatchHost_def host_labels_def Let_def)
next
  case False
  then have no: "''*'' \<notin> set (host_labels pattern)"
    using Split_subset [of "''*''" pattern "CHR ''.''"] by (auto simp: host_labels_def Contains_char)
  have "list_all2 label_hits (host_labels pattern) (host_labels host) \<longleftrightarrow> host_labels pattern = host_labels host"
  proof
    assume "list_all2 label_hits (host_labels pattern) (host_labels host)"
    from label_hits_exact [OF this no] show "host_labels pattern = host_labels host" ..
  qed (simp add: list_all2_same)
  also have "\<dots> \<longleftrightarrow> pattern = host" by simp
  finally show ?thesis using False by (auto simp: MatchHost_exact)
qed

lemma MatchHost_wild:
  assumes "host_labels pattern = ''*'' # rest" "rest \<noteq> []"
  shows "MatchHost pattern host \<longleftrightarrow>
    (\<exists>pre post. host_labels host = pre @ post \<and> pre \<noteq> [] \<and> list_all2 label_hits rest post)"
proof -
  have "pattern = Join (''*'' # rest) ''.''"
    using assms(1) Join_Split [of pattern "CHR ''.''"] by (simp add: host_labels_def)
  then have p: "pattern \<noteq> ''*''" "Contains pattern ''*''"
    using assms(2) by (auto simp: Join_Cons Contains_char)
  show ?thesis
  proof (cases "length (host_labels host) \<le> length rest")
    case True
    then have "\<not> (\<exists>pre post. host_labels host = pre @ post \<and> pre \<noteq> [] \<and> list_all2 label_hits rest post)"
      by (auto dest: list_all2_lengthD)
    then show ?thesis using True p assms by (simp add: MatchHost_def host_labels_def Let_def)
  next
    case False
    then show ?thesis
      using p assms list_all2_drop_suffix [of rest "host_labels host" label_hits]
      by (simp add: MatchHost_def host_labels_def Let_def)
  qed
qed

lemma Split_suffix:
  assumes "Split h c = pre @ post" "pre \<noteq> []" "post \<noteq> []"
  shows "HasSuffix h (c # Join post [c])"
proof -
  have "Join (pre @ post) [c] = Join pre [c] @ c # Join post [c]"
    using assms(2,3)
  proof (induction pre)
    case Nil
    then show ?case by simp
  next
    case (Cons w pre)
    then show ?case by (cases "pre = []") (simp_all add: Join_Cons)
  qed
  then show ?thesis using assms(1) by (metis HasSuffix_iff Join_Split)
qed

text \<open>C8: a grant never reaches past the domain it names: every host a secret's destination matches is
  the destination itself or a name under the registrable domain behind its star. The public suffix
  list is the parameter \<open>etld1\<close>.\<close>

theorem secret_destination_confined:
  assumes ok: "validSecretDestination etld1 dest = Inr pattern" and hit: "MatchHost pattern host"
  shows "host = pattern
    \<or> (\<exists>base. etld1 base \<and> pattern = ''*.'' @ base \<and> HasSuffix host (CHR ''.'' # base))"
proof -
  let ?ls = "host_labels pattern"
  have dest: "validDestination dest = Inr pattern" and later: "''*'' \<notin> set (tl ?ls)"
    and first: "hd ?ls = ''*'' \<Longrightarrow> etld1 (Join (tl ?ls) ''.'')"
    using ok by (auto simp: validSecretDestination_def host_labels_def Let_def split: sum.splits if_splits)
  have plain: "plain_host pattern" using dest by (auto simp: validDestination_Inr)
  then obtain l rest where ls: "?ls = l # rest" "rest \<noteq> []"
    by (auto simp: plain_host_def Suc_le_length_iff numeral_2_eq_2)
  have exact: "list_all2 label_hits rest xs \<Longrightarrow> xs = rest" for xs
    using later ls label_hits_exact by simp
  show ?thesis
  proof (cases "l = ''*''")
    case True
    have pat: "pattern = ''*.'' @ Join rest ''.''"
      using Join_Split [of pattern "CHR ''.''"] ls True by (simp add: host_labels_def Join_Cons)
    have "host_labels pattern = ''*'' # rest" using ls True by simp
    then obtain pre post where got: "host_labels host = pre @ post" "pre \<noteq> []" "list_all2 label_hits rest post"
      using hit MatchHost_wild [of pattern rest host] ls(2) by blast
    have "HasSuffix host (CHR ''.'' # Join rest ''.'')"
      using Split_suffix [of host "CHR ''.''" pre rest] got exact [OF got(3)] ls(2)
      by (simp add: host_labels_def)
    then show ?thesis using pat first ls True by auto
  next
    case False
    have "pattern \<noteq> ''*''"
      using plain by (auto simp: plain_host_def host_labels_def)
    then have "list_all2 label_hits (l # rest) (host_labels host)"
      using hit MatchHost_labels [of pattern host] ls False by simp
    then have "host_labels host = host_labels pattern"
      using False exact ls by (auto simp: list_all2_Cons1)
    then show ?thesis by simp
  qed
qed

theorem secret_destination_confined_witness:
  "HasSuffix ''api.a.io'' ''.a.io'' \<and> validSecretDestination (\<lambda>b. b = ''a.io'') ''*.A.io'' = Inr ''*.a.io''"
proof -
  have ok: "validSecretDestination (\<lambda>b. b = ''a.io'') ''*.A.io'' = Inr ''*.a.io''" by code_simp
  have hit: "MatchHost ''*.a.io'' ''api.a.io''" by code_simp
  show ?thesis using secret_destination_confined [OF ok hit] ok by simp
qed

end
