(* ===== verification/Models.thy ===== *)
theory Models
  imports Hosts
begin

text \<open>
  The domain types of \<open>models/\<close>: the egress rule and policy, the sandbox record with its states, the
  named process and its restart policy, the record of memory kills, the snapshot, and what a
  substrate says of a sandbox.

  A Go string type with constants is a datatype with one constructor per constant and one for every
  other string, since a record on disk may predate a constant. A \<open>time.Time\<close> is the
  nanoseconds since its zero value, so the zero time is 0, and a \<open>time.Duration\<close> is nanoseconds.
\<close>

type_synonym time = int
type_synonym duration = int

definition second :: duration where
  "second = 1000000000"

subsection \<open>Egress rules\<close>

datatype action = ActionAllow | ActionDeny | ActionOther string

datatype dest_kind =
    DestinationCIDR | DestinationDomain | DestinationDomainSuffix | DestinationGroup
  | DestinationOther string

record destination =
  dst_Kind :: dest_kind
  dst_Value :: string

record rule =
  rule_Action :: action
  rule_Destination :: destination
  rule_Protocol :: string
  rule_Ports :: "int list"

record policy =
  pol_Name :: string
  pol_Rules :: "rule list"

subsection \<open>Lifecycle states\<close>

datatype state =
    StatePending | StateCreated | StateRunning | StatePaused | StateUnresponsive
  | StateStopped | StateFailed | StateOther string

fun legalTransitions :: "state \<Rightarrow> state list option" where
  "legalTransitions StatePending = Some [StateRunning, StateFailed]"
| "legalTransitions StateCreated = Some [StateRunning, StateStopped, StateFailed]"
| "legalTransitions StateRunning = Some [StatePaused, StateStopped, StateUnresponsive, StateFailed]"
| "legalTransitions StatePaused = Some [StateRunning, StateStopped]"
| "legalTransitions StateUnresponsive = Some [StateRunning, StatePaused, StateStopped]"
| "legalTransitions StateStopped = Some [StateRunning]"
| "legalTransitions StateFailed = Some []"
| "legalTransitions (StateOther s) = None"

definition state_Valid :: "state \<Rightarrow> bool" where
  "state_Valid s = (legalTransitions s \<noteq> None)"

definition CanTransitionTo :: "state \<Rightarrow> state \<Rightarrow> bool" where
  "CanTransitionTo s next = (case legalTransitions s of None \<Rightarrow> False | Some l \<Rightarrow> next \<in> set l)"

definition Live :: "state \<Rightarrow> bool" where
  "Live s = (s = StateRunning \<or> s = StateUnresponsive)"

subsection \<open>Restart policies\<close>

datatype restart_policy =
    RestartUnset | RestartNo | RestartOnFailure | RestartAlways | RestartUnlessStopped
  | RestartOther string

definition RestartBackoffCap :: int where
  "RestartBackoffCap = 60"

record restart_spec =
  rs_Policy :: restart_policy
  rs_Retries :: int
  rs_Backoff :: int

definition restart_Set :: "restart_spec \<Rightarrow> bool" where
  "restart_Set r = (rs_Policy r \<noteq> RestartUnset \<and> rs_Policy r \<noteq> RestartNo)"

subsection \<open>Named processes\<close>

definition MaxProcesses :: nat where
  "MaxProcesses = 16"

definition MaxProcessName :: nat where
  "MaxProcessName = 32"

definition ValidProcessName :: "string \<Rightarrow> bool" where
  "ValidProcessName name =
     (name \<noteq> [] \<and> length name \<le> MaxProcessName \<and> (is_lower (hd name) \<or> is_digit (hd name))
      \<and> list_all (\<lambda>c. is_lower c \<or> is_digit c \<or> c \<in> {CHR ''_'', CHR ''.'', CHR ''-''}) (tl name))"

datatype process_state =
    ProcessRunning | ProcessRestarting | ProcessExited | ProcessKilled | ProcessGaveUp
  | ProcessStopped | ProcessOther string

definition Ended :: "process_state \<Rightarrow> bool" where
  "Ended s = (s = ProcessExited \<or> s = ProcessKilled \<or> s = ProcessGaveUp \<or> s = ProcessStopped)"

record exit_status =
  es_Code :: int
  es_Signal :: int

record process_status =
  ps_State :: process_state
  ps_Restarts :: int
  ps_Exit :: "exit_status option"
  ps_StartedAt :: time

record process =
  pr_Name :: string
  pr_Command :: "string list"
  pr_Env :: "string list"
  pr_WorkDir :: string
  pr_User :: string
  pr_Restart :: restart_spec
  pr_Killed :: bool
  pr_Status :: process_status

record process_report =
  rep_Name :: string
  rep_Status :: process_status
  rep_Seq :: nat

subsection \<open>Memory kills\<close>

record oom =
  oom_Kills :: int
  oom_InARow :: int
  oom_KilledAt :: time
  oom_RestartAt :: time

definition RestartDue :: "oom option \<Rightarrow> bool" where
  "RestartDue ov = (case ov of None \<Rightarrow> False | Some k \<Rightarrow> oom_RestartAt k \<noteq> 0)"

subsection \<open>The sandbox record\<close>

record resources =
  res_MemoryMiB :: int
  res_VCPUs :: int
  res_DiskMiB :: int
  res_SwapMiB :: int

record port_forward =
  pf_HostPort :: nat
  pf_GuestPort :: nat
  pf_Public :: bool

record sandbox =
  sb_ID :: string
  sb_Name :: string
  sb_Image :: string
  sb_Digest :: string
  sb_Snapshot :: string
  sb_ForkedFrom :: string
  sb_Provider :: string
  sb_Kernel :: string
  sb_State :: state
  sb_ExitChannel :: string
  sb_StoppedReason :: string
  sb_FailedReason :: string
  sb_FailedPublic :: string
  sb_UnresponsiveReason :: string
  sb_OOM :: "oom option"
  sb_Checkpoint :: string
  sb_Pausing :: bool
  sb_PID :: int
  sb_NetnsPath :: string
  sb_Address :: prefix
  sb_HostInterface :: string
  sb_Resources :: resources
  sb_Processes :: "process list"
  sb_StoppedByOperator :: bool
  sb_LogStarts :: "(string \<times> int) list"
  sb_Secrets :: "string list"
  sb_Policy :: string
  sb_Ports :: "port_forward list"
  sb_StartedAt :: time
  sb_RunStartedAt :: time
  sb_CreatedAt :: time

text \<open>The zero value, from which the sources build a record by naming its fields.\<close>

definition zero_sandbox :: sandbox where
  "zero_sandbox = \<lparr> sb_ID = [], sb_Name = [], sb_Image = [], sb_Digest = [], sb_Snapshot = [],
     sb_ForkedFrom = [], sb_Provider = [], sb_Kernel = [], sb_State = StateOther [],
     sb_ExitChannel = [], sb_StoppedReason = [], sb_FailedReason = [], sb_FailedPublic = [],
     sb_UnresponsiveReason = [], sb_OOM = None, sb_Checkpoint = [], sb_Pausing = False, sb_PID = 0,
     sb_NetnsPath = [], sb_Address = Prefix AddrZero None, sb_HostInterface = [],
     sb_Resources = \<lparr> res_MemoryMiB = 0, res_VCPUs = 0, res_DiskMiB = 0, res_SwapMiB = 0 \<rparr>,
     sb_Processes = [], sb_StoppedByOperator = False, sb_LogStarts = [], sb_Secrets = [],
     sb_Policy = [], sb_Ports = [], sb_StartedAt = 0, sb_RunStartedAt = 0, sb_CreatedAt = 0 \<rparr>"

record snapshot =
  sn_ID :: string
  sn_Name :: string
  sn_Source :: string
  sn_SourceName :: string
  sn_Image :: string
  sn_Digest :: string
  sn_Provider :: string
  sn_DiskMiB :: int
  sn_MemoryMiB :: int
  sn_Size :: int
  sn_CreatedAt :: time

subsection \<open>What a substrate says\<close>

record status =
  st_Exists :: bool
  st_State :: state
  st_PID :: int
  st_OOMKilled :: bool
  st_Reason :: string
  st_SupervisorFailed :: string
  st_Unstarted :: bool

definition Alive :: "status \<Rightarrow> bool" where
  "Alive s = (st_Exists s \<and> st_State s \<noteq> StateStopped)"

end
