(* ===== verification/FileStore.thy ===== *)
theory FileStore
  imports Prelude "HOL-Library.AList" "HOL-Library.List_Lexorder"
begin

text \<open>
  \<open>pkg/store/atomic.go\<close>: a file is written beside its place and renamed over it. A directory is an
  association list from names to nodes. Its files hold values: what a reader decodes from the bytes,
  so two files with the same value are not told apart, and \<^term>\<open>Partial\<close> is a file that
  is not yet written whole. The system calls that may fail are the steps of the operation, and the
  argument \<open>fault\<close> says which of them does.
\<close>

datatype 'b node = File 'b | Partial | Directory

type_synonym 'b dir = "(string \<times> 'b node) list"

datatype write_step =
    CreateTemp | WriteData | ChmodTemp | SyncTemp | CloseTemp | RenameTemp | OpenDir | FsyncDir

subsection \<open>WriteFile, call by call\<close>

text \<open>\<open>writeAndSync\<close>: the directories a reader may see after each call, in order, and the call that
  failed. A write that fails leaves part of the data in the file.\<close>

definition writeAndSync ::
  "write_step option \<Rightarrow> string \<Rightarrow> 'b \<Rightarrow> 'b dir \<Rightarrow> 'b dir list \<times> write_step option" where
  "writeAndSync fault tmp data d =
     (if fault = Some WriteData then ([AList.update tmp Partial d], Some WriteData)
      else let d1 = AList.update tmp (File data) d in
        if fault = Some ChmodTemp then ([d1], Some ChmodTemp)
        else if fault = Some SyncTemp then ([d1], Some SyncTemp)
        else ([d1], None))"

text \<open>\<open>WriteFile\<close>: the deferred \<open>os.Remove\<close> of the temporary name runs on every return past its
  creation, and nothing reads its error: \<open>stuck\<close> says that it fails. After the rename it finds no such
  name. A rename over a directory is refused by the system.\<close>

definition drop_temp :: "bool \<Rightarrow> string \<Rightarrow> 'b dir \<Rightarrow> 'b dir" where
  "drop_temp stuck tmp d = (if stuck then d else AList.delete tmp d)"

definition WriteFile ::
  "write_step option \<Rightarrow> bool \<Rightarrow> string \<Rightarrow> string \<Rightarrow> 'b \<Rightarrow> 'b dir \<Rightarrow> 'b dir list \<times> write_step option" where
  "WriteFile fault stuck tmp path data d =
     (if fault = Some CreateTemp then ([d], Some CreateTemp)
      else let d0 = AList.update tmp Partial d in
        case writeAndSync fault tmp data d0 of
          (seen, Some e) \<Rightarrow> (d0 # seen @ [drop_temp stuck tmp (last seen)], Some e)
        | (seen, None) \<Rightarrow>
            let d1 = last seen in
            if fault = Some CloseTemp then (d0 # seen @ [drop_temp stuck tmp d1], Some CloseTemp)
            else if fault = Some RenameTemp \<or> map_of d1 path = Some Directory
            then (d0 # seen @ [drop_temp stuck tmp d1], Some RenameTemp)
            else let d2 = AList.delete tmp (AList.update path (File data) d1) in
              if fault = Some OpenDir then (d0 # seen @ [d2], Some OpenDir)
              else if fault = Some FsyncDir then (d0 # seen @ [d2], Some FsyncDir)
              else (d0 # seen @ [d2], None))"

subsection \<open>What it comes to\<close>

text \<open>The contract the callers rely on: the calls up to the rename change nothing, and the ones past
  it have landed the file. The temporary name is left out: a removal of it that fails leaves a file
  under a name no caller reads or lists.\<close>

definition lands :: "write_step option \<Rightarrow> string \<Rightarrow> 'b dir \<Rightarrow> bool" where
  "lands fault path d =
     (fault \<notin> Some ` {CreateTemp, WriteData, ChmodTemp, SyncTemp, CloseTemp, RenameTemp}
      \<and> map_of d path \<noteq> Some Directory)"

definition write_error :: "write_step option \<Rightarrow> string \<Rightarrow> 'b dir \<Rightarrow> write_step option" where
  "write_error fault path d =
     (if fault = None \<and> map_of d path = Some Directory then Some RenameTemp
      else if fault \<in> Some ` {OpenDir, FsyncDir} \<and> map_of d path = Some Directory then Some RenameTemp
      else fault)"

definition write_file ::
  "write_step option \<Rightarrow> string \<Rightarrow> 'b \<Rightarrow> 'b dir \<Rightarrow> 'b dir \<times> write_step option" where
  "write_file fault path data d =
     (if lands fault path d then AList.update path (File data) d else d, write_error fault path d)"

lemma delete_update_fresh: "k \<notin> fst ` set d \<Longrightarrow> AList.delete k (AList.update k v d) = d"
  by (simp add: delete_update delete_notin_dom)
     (induction d, auto simp: AList.delete_eq)

lemma update_update: "AList.update k w (AList.update k v d) = AList.update k w d"
  by (induction d) auto

lemma delete_update_fresh_other:
  "k \<notin> fst ` set d \<Longrightarrow> p \<noteq> k \<Longrightarrow> AList.delete k (AList.update p w (AList.update k v d)) = AList.update p w d"
  by (induction d) (auto simp: AList.delete_eq delete_update_fresh [unfolded AList.delete_eq] split: if_splits)

lemma delete_fresh_update_Cons [simp]: "AList.update k v d \<noteq> []"
  by (cases d) auto

lemma fault_cases:
  obtains "fault = None" | "fault = Some CreateTemp" | "fault = Some WriteData"
  | "fault = Some ChmodTemp" | "fault = Some SyncTemp" | "fault = Some CloseTemp"
  | "fault = Some RenameTemp" | "fault = Some OpenDir" | "fault = Some FsyncDir"
  by (cases fault) (auto intro: write_step.exhaust)

lemma WriteFile_refines:
  assumes "tmp \<notin> fst ` set d" "tmp \<noteq> path"
  shows "AList.delete tmp (last (fst (WriteFile fault stuck tmp path data d))) = fst (write_file fault path data d)"
    and "\<not> stuck \<or> lands fault path d \<Longrightarrow> last (fst (WriteFile fault stuck tmp path data d)) = fst (write_file fault path data d)"
    and "snd (WriteFile fault stuck tmp path data d) = snd (write_file fault path data d)"
proof -
  have [simp]: "map_of d tmp = None" using assms(1) by (simp add: map_of_eq_None_iff)
  have [simp]: "AList.delete tmp d = d" using assms(1) by (simp add: delete_notin_dom)
  have [simp]: "AList.delete tmp (AList.update path v d) = AList.update path v d" for v
    using assms by (simp add: dom_update delete_notin_dom)
  show "AList.delete tmp (last (fst (WriteFile fault stuck tmp path data d))) = fst (write_file fault path data d)"
    using assms
    by (cases fault rule: fault_cases)
      (simp_all add: WriteFile_def writeAndSync_def write_file_def lands_def drop_temp_def Let_def update_update
        delete_update_fresh delete_update_fresh_other update_conv')
  show "last (fst (WriteFile fault stuck tmp path data d)) = fst (write_file fault path data d)" if "\<not> stuck \<or> lands fault path d"
    using assms that
    by (cases fault rule: fault_cases)
      (auto simp: WriteFile_def writeAndSync_def write_file_def lands_def drop_temp_def Let_def update_update
        delete_update_fresh delete_update_fresh_other update_conv')
  show "snd (WriteFile fault stuck tmp path data d) = snd (write_file fault path data d)"
    using assms
    by (cases fault rule: fault_cases)
      (simp_all add: WriteFile_def writeAndSync_def write_file_def write_error_def Let_def update_update
        update_conv')
qed

lemma WriteFile_readers:
  assumes "tmp \<noteq> p" "seen \<in> set (fst (WriteFile fault stuck tmp path data d))" "tmp \<noteq> path"
  shows "map_of seen p = map_of d p \<or> p = path \<and> map_of seen p = Some (File data)"
  using assms
  by (cases fault rule: fault_cases)
    (auto simp: WriteFile_def writeAndSync_def drop_temp_def Let_def update_update update_conv' delete_conv'
      split: if_splits)

lemma map_of_write_file:
  "map_of (fst (write_file fault path data d)) p =
     (if p = path \<and> lands fault path d then Some (File data) else map_of d p)"
  by (simp add: write_file_def update_conv')

lemma write_file_landed: "snd (write_file fault path data d) = None \<Longrightarrow> lands fault path d"
  by (auto simp: write_file_def write_error_def lands_def split: if_splits)

lemma distinct_write_file:
  "distinct (map fst d) \<Longrightarrow> distinct (map fst (fst (write_file fault path data d)))"
  by (simp add: write_file_def distinct_update)

subsection \<open>os.Remove and the sync after it\<close>

datatype remove_step = RemoveEntry | SyncAfter

definition remove_file :: "remove_step option \<Rightarrow> string \<Rightarrow> 'b dir \<Rightarrow> 'b dir \<times> remove_step option" where
  "remove_file fault path d =
     (if fault = Some RemoveEntry then (d, Some RemoveEntry) else (AList.delete path d, fault))"

lemma map_of_remove_file:
  "map_of (fst (remove_file fault path d)) p =
     (if p = path \<and> fault \<noteq> Some RemoveEntry then None else map_of d p)"
  by (auto simp: remove_file_def delete_conv')

lemma distinct_remove_file:
  "distinct (map fst d) \<Longrightarrow> distinct (map fst (fst (remove_file fault path d)))"
  by (simp add: remove_file_def distinct_delete)

subsection \<open>A store of one file per key\<close>

text \<open>
  What every store over such a directory promises its callers: a put that returns no error is what
  the next read of its key returns, in its normal form; one that returns an error left the old value
  or the new one; a removal without an error leaves nothing and one with an error leaves the old value
  or nothing; and no operation touches another key.
\<close>

datatype ('f, 'g, 'k, 'v) store_op = Put 'f 'v | Del 'g 'k

locale keyed_store =
  fixes get :: "'k \<Rightarrow> 's \<Rightarrow> 'e + 'v"
    and put :: "'f \<Rightarrow> 'v \<Rightarrow> 's \<Rightarrow> 's \<times> 'e option"
    and del :: "'g \<Rightarrow> 'k \<Rightarrow> 's \<Rightarrow> 's \<times> 'e option"
    and key :: "'v \<Rightarrow> 'k"
    and norm :: "'v \<Rightarrow> 'v"
    and absent :: 'e
  assumes put_get: "put f v s = (s', None) \<Longrightarrow> get (key v) s' = Inr (norm v)"
    and put_err: "put f v s = (s', Some e) \<Longrightarrow> get (key v) s' = get (key v) s \<or> get (key v) s' = Inr (norm v)"
    and put_other: "k \<noteq> key v \<Longrightarrow> get k (fst (put f v s)) = get k s"
    and del_get: "del g k s = (s', None) \<Longrightarrow> get k s' = Inl absent"
    and del_err: "del g k s = (s', Some e) \<Longrightarrow> get k s' = get k s \<or> get k s' = Inl absent"
    and del_other: "k' \<noteq> k \<Longrightarrow> get k' (fst (del g k s)) = get k' s"
begin

fun apply_op :: "('f, 'g, 'k, 'v) store_op \<Rightarrow> 's \<Rightarrow> 's \<times> 'e option" where
  "apply_op (Put f v) s = put f v s"
| "apply_op (Del g k) s = del g k s"

fun touches :: "('f, 'g, 'k, 'v) store_op \<Rightarrow> 'k" where
  "touches (Put f v) = key v"
| "touches (Del g k) = k"

definition run_ops :: "('f, 'g, 'k, 'v) store_op list \<Rightarrow> 's \<Rightarrow> 's" where
  "run_ops ops s = fold (\<lambda>op s. fst (apply_op op s)) ops s"

lemma run_ops_Nil [simp]: "run_ops [] s = s"
  by (simp add: run_ops_def)

lemma run_ops_Cons [simp]: "run_ops (op # ops) s = run_ops ops (fst (apply_op op s))"
  by (simp add: run_ops_def)

lemma run_other: "(\<And>op. op \<in> set ops \<Longrightarrow> touches op \<noteq> k) \<Longrightarrow> get k (run_ops ops s) = get k s"
proof (induction ops arbitrary: s)
  case (Cons op ops)
  have "get k (fst (apply_op op s)) = get k s"
    using Cons.prems [of op] by (cases op) (auto simp: put_other del_other)
  then show ?case using Cons by simp
qed simp

text \<open>What a caller may find under a key after it saw the errors of a sequence of operations: a put or a removal
  without an error leaves one answer, and one with an error adds its own to those from before.\<close>

fun outcomes :: "'k \<Rightarrow> ('f, 'g, 'k, 'v) store_op list \<Rightarrow> 's \<Rightarrow> ('e + 'v) set \<Rightarrow> ('e + 'v) set" where
  "outcomes k [] s V = V"
| "outcomes k (op # ops) s V =
     outcomes k ops (fst (apply_op op s))
       (if touches op \<noteq> k then V
        else let r = (case op of Put f v \<Rightarrow> Inr (norm v) | Del g j \<Rightarrow> Inl absent) in
          if snd (apply_op op s) = None then {r} else insert r V)"

lemma apply_outcome:
  assumes "touches op = k"
  shows "snd (apply_op op s) = None \<Longrightarrow> get k (fst (apply_op op s)) = (case op of Put f v \<Rightarrow> Inr (norm v) | Del g j \<Rightarrow> Inl absent)"
    and "get k (fst (apply_op op s)) \<in> {get k s, case op of Put f v \<Rightarrow> Inr (norm v) | Del g j \<Rightarrow> Inl absent}"
proof -
  have ok: "get k (fst (apply_op op s)) = (case op of Put f v \<Rightarrow> Inr (norm v) | Del g j \<Rightarrow> Inl absent)"
    if "snd (apply_op op s) = None"
    using assms that by (cases op) (auto simp: put_get del_get prod_eq_iff)
  show "get k (fst (apply_op op s)) \<in> {get k s, case op of Put f v \<Rightarrow> Inr (norm v) | Del g j \<Rightarrow> Inl absent}"
  proof (cases "snd (apply_op op s)")
    case (Some e)
    then show ?thesis
      using assms put_err [of _ _ s "fst (apply_op op s)" e] del_err [of _ _ s "fst (apply_op op s)" e]
      by (cases op) (auto simp: prod_eq_iff)
  qed (simp add: ok)
qed (use assms in \<open>cases op; auto simp: put_get del_get prod_eq_iff\<close>)

lemma run_outcomes: "get k s \<in> V \<Longrightarrow> get k (run_ops ops s) \<in> outcomes k ops s V"
proof (induction ops arbitrary: s V)
  case (Cons op ops)
  show ?case
  proof (cases "touches op = k")
    case True
    then show ?thesis using Cons apply_outcome [OF True, of s] by (auto simp: Let_def)
  next
    case False
    then have "get k (fst (apply_op op s)) = get k s" using run_other [of "[op]" k s] by simp
    then show ?thesis using Cons False by simp
  qed
qed simp

end

text \<open>C9: a reader of the directory never sees a partial file. At every moment of \<open>WriteFile\<close>,
  whichever of its system calls fails, the removal of the temporary file included, every name but the
  temporary one holds what it held before, or, at the path, the new data whole. When it returns, the
  path holds the data if it returned no error, an error before the rename changed no name but the
  temporary one, and the temporary file is left behind only if its removal failed before the rename.\<close>

theorem WriteFile_atomic:
  assumes "tmp \<notin> fst ` set d" "tmp \<noteq> path" "WriteFile fault stuck tmp path data d = (states, err)"
  shows "(\<forall>seen \<in> set states. \<forall>p. p \<noteq> tmp \<longrightarrow>
           map_of seen p = map_of d p \<or> p = path \<and> map_of seen p = Some (File data))
    \<and> AList.delete tmp (last states) \<in> {d, AList.update path (File data) d}
    \<and> (err = None \<longrightarrow> last states = AList.update path (File data) d)
    \<and> (err \<in> Some ` {CreateTemp, WriteData, ChmodTemp, SyncTemp, CloseTemp, RenameTemp} \<longrightarrow>
         AList.delete tmp (last states) = d \<and> (\<not> stuck \<longrightarrow> last states = d))
    \<and> (err \<in> Some ` {OpenDir, FsyncDir} \<longrightarrow> last states = AList.update path (File data) d)"
proof -
  have "AList.delete tmp (last states) = fst (write_file fault path data d)" "err = snd (write_file fault path data d)"
    "\<not> stuck \<or> lands fault path d \<longrightarrow> last states = fst (write_file fault path data d)"
    using WriteFile_refines [OF assms(1,2), where fault = fault and stuck = stuck and data = data] assms(3) by simp_all
  moreover have "map_of seen p = map_of d p \<or> p = path \<and> map_of seen p = Some (File data)"
    if "seen \<in> set states" "p \<noteq> tmp" for seen p
    using WriteFile_readers [of tmp p seen fault stuck path data d] that assms by simp
  ultimately show ?thesis
    by (auto simp: write_file_def lands_def write_error_def split: if_splits)
qed

text \<open>The witness: a failed sync of a write over an existing record, whose temporary file cannot be removed.\<close>

theorem WriteFile_atomic_witness:
  "AList.delete ''.a.tmp'' (last (fst (WriteFile (Some SyncTemp) True ''.a.tmp'' ''a'' (2::int) [(''a'', File 1), (''b'', File 7)])))
     = [(''a'', File 1), (''b'', File 7)]"
proof -
  let ?d = "[(''a'', File 1), (''b'', File 7)] :: int dir"
  have "WriteFile (Some SyncTemp) True ''.a.tmp'' ''a'' 2 ?d =
      ([?d @ [(''.a.tmp'', Partial)], ?d @ [(''.a.tmp'', File 2)], ?d @ [(''.a.tmp'', File 2)]], Some SyncTemp)"
    by (simp add: WriteFile_def writeAndSync_def drop_temp_def)
  from WriteFile_atomic [OF _ _ this] show ?thesis
    unfolding \<open>WriteFile (Some SyncTemp) True ''.a.tmp'' ''a'' 2 ?d = _\<close> by simp
qed

end
