(* ===== verification/Policy.thy ===== *)
theory Policy
  imports Models FileStore
begin

text \<open>
  \<open>services/egress/policy.go\<close>: what a policy may say, the command line's spelling of a rule and its
  parser, and the store that keeps one file per policy. The named destinations come from
  \<open>services/network/egress.go\<close>. The printer \<open>FormatRule\<close> is in \<open>services/egress/decide.go\<close>.
\<close>

datatype rule_error =
    BadAction | BadProtocol | PortsNeedProtocol | PortOutOfRange | TooManyPorts
  | NotAddressOrPrefix | NotIPv4 | UnknownGroup | DNSNotAllow
  | BadHost host_error | SuffixWildcard | NameNotTCP | NameNoPort | NameNotWeb | UnknownKind
  | NotARule | PrivateDestination | OldSyntax | PortNotNumber | RangeTooWide | RangeBackwards

datatype policy_error =
    NameEmpty | NameTooLong | NameShape | TooManyRules | BadRule nat rule_error
  | PolicyNotFound | PolicyUnreadable | PolicyUndecodable | PolicyWrite write_step
  | PolicyRemove remove_step

definition maxRules :: nat where
  "maxRules = 256"

definition maxPorts :: nat where
  "maxPorts = 1024"

definition webPorts :: "int list" where
  "webPorts = [80, 443]"

definition GroupAny :: string where
  "GroupAny = ''any''"

definition GroupDNS :: string where
  "GroupDNS = ''dns''"

text \<open>\<open>network.Groups\<close>: the group dns names no prefix, and a group the map does not hold is \<^term>\<open>None\<close>.\<close>

definition Groups :: "string \<Rightarrow> prefix list option" where
  "Groups g = (if g = ''any'' then Some [Prefix (V4 0) (Some 0)] else if g = ''dns'' then Some [] else None)"

subsection \<open>Names and destinations\<close>

definition named :: "dest_kind \<Rightarrow> bool" where
  "named k = (k = DestinationDomain \<or> k = DestinationDomainSuffix)"

definition canonicalHost :: "destination \<Rightarrow> destination" where
  "canonicalHost dest =
     (if named (dst_Kind dest) then dest\<lparr>dst_Value := CanonicalHost (dst_Value dest)\<rparr> else dest)"

definition parseCIDR :: "string \<Rightarrow> rule_error + prefix" where
  "parseCIDR value =
     (case (case ParsePrefix value of
              Some p \<Rightarrow> Some p
            | None \<Rightarrow> map_option (\<lambda>a. PrefixFrom a (int (BitLen a))) (ParseAddr value)) of
        None \<Rightarrow> Inl NotAddressOrPrefix
      | Some p \<Rightarrow> if \<not> Is4 (pfx_addr p) then Inl NotIPv4 else Inr (Masked p))"

definition host_check :: "string \<Rightarrow> rule_error + unit" where
  "host_check value = (case validDestination value of Inl e \<Rightarrow> Inl (BadHost e) | Inr _ \<Rightarrow> Inr ())"

definition validHostValue :: "destination \<Rightarrow> rule_error + unit" where
  "validHostValue dest =
     (if \<not> Contains (dst_Value dest) ''*'' then host_check (dst_Value dest)
      else if dst_Kind dest = DestinationDomainSuffix then Inl SuffixWildcard
      else if dst_Value dest = ''*'' then Inr ()
      else host_check (dst_Value dest))"

definition validRuleDestination :: "rule \<Rightarrow> rule_error + unit" where
  "validRuleDestination r =
     (let dest = rule_Destination r in
      case dst_Kind dest of
        DestinationCIDR \<Rightarrow> (case parseCIDR (dst_Value dest) of Inl e \<Rightarrow> Inl e | Inr _ \<Rightarrow> Inr ())
      | DestinationGroup \<Rightarrow>
          if Groups (dst_Value dest) = None then Inl UnknownGroup
          else if dst_Value dest = GroupDNS \<and> rule_Action r \<noteq> ActionAllow then Inl DNSNotAllow
          else Inr ()
      | DestinationOther s \<Rightarrow> Inl UnknownKind
      | _ \<Rightarrow>
          (case validHostValue dest of
             Inl e \<Rightarrow> Inl e
           | Inr _ \<Rightarrow>
               if rule_Protocol r \<noteq> ''tcp'' then Inl NameNotTCP
               else if rule_Ports r = [] then Inl NameNoPort
               else if \<not> list_all (\<lambda>p. p \<in> set webPorts) (rule_Ports r) then Inl NameNotWeb
               else Inr ()))"

definition validRule :: "rule \<Rightarrow> rule_error + unit" where
  "validRule r =
     (if rule_Action r \<noteq> ActionAllow \<and> rule_Action r \<noteq> ActionDeny then Inl BadAction
      else if rule_Protocol r \<notin> {[], ''tcp'', ''udp''} then Inl BadProtocol
      else if rule_Protocol r = [] \<and> rule_Ports r \<noteq> [] then Inl PortsNeedProtocol
      else if \<not> list_all (\<lambda>p. 1 \<le> p \<and> p \<le> 65535) (rule_Ports r) then Inl PortOutOfRange
      else if length (rule_Ports r) > maxPorts then Inl TooManyPorts
      else validRuleDestination r)"

definition name_char :: "char \<Rightarrow> bool" where
  "name_char c = (is_lower c \<or> is_digit c)"

definition ValidName :: "string \<Rightarrow> policy_error + unit" where
  "ValidName name =
     (if name = [] then Inl NameEmpty
      else if length name > 64 then Inl NameTooLong
      else if \<not> (name_char (hd name) \<and> list_all (\<lambda>c. name_char c \<or> c = CHR ''-'') (tl name))
      then Inl NameShape
      else Inr ())"

definition Validate :: "policy \<Rightarrow> policy_error + unit" where
  "Validate p =
     (case ValidName (pol_Name p) of
        Inl e \<Rightarrow> Inl e
      | Inr _ \<Rightarrow>
          if length (pol_Rules p) > maxRules then Inl TooManyRules
          else check_all (\<lambda>i r. case validRule r of Inl e \<Rightarrow> Inl (BadRule i e) | Inr _ \<Rightarrow> Inr ())
                 1 (pol_Rules p))"

subsection \<open>The command line's spelling\<close>

definition parsePort :: "string \<Rightarrow> rule_error + int" where
  "parsePort text =
     (case Atoi text of
        None \<Rightarrow> Inl PortNotNumber
      | Some n \<Rightarrow> if n < 1 \<or> n > 65535 then Inl PortOutOfRange else Inr n)"

definition portRange :: "string \<Rightarrow> rule_error + int \<times> int" where
  "portRange part =
     (let (first, last0, isRange) = Cut part (CHR ''-'');
          last = (if isRange then last0 else first)
      in case parsePort first of
           Inl e \<Rightarrow> Inl e
         | Inr from \<Rightarrow>
             (case parsePort last of
                Inl e \<Rightarrow> Inl e
              | Inr to \<Rightarrow> if to < from then Inl RangeBackwards else Inr (from, to)))"

text \<open>The loop of \<open>parsePorts\<close>: what it has named so far, and the ports it has appended.\<close>

fun parsePorts_loop :: "int \<Rightarrow> int list \<Rightarrow> string list \<Rightarrow> rule_error + int list" where
  "parsePorts_loop cnt ports [] = Inr ports"
| "parsePorts_loop cnt ports (part # parts) =
     (case portRange part of
        Inl e \<Rightarrow> Inl e
      | Inr (from, to) \<Rightarrow>
          if to - from + 1 > int maxPorts then Inl RangeTooWide
          else if cnt + (to - from + 1) > int maxPorts then Inl TooManyPorts
          else parsePorts_loop (cnt + (to - from + 1)) (ports @ [from .. to]) parts)"

definition parsePorts :: "string \<Rightarrow> rule_error + int list" where
  "parsePorts text =
     (if text = [] then Inr []
      else case parsePorts_loop 0 [] (Split text (CHR '','')) of
        Inl e \<Rightarrow> Inl e
      | Inr ports \<Rightarrow> Inr (remdups_adj (sort ports)))"

definition parseDestination :: "string \<Rightarrow> rule_error + destination" where
  "parseDestination text =
     (if text = GroupAny \<or> text = GroupDNS
      then Inr \<lparr>dst_Kind = DestinationGroup, dst_Value = text\<rparr>
      else if text = ''private'' \<or> text = ''group:private'' then Inl PrivateDestination
      else if ParseAddr text \<noteq> None then Inr \<lparr>dst_Kind = DestinationCIDR, dst_Value = text\<rparr>
      else if ParsePrefix text \<noteq> None then Inr \<lparr>dst_Kind = DestinationCIDR, dst_Value = text\<rparr>
      else case CutPrefix text ''suffix:'' of
        Some value \<Rightarrow> Inr \<lparr>dst_Kind = DestinationDomainSuffix, dst_Value = value\<rparr>
      | None \<Rightarrow>
          (case Cut text (CHR '':'') of
             (kind, _, found) \<Rightarrow>
               if found \<and> kind \<in> {''cidr'', ''domain'', ''domain-suffix'', ''group''} then Inl OldSyntax
               else Inr \<lparr>dst_Kind = DestinationDomain, dst_Value = text\<rparr>))"

text \<open>The part of \<open>ParseRule\<close> after both words are read: the defaults of a name rule, the check, and the
  canonical host.\<close>

definition rule_of_parts :: "action \<Rightarrow> destination \<Rightarrow> string \<Rightarrow> int list \<Rightarrow> rule_error + rule" where
  "rule_of_parts act dest proto ports =
     (let proto1 = (if named (dst_Kind dest) \<and> proto = [] then ''tcp'' else proto);
          ports1 = (if named (dst_Kind dest) \<and> proto1 = ''tcp'' \<and> ports = [] then webPorts else ports);
          r = \<lparr>rule_Action = act, rule_Destination = dest, rule_Protocol = proto1, rule_Ports = ports1\<rparr>
      in case validRule r of
           Inl e \<Rightarrow> Inl e
         | Inr _ \<Rightarrow> Inr (r\<lparr>rule_Destination := canonicalHost dest\<rparr>))"

definition ParseRule :: "action \<Rightarrow> string \<Rightarrow> rule_error + rule" where
  "ParseRule act text =
     (case Fields text of
        [dest] \<Rightarrow> (case parseDestination dest of Inl e \<Rightarrow> Inl e | Inr d \<Rightarrow> rule_of_parts act d [] [])
      | [dest, rest] \<Rightarrow>
          (case parseDestination dest of
             Inl e \<Rightarrow> Inl e
           | Inr d \<Rightarrow>
               (case Cut rest (CHR '':'') of
                  (proto, ports, _) \<Rightarrow>
                    (case parsePorts ports of Inl e \<Rightarrow> Inl e | Inr ps \<Rightarrow> rule_of_parts act d proto ps)))
      | _ \<Rightarrow> Inl NotARule)"

text \<open>\<open>FormatRule\<close>, and the part of it past the action, which is what \<open>ParseRule\<close> reads.\<close>

definition action_text :: "action \<Rightarrow> string" where
  "action_text a = (case a of ActionAllow \<Rightarrow> ''allow'' | ActionDeny \<Rightarrow> ''deny'' | ActionOther s \<Rightarrow> s)"

definition rule_text :: "rule \<Rightarrow> string" where
  "rule_text r =
     (let dest = (if dst_Kind (rule_Destination r) = DestinationDomainSuffix
                  then ''suffix:'' @ dst_Value (rule_Destination r) else dst_Value (rule_Destination r))
      in if rule_Protocol r = [] then dest
         else if rule_Ports r = [] then dest @ '' '' @ rule_Protocol r
         else dest @ '' '' @ rule_Protocol r @ '':'' @ Join (map Itoa (rule_Ports r)) '','')"

definition FormatRule :: "rule \<Rightarrow> string" where
  "FormatRule r = action_text (rule_Action r) @ '' '' @ rule_text r"

subsection \<open>The store\<close>

text \<open>One file per policy, \<open>name.json\<close>. A file holds the policy its JSON decodes to, or \<^term>\<open>None\<close>
  when it decodes to none; a directory in its place cannot be read.\<close>

type_synonym policy_dir = "policy option dir"

definition policy_path :: "string \<Rightarrow> string" where
  "policy_path name = name @ ''.json''"

definition canonical_policy :: "policy \<Rightarrow> policy" where
  "canonical_policy p =
     p\<lparr>pol_Rules := map (\<lambda>r. r\<lparr>rule_Destination := canonicalHost (rule_Destination r)\<rparr>) (pol_Rules p)\<rparr>"

definition policy_Set :: "write_step option \<Rightarrow> policy \<Rightarrow> policy_dir \<Rightarrow> policy_dir \<times> policy_error option" where
  "policy_Set fault p d =
     (case Validate p of
        Inl e \<Rightarrow> (d, Some e)
      | Inr _ \<Rightarrow> (case write_file fault (policy_path (pol_Name p)) (Some p) d of
                   (d', e) \<Rightarrow> (d', map_option PolicyWrite e)))"

definition policy_Get :: "string \<Rightarrow> policy_dir \<Rightarrow> policy_error + policy" where
  "policy_Get name d =
     (case ValidName name of
        Inl e \<Rightarrow> Inl e
      | Inr _ \<Rightarrow>
          (case map_of d (policy_path name) of
             None \<Rightarrow> Inl PolicyNotFound
           | Some (File (Some p)) \<Rightarrow>
               (let p1 = p\<lparr>pol_Name := name\<rparr> in
                case Validate p1 of Inl e \<Rightarrow> Inl e | Inr _ \<Rightarrow> Inr (canonical_policy p1))
           | Some Directory \<Rightarrow> Inl PolicyUnreadable
           | Some _ \<Rightarrow> Inl PolicyUndecodable))"

text \<open>\<open>List\<close>: the names the directory holds, in the order \<open>os.ReadDir\<close> gives them; the first policy
  that does not read ends it.\<close>

fun policy_names :: "policy_dir \<Rightarrow> string list \<Rightarrow> string list" where
  "policy_names d [] = []"
| "policy_names d (entry # entries) =
     (case CutSuffix entry ''.json'' of
        None \<Rightarrow> policy_names d entries
      | Some name \<Rightarrow>
          if map_of d entry = Some Directory \<or> \<not> is_ok (ValidName name) then policy_names d entries
          else name # policy_names d entries)"

fun get_all :: "policy_dir \<Rightarrow> string list \<Rightarrow> policy_error + policy list" where
  "get_all d [] = Inr []"
| "get_all d (name # names) =
     (case policy_Get name d of
        Inl e \<Rightarrow> Inl e
      | Inr p \<Rightarrow> (case get_all d names of Inl e \<Rightarrow> Inl e | Inr ps \<Rightarrow> Inr (p # ps)))"

definition policy_List :: "policy_dir \<Rightarrow> policy_error + policy list" where
  "policy_List d =
     (case get_all d (policy_names d (sort (map fst d))) of
        Inl e \<Rightarrow> Inl e
      | Inr ps \<Rightarrow> Inr (sort_key pol_Name ps))"

definition policy_Remove :: "remove_step option \<Rightarrow> string \<Rightarrow> policy_dir \<Rightarrow> policy_dir \<times> policy_error option" where
  "policy_Remove fault name d =
     (case ValidName name of
        Inl e \<Rightarrow> (d, Some e)
      | Inr _ \<Rightarrow> (case remove_file fault (policy_path name) d of
                   (d', e) \<Rightarrow> (d', map_option PolicyRemove e)))"

subsection \<open>Ports\<close>

lemma strict_sorted_remdups_adj_sort: "sorted_wrt (<) (remdups_adj (sort (xs :: 'a::linorder list)))"
proof -
  have "sorted_wrt (<) (remdups_adj ys)" if "sorted ys" for ys :: "'a list"
    using that
  proof (induction ys rule: remdups_adj.induct)
    case (3 x y xs)
    then show ?case
    proof (cases "x = y")
      case False
      then have "x < y" using 3 by auto
      moreover have "\<forall>z \<in> set (y # xs). y \<le> z" using 3 by auto
      ultimately show ?thesis using 3 False by (auto dest: less_le_trans)
    qed auto
  qed auto
  then show ?thesis by simp
qed

lemma parsePorts_sorted: "parsePorts text = Inr ps \<Longrightarrow> sorted_wrt (<) ps"
  by (auto simp: parsePorts_def strict_sorted_remdups_adj_sort split: if_splits sum.splits)

lemma portRange_bounds: "portRange part = Inr (a, b) \<Longrightarrow> 1 \<le> a \<and> a \<le> b \<and> b \<le> 65535"
  by (auto simp: portRange_def parsePort_def Let_def split: prod.splits sum.splits option.splits if_splits)

lemma parsePorts_loop_bounds:
  "parsePorts_loop cnt ports parts = Inr ps \<Longrightarrow> cnt = int (length ports) \<Longrightarrow> length ports \<le> maxPorts
   \<Longrightarrow> (\<forall>p \<in> set ports. 1 \<le> p \<and> p \<le> 65535)
   \<Longrightarrow> length ps \<le> maxPorts \<and> (\<forall>p \<in> set ps. 1 \<le> p \<and> p \<le> 65535)"
proof (induction cnt ports parts rule: parsePorts_loop.induct)
  case (2 cnt ports part parts)
  then obtain a b where ab: "portRange part = Inr (a, b)"
    by (cases "portRange part") auto
  note bounds = portRange_bounds [OF ab]
  have rec: "parsePorts_loop (cnt + (b - a + 1)) (ports @ [a..b]) parts = Inr ps"
    and wide: "\<not> int maxPorts < b - a + 1" "\<not> int maxPorts < cnt + (b - a + 1)"
    using 2(2) ab by (auto split: if_splits)
  have "length ps \<le> maxPorts \<and> (\<forall>p \<in> set ps. 1 \<le> p \<and> p \<le> 65535)"
    by (rule 2(1) [OF ab refl wide rec]) (use 2(3-5) bounds wide in auto)
  then show ?case .
qed auto

lemma Itoa_nat: "0 \<le> p \<Longrightarrow> Itoa p = itoa_nat (nat p)"
  by (simp add: Itoa_def)

lemma Itoa_chars: "0 \<le> p \<Longrightarrow> list_all is_digit (Itoa p)"
  by (simp add: Itoa_nat itoa_nat_digits)

lemma portRange_Itoa: "1 \<le> p \<Longrightarrow> p \<le> 65535 \<Longrightarrow> portRange (Itoa p) = Inr (p, p)"
proof -
  assume p: "1 \<le> p" "p \<le> 65535"
  then have "CHR ''-'' \<notin> set (Itoa p)"
    using Itoa_chars [of p] by (auto simp: list_all_iff is_digit_def)
  moreover have "parsePort (Itoa p) = Inr p"
    using p Atoi_Itoa [of p] by (simp add: parsePort_def)
  ultimately show ?thesis by (simp add: portRange_def)
qed

lemma parsePorts_loop_Itoa:
  "\<forall>p \<in> set ps. 1 \<le> p \<and> p \<le> 65535 \<Longrightarrow> cnt + int (length ps) \<le> int maxPorts \<Longrightarrow> 0 \<le> cnt
   \<Longrightarrow> parsePorts_loop cnt acc (map Itoa ps) = Inr (acc @ ps)"
  by (induction ps arbitrary: cnt acc) (simp_all add: portRange_Itoa maxPorts_def)

lemma parsePorts_Itoa:
  assumes "ps \<noteq> []" "\<forall>p \<in> set ps. 1 \<le> p \<and> p \<le> 65535" "length ps \<le> maxPorts" "sorted_wrt (<) ps"
  shows "parsePorts (Join (map Itoa ps) '','') = Inr ps"
proof -
  have nocomma: "CHR '','' \<notin> set w" if w: "w \<in> set (map Itoa ps)" for w
  proof -
    obtain p where "w = Itoa p" "p \<in> set ps" using w by auto
    moreover from this have "0 \<le> p" using assms(2) by force
    ultimately show ?thesis using Itoa_chars [of p] by (auto simp: list_all_iff is_digit_def)
  qed
  have "Split (Join (map Itoa ps) '','') (CHR '','') = map Itoa ps"
    by (rule Split_Join) (use assms(1) nocomma in auto)
  moreover have "Join (map Itoa ps) '','' \<noteq> []"
    using assms(1) by (cases ps) (auto simp: Join_Cons Itoa_def)
  moreover have "remdups_adj (sort ps) = ps"
    using assms(4) by (simp add: strict_sorted_iff sorted_sort_id remdups_adj_distinct)
  ultimately show ?thesis
    using parsePorts_loop_Itoa [of ps 0 "[]"] assms by (simp add: parsePorts_def)
qed

subsection \<open>The texts of addresses\<close>

lemma ipv4_fields_chars: "ipv4_fields v d fs s = Some fs' \<Longrightarrow> c \<in> set s \<Longrightarrow> is_digit c \<or> c = CHR ''.''"
  by (induction v d fs s rule: ipv4_fields.induct) (auto split: if_splits)

lemma parse_ipv6_not4: "parse_ipv6 s = Some a \<Longrightarrow> \<not> Is4 a"
  by (auto simp: parse_ipv6_def Let_def split: prod.splits if_splits option.splits)

lemma parse_addr_kind_Is4: "parse_addr_kind s t = Some a \<Longrightarrow> Is4 a \<Longrightarrow> parse_ipv4 s = Some a"
  by (induction s t rule: parse_addr_kind.induct) (auto dest: parse_ipv6_not4 split: if_splits)

lemma ParseAddr_Is4_chars:
  assumes "ParseAddr s = Some a" "Is4 a" "c \<in> set s"
  shows "is_digit c \<or> c = CHR ''.''"
  using parse_addr_kind_Is4 [of s s a] assms ipv4_fields_chars
  by (fastforce simp: ParseAddr_def parse_ipv4_def)

lemma Atoi_digits: "Atoi s = Some n \<Longrightarrow> \<not> (1 < length s \<and> \<not> (CHR ''1'' \<le> hd s \<and> hd s \<le> CHR ''9''))
  \<Longrightarrow> c \<in> set s \<Longrightarrow> is_digit c"
proof -
  assume a: "Atoi s = Some n" "\<not> (1 < length s \<and> \<not> (CHR ''1'' \<le> hd s \<and> hd s \<le> CHR ''9''))" "c \<in> set s"
  have "s \<noteq> []" using a(3) by auto
  then have "hd s \<noteq> CHR ''-'' \<and> hd s \<noteq> CHR ''+''"
    using a(1,2) by (cases s; cases "tl s") (auto simp: Atoi_def parse_uint_def less_eq_char_def split: if_splits)
  then have "parse_uint s \<noteq> None"
    using a(1) by (auto simp: Atoi_def split: if_splits option.splits)
  then have "list_all is_digit s"
    by (auto simp: parse_uint_def dest: digits_value_Some_digits split: if_splits)
  then show "is_digit c" using a(3) by (simp add: list_all_iff)
qed

lemma last_cut_Some: "last_cut s c = Some (a, b) \<Longrightarrow> s = a @ c # b"
proof -
  assume "last_cut s c = Some (a, b)"
  then have "c \<in> set (rev s)" "rev b = takeWhile (\<lambda>x. x \<noteq> c) (rev s)" "rev a = tl (dropWhile (\<lambda>x. x \<noteq> c) (rev s))"
    by (auto simp: last_cut_def Cut_def split: if_splits)
  moreover from this have "dropWhile (\<lambda>x. x \<noteq> c) (rev s) = c # rev a"
    by (metis (mono_tags, lifting) dropWhile_eq_Nil_conv hd_dropWhile list.collapse)
  ultimately have "rev s = rev b @ c # rev a"
    using takeWhile_dropWhile_id [of "\<lambda>x. x \<noteq> c" "rev s"] by simp
  then show ?thesis by (metis append.assoc append_Cons append_Nil rev_append rev_rev_ident rev.simps(2))
qed

lemma withoutZone_Is4 [simp]: "Is4 (withoutZone a) = Is4 a"
  by (cases a) auto

lemma parseCIDR_chars:
  assumes "parseCIDR s = Inr p" "c \<in> set s"
  shows "is_digit c \<or> c = CHR ''.'' \<or> c = CHR ''/''"
proof (cases "ParsePrefix s")
  case None
  then obtain a where "ParseAddr s = Some a" "Is4 a"
    using assms(1) by (auto simp: parseCIDR_def PrefixFrom_def split: option.splits if_splits)
  then show ?thesis using ParseAddr_Is4_chars assms(2) by blast
next
  case (Some q)
  then have "Is4 (pfx_addr q)" using assms(1) by (auto simp: parseCIDR_def split: if_splits)
  from Some obtain a bits ip n where cut: "last_cut s (CHR ''/'') = Some (a, bits)" and ip: "ParseAddr a = Some ip"
    and bits: "\<not> (1 < length bits \<and> \<not> (CHR ''1'' \<le> hd bits \<and> hd bits \<le> CHR ''9''))" "Atoi bits = Some n"
    and q: "q = PrefixFrom ip n"
    by (auto simp: ParsePrefix_def split: option.splits if_splits)
  have "Is4 ip" using \<open>Is4 (pfx_addr q)\<close> q by (simp add: PrefixFrom_def)
  then show ?thesis
    using assms(2) last_cut_Some [OF cut] ParseAddr_Is4_chars [OF ip] Atoi_digits [OF bits(2,1)] by auto
qed

lemma parseCIDR_plain: "parseCIDR s = Inr p \<Longrightarrow> list_all is_plain s \<and> s \<noteq> []"
proof
  assume p: "parseCIDR s = Inr p"
  show "list_all is_plain s"
    using parseCIDR_chars [OF p] by (fastforce simp: list_all_iff char_class_defs)
  show "s \<noteq> []"
  proof
    assume "s = []"
    moreover have "parseCIDR [] = Inl NotAddressOrPrefix"
      by (simp add: parseCIDR_def ParsePrefix_def last_cut_def ParseAddr_def)
    ultimately show False using p by simp
  qed
qed

subsection \<open>Valid and canonical rules\<close>

lemma validRule_iff:
  "validRule r = Inr () \<longleftrightarrow>
     rule_Action r \<in> {ActionAllow, ActionDeny} \<and> rule_Protocol r \<in> {[], ''tcp'', ''udp''}
     \<and> (rule_Protocol r = [] \<longrightarrow> rule_Ports r = [])
     \<and> (\<forall>p \<in> set (rule_Ports r). 1 \<le> p \<and> p \<le> 65535) \<and> length (rule_Ports r) \<le> maxPorts
     \<and> validRuleDestination r = Inr ()"
  by (auto simp: validRule_def list_all_iff)

lemma host_check_ok: "host_check v = Inr () \<longleftrightarrow> plain_host (CanonicalHost v)"
proof (cases "validDestination v")
  case (Inl e)
  then show ?thesis using validDestination_Inr [of v "CanonicalHost v"] by (simp add: host_check_def)
next
  case (Inr h)
  then have "h = CanonicalHost v \<and> plain_host h" using validDestination_Inr [of v h] by blast
  then show ?thesis using Inr by (auto simp: host_check_def)
qed

definition dest_ok :: "rule \<Rightarrow> bool" where
  "dest_ok r = (let dest = rule_Destination r; v = dst_Value dest in
     case dst_Kind dest of
       DestinationCIDR \<Rightarrow> is_ok (parseCIDR v)
     | DestinationGroup \<Rightarrow> v = ''any'' \<or> v = ''dns'' \<and> rule_Action r = ActionAllow
     | DestinationOther s \<Rightarrow> False
     | k \<Rightarrow> (if k = DestinationDomain \<and> v = ''*'' then True
            else plain_host (CanonicalHost v) \<and> (k = DestinationDomainSuffix \<longrightarrow> CHR ''*'' \<notin> set v))
           \<and> rule_Protocol r = ''tcp'' \<and> rule_Ports r \<noteq> [] \<and> set (rule_Ports r) \<subseteq> {80, 443})"

lemma validHostValue_ok:
  "validHostValue d = Inr () \<longleftrightarrow>
     (if dst_Kind d \<noteq> DestinationDomainSuffix \<and> dst_Value d = ''*'' then True
      else plain_host (CanonicalHost (dst_Value d))
           \<and> (dst_Kind d = DestinationDomainSuffix \<longrightarrow> CHR ''*'' \<notin> set (dst_Value d)))"
  by (auto simp: validHostValue_def Contains_char host_check_ok)

lemma validRuleDestination_ok: "validRuleDestination r = Inr () \<longleftrightarrow> dest_ok r"
proof (cases "dst_Kind (rule_Destination r)")
  case DestinationCIDR
  then show ?thesis
    by (cases "parseCIDR (dst_Value (rule_Destination r))") (simp_all add: validRuleDestination_def dest_ok_def)
next
  case DestinationDomain
  then show ?thesis
    using validHostValue_ok [of "rule_Destination r"]
    by (cases "validHostValue (rule_Destination r)")
      (auto simp: validRuleDestination_def dest_ok_def Let_def list_all_iff webPorts_def)
next
  case DestinationDomainSuffix
  then show ?thesis
    using validHostValue_ok [of "rule_Destination r"]
    by (cases "validHostValue (rule_Destination r)")
      (auto simp: validRuleDestination_def dest_ok_def Let_def list_all_iff webPorts_def)
next
  case DestinationGroup
  then show ?thesis
    by (auto simp: validRuleDestination_def dest_ok_def Groups_def GroupDNS_def Let_def split: if_splits)
next
  case (DestinationOther s)
  then show ?thesis by (simp add: validRuleDestination_def dest_ok_def)
qed

text \<open>What \<open>ParseRule\<close> returns and \<open>Get\<close> reads: a valid rule, with its host canonical.\<close>

definition canonical_rule :: "rule \<Rightarrow> bool" where
  "canonical_rule r = (validRule r = Inr () \<and> canonicalHost (rule_Destination r) = rule_Destination r)"

lemma CanonicalHost_star: "CanonicalHost ''*'' = ''*''"
  by code_simp

lemma CanonicalHost_idem_plain: "plain_host (CanonicalHost v) \<Longrightarrow> CanonicalHost (CanonicalHost v) = CanonicalHost v"
  by (rule CanonicalHost_plain)

lemma CanonicalHost_star_in: "CHR ''*'' \<in> set (CanonicalHost v) \<Longrightarrow> CHR ''*'' \<in> set v"
proof -
  have low: "CHR ''*'' \<in> set (ToLower s) \<Longrightarrow> CHR ''*'' \<in> set s" for s
  proof (induction s rule: ToLower.induct)
    case (2 c s)
    have "lower_byte c = CHR ''*'' \<Longrightarrow> c = CHR ''*''"
      by (auto simp: lower_byte_def is_upper_def dest: arg_cong [where f = code] split: if_splits)
    moreover have "CHR ''*'' \<in> set (tl s) \<Longrightarrow> CHR ''*'' \<in> set s" "CHR ''*'' \<in> set (drop 2 s) \<Longrightarrow> CHR ''*'' \<in> set s"
      by (cases s, auto dest: in_set_dropD)
    ultimately show ?case using 2 by (auto split: if_splits)
  qed simp
  assume "CHR ''*'' \<in> set (CanonicalHost v)"
  then show ?thesis
    using low by (auto simp: CanonicalHost_def TrimSuffix_def dest: in_set_takeD split: if_splits)
qed

lemma validRule_canonical:
  assumes "validRule r = Inr ()"
  shows "canonical_rule (r\<lparr>rule_Destination := canonicalHost (rule_Destination r)\<rparr>)"
proof -
  let ?d = "rule_Destination r"
  have "dest_ok r" using assms by (simp add: validRule_iff validRuleDestination_ok)
  then have "dest_ok (r\<lparr>rule_Destination := canonicalHost ?d\<rparr>)
      \<and> canonicalHost (canonicalHost ?d) = canonicalHost ?d"
    by (cases "dst_Kind ?d")
      (auto simp: dest_ok_def canonicalHost_def named_def Let_def CanonicalHost_star CanonicalHost_idem_plain
        dest: CanonicalHost_star_in split: if_splits)
  then show ?thesis
    using assms by (simp add: canonical_rule_def validRule_iff validRuleDestination_ok)
qed

subsection \<open>Printing and parsing a rule\<close>

definition dest_text :: "destination \<Rightarrow> string" where
  "dest_text d = (if dst_Kind d = DestinationDomainSuffix then ''suffix:'' @ dst_Value d else dst_Value d)"

lemma plain_host_not_plain_words: "plain_host h \<Longrightarrow> CHR ''.'' \<in> set h"
proof (rule ccontr)
  assume "plain_host h" "CHR ''.'' \<notin> set h"
  then show False by (auto simp: plain_host_def host_labels_def)
qed

lemma ParsePrefix_no_slash: "CHR ''/'' \<notin> set s \<Longrightarrow> ParsePrefix s = None"
  by (simp add: ParsePrefix_def last_cut_def)

lemma ParseAddr_suffix: "ParseAddr (''suffix:'' @ h) = None"
proof -
  have "ipv6_loop bs ell (CHR ''s'' # s) = None" if "length bs < 16" for bs ell s
    using that by (subst ipv6_loop.simps) (simp add: hex_digit_def is_digit_def)
  moreover have "Cut (''suffix:'' @ h) (CHR ''%'') = (fst (Cut (''suffix:'' @ h) (CHR ''%'')), snd (Cut (''suffix:'' @ h) (CHR ''%'')))"
    by simp
  moreover have "\<exists>t. fst (Cut (''suffix:'' @ h) (CHR ''%'')) = CHR ''s'' # t"
    by (auto simp: Cut_def)
  ultimately have "parse_ipv6 (''suffix:'' @ h) = None"
    by (auto simp: parse_ipv6_def Let_def HasPrefix_def split: prod.splits option.splits)
  then show ?thesis by (simp add: ParseAddr_def)
qed

lemma parse_dest_text:
  assumes "canonical_rule r"
  shows "parseDestination (dest_text (rule_Destination r)) = Inr (rule_Destination r)
     \<and> list_all is_plain (dest_text (rule_Destination r)) \<and> dest_text (rule_Destination r) \<noteq> []"
proof -
  let ?d = "rule_Destination r" and ?v = "dst_Value (rule_Destination r)"
  have eq: "\<lparr>dst_Kind = dst_Kind ?d, dst_Value = ?v\<rparr> = ?d" by simp
  have ok: "dest_ok r" and canon: "canonicalHost ?d = ?d"
    using assms by (auto simp: canonical_rule_def validRule_iff validRuleDestination_ok)
  have host: "plain_host ?v \<Longrightarrow> CHR ''/'' \<notin> set ?v \<and> CHR '':'' \<notin> set ?v \<and> ParseAddr ?v = None \<and> ?v \<noteq> []
      \<and> list_all is_plain ?v \<and> CHR ''.'' \<in> set ?v"
    using plain_host_char [of ?v "CHR ''/''"] plain_host_char [of ?v "CHR '':''"] plain_host_nonempty
      plain_host_plain plain_host_not_plain_words
    by (auto simp: char_class_defs plain_host_def)
  show ?thesis
  proof (cases "dst_Kind ?d")
    case DestinationCIDR
    then obtain p where p: "parseCIDR ?v = Inr p" using ok by (auto simp: dest_ok_def is_ok_iff)
    then have "ParseAddr ?v \<noteq> None \<or> ParsePrefix ?v \<noteq> None"
      by (auto simp: parseCIDR_def split: option.splits)
    moreover have "hd ?v \<noteq> CHR ''a''" "hd ?v \<noteq> CHR ''d''" "hd ?v \<noteq> CHR ''p''" "hd ?v \<noteq> CHR ''g''"
      using parseCIDR_chars [OF p, of "hd ?v"] parseCIDR_plain [OF p] by (auto simp: is_digit_def)
    moreover have "?v \<noteq> []" "list_all is_plain ?v" using parseCIDR_plain [OF p] by auto
    ultimately show ?thesis using DestinationCIDR eq
      by (auto simp: dest_text_def parseDestination_def GroupAny_def GroupDNS_def)
  next
    case DestinationGroup
    then show ?thesis using ok eq
      by (auto simp: dest_ok_def dest_text_def parseDestination_def GroupAny_def GroupDNS_def is_plain_def)
  next
    case (DestinationOther s)
    then show ?thesis using ok by (simp add: dest_ok_def)
  next
    case DestinationDomain
    have "plain_host ?v \<or> ?v = ''*''"
      using ok canon DestinationDomain
      by (auto simp: dest_ok_def canonicalHost_def named_def Let_def split: if_splits dest: arg_cong [where f = dst_Value])
    then show ?thesis
    proof
      assume "?v = ''*''"
      moreover have "ParseAddr ''*'' = None" by code_simp
      moreover have "parseDestination ''*'' = Inr \<lparr>dst_Kind = DestinationDomain, dst_Value = ''*''\<rparr>" by code_simp
      ultimately show ?thesis using eq DestinationDomain by (simp add: dest_text_def is_plain_def)
    next
      assume "plain_host ?v"
      moreover from host [OF this] have "?v \<noteq> ''any''" "?v \<noteq> ''dns''" "?v \<noteq> ''private''" "?v \<noteq> ''group:private''" by auto
      moreover have "CHR '':'' \<notin> set ?v \<Longrightarrow> CutPrefix ?v ''suffix:'' = None"
        by (auto simp: CutPrefix_def HasPrefix_iff)
      ultimately show ?thesis using host eq DestinationDomain
        by (auto simp: dest_text_def parseDestination_def GroupAny_def GroupDNS_def ParsePrefix_no_slash)
    qed
  next
    case DestinationDomainSuffix
    then have "plain_host ?v"
      using ok canon
      by (auto simp: dest_ok_def canonicalHost_def named_def Let_def split: if_splits dest: arg_cong [where f = dst_Value])
    moreover have "CutPrefix (''suffix:'' @ ?v) ''suffix:'' = Some ?v"
      by (simp add: CutPrefix_def HasPrefix_def)
    moreover have "ParsePrefix (''suffix:'' @ ?v) = None"
      by (rule ParsePrefix_no_slash) (use host \<open>plain_host ?v\<close> in auto)
    ultimately show ?thesis using host eq DestinationDomainSuffix ParseAddr_suffix [of ?v]
      by (simp add: dest_text_def parseDestination_def GroupAny_def GroupDNS_def is_plain_def)
  qed
qed

lemma rule_text_alt:
  "rule_text r =
     (if rule_Protocol r = [] then dest_text (rule_Destination r)
      else dest_text (rule_Destination r) @ CHR '' '' #
        (if rule_Ports r = [] then rule_Protocol r
         else rule_Protocol r @ CHR '':'' # Join (map Itoa (rule_Ports r)) '',''))"
  by (simp add: rule_text_def dest_text_def Let_def)

lemma rule_of_parts_canonical:
  assumes "canonical_rule r"
  shows "rule_of_parts (rule_Action r) (rule_Destination r) (rule_Protocol r) (rule_Ports r) = Inr r"
proof -
  have valid: "validRule r = Inr ()" and canon: "canonicalHost (rule_Destination r) = rule_Destination r"
    using assms by (auto simp: canonical_rule_def)
  have "named (dst_Kind (rule_Destination r)) \<Longrightarrow> rule_Protocol r = ''tcp'' \<and> rule_Ports r \<noteq> []"
    using valid by (auto simp: validRule_iff validRuleDestination_ok dest_ok_def named_def Let_def)
  moreover have eta: "\<lparr>rule_Action = rule_Action r, rule_Destination = rule_Destination r,
      rule_Protocol = rule_Protocol r, rule_Ports = rule_Ports r\<rparr> = r" by simp
  ultimately show ?thesis
    using valid canon by (auto simp: rule_of_parts_def Let_def eta)
qed

lemma proto_text_plain:
  assumes "canonical_rule r" "rule_Protocol r \<noteq> []"
  shows "list_all is_plain (rule_Protocol r) \<and> CHR '':'' \<notin> set (rule_Protocol r)"
  using assms by (auto simp: canonical_rule_def validRule_iff is_plain_def)

lemma ports_text_plain:
  assumes "\<forall>p \<in> set ps. 1 \<le> (p :: int)"
  shows "list_all is_plain (Join (map Itoa ps) '','')"
proof -
  have "is_plain c" if "c \<in> set (Join (map Itoa ps) '','')" for c
  proof -
    have "c \<in> (\<Union>p \<in> set ps. set (Itoa p)) \<or> c = CHR '',''"
      using that set_Join [of "map Itoa ps" "'',''"] by auto
    moreover have "is_plain c" if "p \<in> set ps" "c \<in> set (Itoa p)" for p
      using that assms Itoa_chars [of p] by (force simp: list_all_iff)
    ultimately show ?thesis by (auto simp: is_plain_def)
  qed
  then show ?thesis by (simp add: list_all_iff)
qed

lemma ParseRule_rule_text:
  assumes r: "canonical_rule r" and sorted: "sorted_wrt (<) (rule_Ports r)"
  shows "ParseRule (rule_Action r) (rule_text r) = Inr r"
proof -
  let ?dt = "dest_text (rule_Destination r)" and ?pt = "Join (map Itoa (rule_Ports r)) '',''"
  note dest = parse_dest_text [OF r] and parts = rule_of_parts_canonical [OF r]
  have ports: "\<forall>p \<in> set (rule_Ports r). 1 \<le> p \<and> p \<le> 65535" "length (rule_Ports r) \<le> maxPorts"
    and none: "rule_Protocol r = [] \<Longrightarrow> rule_Ports r = []"
    using r by (auto simp: canonical_rule_def validRule_iff)
  consider "rule_Protocol r = []" | "rule_Protocol r \<noteq> []" "rule_Ports r = []"
    | "rule_Protocol r \<noteq> []" "rule_Ports r \<noteq> []" by blast
  then show ?thesis
  proof cases
    case 1
    then show ?thesis using dest parts none Fields_one [of ?dt] by (simp add: rule_text_alt ParseRule_def)
  next
    case 2
    then show ?thesis
      using dest parts Fields_two [of ?dt "rule_Protocol r"] proto_text_plain [OF r]
      by (simp add: rule_text_alt ParseRule_def parsePorts_def)
  next
    case 3
    have "list_all is_plain (rule_Protocol r @ CHR '':'' # ?pt)"
      using proto_text_plain [OF r 3(1)] ports_text_plain [of "rule_Ports r"] ports(1) by (auto simp: is_plain_def)
    then have "Fields (rule_text r) = [?dt, rule_Protocol r @ CHR '':'' # ?pt]"
      using 3 dest Fields_two [of ?dt] by (simp add: rule_text_alt)
    then show ?thesis
      using 3 dest parts proto_text_plain [OF r 3(1)] parsePorts_Itoa [OF 3(2) ports sorted]
      by (simp add: ParseRule_def)
  qed
qed

lemma rule_of_parts_Inr:
  assumes "rule_of_parts act d proto ps = Inr r" "sorted_wrt (<) ps"
  shows "canonical_rule r \<and> rule_Action r = act \<and> sorted_wrt (<) (rule_Ports r)"
proof -
  let ?proto = "if named (dst_Kind d) \<and> proto = [] then ''tcp'' else proto"
  let ?ports = "if named (dst_Kind d) \<and> ?proto = ''tcp'' \<and> ps = [] then webPorts else ps"
  let ?q = "\<lparr>rule_Action = act, rule_Destination = d, rule_Protocol = ?proto, rule_Ports = ?ports\<rparr>"
  have "validRule ?q = Inr ()" and r: "r = ?q\<lparr>rule_Destination := canonicalHost d\<rparr>"
    using assms(1) by (auto simp: rule_of_parts_def Let_def split: sum.splits)
  then have "canonical_rule r" using validRule_canonical [of ?q] by simp
  then show ?thesis using r assms(2) by (simp add: webPorts_def)
qed

lemma ParseRule_Inr:
  assumes "ParseRule act text = Inr r"
  shows "canonical_rule r \<and> rule_Action r = act \<and> sorted_wrt (<) (rule_Ports r)"
  using assms rule_of_parts_Inr [of act] parsePorts_sorted
  by (auto simp: ParseRule_def split: list.splits sum.splits prod.splits)

text \<open>C5: what \<open>ParseRule\<close> accepts is a valid rule in canonical form, and \<open>FormatRule\<close> prints it as
  the action and a text that \<open>ParseRule\<close> reads back as the same rule.\<close>

theorem FormatRule_ParseRule:
  assumes "ParseRule act text = Inr r"
  shows "validRule r = Inr () \<and> (\<exists>t. FormatRule r = action_text act @ '' '' @ t \<and> ParseRule act t = Inr r)"
  using ParseRule_Inr [OF assms] ParseRule_rule_text [of r]
  by (auto simp: FormatRule_def canonical_rule_def)

theorem FormatRule_ParseRule_witness:
  "ParseRule ActionDeny ''10.0.0.0/8  tcp:80,22,79-80'' =
     Inr \<lparr>rule_Action = ActionDeny, rule_Destination = \<lparr>dst_Kind = DestinationCIDR, dst_Value = ''10.0.0.0/8''\<rparr>,
          rule_Protocol = ''tcp'', rule_Ports = [22, 79, 80]\<rparr>
   \<and> validRule \<lparr>rule_Action = ActionDeny, rule_Destination = \<lparr>dst_Kind = DestinationCIDR, dst_Value = ''10.0.0.0/8''\<rparr>,
          rule_Protocol = ''tcp'', rule_Ports = [22, 79, 80]\<rparr> = Inr ()"
proof -
  have p: "ParseRule ActionDeny ''10.0.0.0/8  tcp:80,22,79-80'' =
     Inr \<lparr>rule_Action = ActionDeny, rule_Destination = \<lparr>dst_Kind = DestinationCIDR, dst_Value = ''10.0.0.0/8''\<rparr>,
          rule_Protocol = ''tcp'', rule_Ports = [22, 79, 80]\<rparr>"
    by code_simp
  show ?thesis using p FormatRule_ParseRule [OF p] by blast
qed

subsection \<open>The store keeps its promises\<close>

lemma Validate_iff:
  "Validate p = Inr () \<longleftrightarrow>
     ValidName (pol_Name p) = Inr () \<and> length (pol_Rules p) \<le> maxRules
     \<and> (\<forall>r \<in> set (pol_Rules p). validRule r = Inr ())"
proof -
  have rule: "is_ok (case validRule r of Inl e \<Rightarrow> Inl (BadRule i e) | Inr _ \<Rightarrow> Inr ()) \<longleftrightarrow> validRule r = Inr ()" for i r
    by (cases "validRule r") auto
  have rules: "check_all (\<lambda>i r. case validRule r of Inl e \<Rightarrow> Inl (BadRule i e) | Inr _ \<Rightarrow> Inr ()) 1 rs = Inr ()
      \<longleftrightarrow> (\<forall>r \<in> set rs. validRule r = Inr ())" for rs
    by (subst unit_ok_iff) (simp add: check_all_ok_nth rule all_set_conv_all_nth)
  show ?thesis
  proof (cases "ValidName (pol_Name p)")
    case (Inr u)
    then have "ValidName (pol_Name p) = Inr ()" by simp
    then show ?thesis using rules [of "pol_Rules p"] by (auto simp: Validate_def)
  qed (simp add: Validate_def)
qed

lemma canonical_policy_sel [simp]: "pol_Name (canonical_policy p) = pol_Name p"
  by (simp add: canonical_policy_def)

lemma canonical_policy_rules:
  assumes "Validate p = Inr ()" "r \<in> set (pol_Rules (canonical_policy p))"
  shows "canonical_rule r"
  using assms validRule_canonical by (auto simp: canonical_policy_def Validate_iff)

lemma Validate_canonical: "Validate p = Inr () \<Longrightarrow> Validate (canonical_policy p) = Inr ()"
proof -
  assume p: "Validate p = Inr ()"
  have "\<forall>r \<in> set (pol_Rules (canonical_policy p)). validRule r = Inr ()"
    using canonical_policy_rules [OF p] by (simp add: canonical_rule_def)
  moreover have "length (pol_Rules (canonical_policy p)) = length (pol_Rules p)"
    by (simp add: canonical_policy_def)
  ultimately show "Validate (canonical_policy p) = Inr ()"
    using p unfolding Validate_iff by simp
qed

lemma policy_path_inj [simp]: "policy_path a = policy_path b \<longleftrightarrow> a = b"
  by (simp add: policy_path_def)

lemma policy_Get_cong: "map_of d (policy_path k) = map_of d' (policy_path k) \<Longrightarrow> policy_Get k d = policy_Get k d'"
  unfolding policy_Get_def by (erule ssubst) (rule refl)

lemma policy_Get_written:
  assumes "Validate p = Inr ()" "map_of d (policy_path (pol_Name p)) = Some (File (Some p))"
  shows "policy_Get (pol_Name p) d = Inr (canonical_policy p)"
proof -
  have "ValidName (pol_Name p) = Inr ()" using assms(1) by (simp add: Validate_iff)
  then show ?thesis using assms by (simp add: policy_Get_def)
qed

lemma policy_Set_ok:
  assumes "Validate p = Inr ()"
  shows "policy_Set fault p d =
    (fst (write_file fault (policy_path (pol_Name p)) (Some p) d),
     map_option PolicyWrite (snd (write_file fault (policy_path (pol_Name p)) (Some p) d)))"
  using assms by (simp add: policy_Set_def split: prod.splits)

lemma policy_Set_bad: "Validate p = Inl e \<Longrightarrow> policy_Set fault p d = (d, Some e)"
  by (simp add: policy_Set_def)

lemma Validate_cases: obtains "Validate p = Inr ()" | e where "Validate p = Inl e"
  by (cases "Validate p") auto

lemma policy_Set_other: "k \<noteq> pol_Name p \<Longrightarrow> policy_Get k (fst (policy_Set fault p d)) = policy_Get k d"
  by (cases p rule: Validate_cases)
    (auto simp: policy_Set_ok policy_Set_bad map_of_write_file intro!: policy_Get_cong)

lemma policy_Set_get: "policy_Set fault p d = (d', None) \<Longrightarrow> policy_Get (pol_Name p) d' = Inr (canonical_policy p)"
proof (cases p rule: Validate_cases)
  case 1
  assume "policy_Set fault p d = (d', None)"
  then have d': "d' = fst (write_file fault (policy_path (pol_Name p)) (Some p) d)"
    and "lands fault (policy_path (pol_Name p)) d"
    using 1 by (auto simp: policy_Set_ok intro: write_file_landed)
  then show ?thesis using 1 by (intro policy_Get_written) (auto simp: map_of_write_file)
qed (simp add: policy_Set_bad)

lemma policy_Set_err:
  "policy_Set fault p d = (d', Some e) \<Longrightarrow>
   policy_Get (pol_Name p) d' = policy_Get (pol_Name p) d \<or> policy_Get (pol_Name p) d' = Inr (canonical_policy p)"
proof (cases p rule: Validate_cases)
  case 1
  assume "policy_Set fault p d = (d', Some e)"
  then have d': "d' = fst (write_file fault (policy_path (pol_Name p)) (Some p) d)"
    using 1 by (auto simp: policy_Set_ok)
  show ?thesis
  proof (cases "lands fault (policy_path (pol_Name p)) d")
    case True
    then show ?thesis using 1 d' by (intro disjI2 policy_Get_written) (auto simp: map_of_write_file)
  next
    case False
    then show ?thesis using d' by (intro disjI1 policy_Get_cong) (auto simp: map_of_write_file)
  qed
qed (simp add: policy_Set_bad)

lemma policy_Remove_get: "policy_Remove fault k d = (d', None) \<Longrightarrow> policy_Get k d' = Inl PolicyNotFound"
  using map_of_remove_file [of fault "policy_path k" d "policy_path k"]
  by (cases fault) (auto simp: policy_Remove_def policy_Get_def remove_file_def split: sum.splits if_splits)

lemma policy_Remove_other: "k' \<noteq> k \<Longrightarrow> policy_Get k' (fst (policy_Remove fault k d)) = policy_Get k' d"
  by (rule policy_Get_cong)
    (auto simp: policy_Remove_def remove_file_def delete_conv' split: sum.splits)

lemma policy_Remove_err:
  "policy_Remove fault k d = (d', Some e) \<Longrightarrow> policy_Get k d' = policy_Get k d \<or> policy_Get k d' = Inl PolicyNotFound"
proof (cases "ValidName k")
  case (Inr u)
  assume "policy_Remove fault k d = (d', Some e)"
  then have d': "d' = fst (remove_file fault (policy_path k) d)" using Inr by (auto simp: policy_Remove_def split: prod.splits option.splits)
  show ?thesis
  proof (cases "fault = Some RemoveEntry")
    case True
    then show ?thesis using d' by (simp add: remove_file_def)
  next
    case False
    then have "map_of d' (policy_path k) = None" by (simp add: d' map_of_remove_file)
    then show ?thesis using Inr by (simp add: policy_Get_def)
  qed
qed (simp add: policy_Remove_def)

interpretation pstore: keyed_store policy_Get policy_Set policy_Remove pol_Name canonical_policy PolicyNotFound
  by unfold_locales
    (auto simp: policy_Set_get policy_Set_other policy_Remove_get policy_Remove_other dest: policy_Set_err policy_Remove_err)

lemma policy_Get_valid:
  assumes "policy_Get name d = Inr p"
  shows "pol_Name p = name \<and> Validate p = Inr () \<and> (\<forall>r \<in> set (pol_Rules p). canonical_rule r)"
proof -
  obtain q where q: "Validate (q\<lparr>pol_Name := name\<rparr>) = Inr ()" and p: "p = canonical_policy (q\<lparr>pol_Name := name\<rparr>)"
    using assms by (auto simp: policy_Get_def Let_def split: sum.splits option.splits node.splits)
  show ?thesis using canonical_policy_rules [OF q] Validate_canonical [OF q] p by simp
qed

text \<open>C10: what a caller of the policy store may rely on. After any sequence of \<open>Set\<close> and \<open>Remove\<close> calls, whichever
  of their system calls fail, \<open>Get\<close> of a name answers one of the outcomes the errors of those calls
  leave open: after a \<open>Set\<close> of the name without an error only its policy, with its hosts canonical,
  after a \<open>Remove\<close> without an error only that there is none, and after a call with an error what was
  open before or what that call asked for; and a policy it returns is valid and carries the name.\<close>

theorem policy_store_last_set:
  "policy_Get k (pstore.run_ops ops d) \<in> pstore.outcomes k ops d {policy_Get k d}
   \<and> (case policy_Get k (pstore.run_ops ops d) of Inl _ \<Rightarrow> True | Inr p \<Rightarrow> pol_Name p = k \<and> Validate p = Inr ())"
  using pstore.run_outcomes [of k d "{policy_Get k d}" ops] policy_Get_valid [of k "pstore.run_ops ops d"]
  by (simp split: sum.splits)

text \<open>The witness: a removal whose directory sync fails leaves two outcomes open, and a \<open>Set\<close> after it one.\<close>

theorem policy_store_last_set_witness:
  "policy_Get ''web'' (pstore.run_ops [Put None \<lparr>pol_Name = ''web'', pol_Rules = []\<rparr>, Del (Some SyncAfter) ''web'']  [])
     \<in> {Inl PolicyNotFound, Inr \<lparr>pol_Name = ''web'', pol_Rules = []\<rparr>}
   \<and> policy_Get ''web'' (pstore.run_ops [Del (Some SyncAfter) ''web'', Put None \<lparr>pol_Name = ''web'', pol_Rules = []\<rparr>] [])
     = Inr \<lparr>pol_Name = ''web'', pol_Rules = []\<rparr>"
proof -
  let ?p = "\<lparr>pol_Name = ''web'', pol_Rules = []\<rparr>"
  have valid: "Validate ?p = Inr ()" "ValidName ''web'' = Inr ()" by code_simp+
  show ?thesis
    using policy_store_last_set [of "''web''" "[Put None ?p, Del (Some SyncAfter) ''web'']" "[]"]
      policy_store_last_set [of "''web''" "[Del (Some SyncAfter) ''web'', Put None ?p]" "[]"]
    by (simp add: policy_Set_ok valid policy_Remove_def remove_file_def write_file_def write_error_def canonical_policy_def)
qed

end
