(* ===== verification/Decide.thy ===== *)
theory Decide
  imports Policy
begin

text \<open>
  The egress decisions: \<open>Effective\<close> of \<open>services/egress/compile.go\<close>, the walks of
  \<open>services/egress/decide.go\<close> that the proxy and the resolver ask, \<open>Resolves\<close> of
  \<open>services/egress/policy.go\<close>, and the floor under every policy, from
  \<open>services/network/egress.go\<close> and \<open>services/network/local.go\<close>.
\<close>

subsection \<open>The floor\<close>

definition privateRanges :: "string list" where
  "privateRanges = [''10.0.0.0/8'', ''172.16.0.0/12'', ''192.168.0.0/16'', ''169.254.0.0/16'',
     ''127.0.0.0/8'', ''100.64.0.0/10'']"

text \<open>\<open>mustPrefixes\<close> panics on a text that is no prefix; every range above is one.\<close>

definition mustPrefixes :: "string list \<Rightarrow> prefix list" where
  "mustPrefixes cidrs = map (\<lambda>c. the (ParsePrefix c)) cidrs"

definition Private :: "prefix list" where
  "Private = mustPrefixes privateRanges"

definition prefixes_contain :: "prefix list \<Rightarrow> addr \<Rightarrow> bool" where
  "prefixes_contain ps a = list_ex (\<lambda>p. pfx_Contains p a) ps"

definition broadcast :: addr where
  "broadcast = V4 0xffffffff"

definition thisNetwork :: prefix where
  "thisNetwork = Prefix (V4 0) (Some 8)"

text \<open>\<open>Local\<close>: the host's addresses as last read, or the failure to read them, and when. The time 0 is
  never: no read yet. \<open>hostAddresses\<close> asks the system, so its answer is an argument.\<close>

record local =
  lo_owned :: "addr list option"
  lo_read :: time

definition hostRefresh :: duration where
  "hostRefresh = 1000000000"

definition hostOwned :: "time \<Rightarrow> addr list option \<Rightarrow> local \<Rightarrow> addr list option \<times> local" where
  "hostOwned now hostAddresses l =
     (if lo_read l \<noteq> 0 \<and> now - lo_read l < hostRefresh then (lo_owned l, l)
      else (hostAddresses, \<lparr>lo_owned = hostAddresses, lo_read = now\<rparr>))"

definition owned_Contains :: "addr list option \<Rightarrow> addr \<Rightarrow> bool" where
  "owned_Contains owned a =
     (IsUnspecified a \<or> pfx_Contains thisNetwork a \<or> IsMulticast a \<or> a = broadcast
      \<or> (case owned of None \<Rightarrow> True | Some as \<Rightarrow> a \<in> set as))"

definition local_Contains :: "time \<Rightarrow> addr list option \<Rightarrow> local \<Rightarrow> addr \<Rightarrow> bool \<times> local" where
  "local_Contains now hostAddresses l a =
     (if IsUnspecified a \<or> pfx_Contains thisNetwork a \<or> IsMulticast a \<or> a = broadcast then (True, l)
      else case hostOwned now hostAddresses l of (owned, l') \<Rightarrow> (owned_Contains owned a, l'))"

definition RulePrivate :: string where "RulePrivate = ''private''"
definition RuleDefault :: string where "RuleDefault = ''default''"
definition RuleLocal :: string where "RuleLocal = ''local''"
definition RuleNone :: string where "RuleNone = ''none''"
definition RuleMissing :: string where "RuleMissing = ''missing''"
definition RuleResolve :: string where "RuleResolve = ''resolve''"
definition RuleIPv6 :: string where "RuleIPv6 = ''ipv6''"
definition RuleStack :: string where "RuleStack = ''stack''"
definition RuleUnapplied :: string where "RuleUnapplied = ''unapplied''"

subsection \<open>What the host enforces for one sandbox\<close>

record effective_rule =
  er_Rule :: rule
  er_ID :: string
  er_Implied :: string

record effective =
  ef_Missing :: bool
  ef_Rules :: "effective_rule list"

definition opensDNS :: "rule \<Rightarrow> bool" where
  "opensDNS r =
     (if named (dst_Kind (rule_Destination r)) then True
      else rule_Action r = ActionAllow \<and> dst_Kind (rule_Destination r) = DestinationGroup
           \<and> dst_Value (rule_Destination r) = GroupDNS)"

definition OpensDNS :: "policy \<Rightarrow> bool" where
  "OpensDNS p = list_ex opensDNS (pol_Rules p)"

text \<open>The rule the resolver needs: DNS to the gateway, where shard's own resolver listens.\<close>

definition dns_rule :: "u32 \<Rightarrow> string \<Rightarrow> rule" where
  "dns_rule gateway proto =
     \<lparr>rule_Action = ActionAllow,
      rule_Destination = \<lparr>dst_Kind = DestinationCIDR, dst_Value = ipv4_String gateway\<rparr>,
      rule_Protocol = proto, rule_Ports = [53]\<rparr>"

definition implied_by :: "rule list \<Rightarrow> string" where
  "implied_by rs =
     (if list_ex (\<lambda>r. dst_Kind (rule_Destination r) = DestinationGroup
                     \<and> dst_Value (rule_Destination r) = GroupDNS) rs
      then ''dns-rule'' else ''dns'')"

fun number_rules :: "nat \<Rightarrow> effective_rule list \<Rightarrow> effective_rule list" where
  "number_rules i [] = []"
| "number_rules i (r # rs) = r\<lparr>er_ID := Itoa (int i + 1)\<rparr> # number_rules (Suc i) rs"

definition effective_rules :: "u32 \<Rightarrow> policy \<Rightarrow> effective_rule list" where
  "effective_rules gateway p =
     (let own = map (\<lambda>r. \<lparr>er_Rule = r, er_ID = [], er_Implied = []\<rparr>) (pol_Rules p);
          dns = (if OpensDNS p
                 then map (\<lambda>proto. \<lparr>er_Rule = dns_rule gateway proto, er_ID = [],
                                    er_Implied = implied_by (pol_Rules p)\<rparr>) [''udp'', ''tcp'']
                 else [])
      in number_rules 0 (dns @ own))"

definition Effective :: "u32 \<Rightarrow> policy_dir \<Rightarrow> sandbox \<Rightarrow> policy_error + effective" where
  "Effective gateway d sb =
     (if sb_Policy sb = [] then Inr \<lparr>ef_Missing = False, ef_Rules = []\<rparr>
      else case policy_Get (sb_Policy sb) d of
        Inl e \<Rightarrow> if e = PolicyNotFound then Inr \<lparr>ef_Missing = True, ef_Rules = []\<rparr> else Inl e
      | Inr p \<Rightarrow> Inr \<lparr>ef_Missing = False, ef_Rules = effective_rules gateway p\<rparr>)"

subsection \<open>What a rule matches\<close>

definition tcp_port :: "rule \<Rightarrow> int \<Rightarrow> bool" where
  "tcp_port r port =
     ((rule_Protocol r = [] \<or> rule_Protocol r = ''tcp'') \<and> (rule_Ports r = [] \<or> port \<in> set (rule_Ports r)))"

definition under :: "string \<Rightarrow> string \<Rightarrow> bool" where
  "under value host = (host = value \<or> HasSuffix host (CHR ''.'' # value))"

definition group_prefixes :: "string \<Rightarrow> prefix list" where
  "group_prefixes g = (case Groups g of None \<Rightarrow> [] | Some ps \<Rightarrow> ps)"

definition matches :: "rule \<Rightarrow> string \<Rightarrow> int \<Rightarrow> addr \<Rightarrow> bool" where
  "matches r host port a =
     (if \<not> tcp_port r port then False
      else let v = dst_Value (rule_Destination r) in
        case dst_Kind (rule_Destination r) of
          DestinationCIDR \<Rightarrow> (case parseCIDR v of Inl _ \<Rightarrow> False | Inr p \<Rightarrow> pfx_Contains p a)
        | DestinationGroup \<Rightarrow> prefixes_contain (group_prefixes v) a
        | DestinationDomain \<Rightarrow> MatchHost v host
        | DestinationDomainSuffix \<Rightarrow> under v host
        | DestinationOther s \<Rightarrow> False)"

definition anyLeavesDNS :: "rule \<Rightarrow> bool" where
  "anyLeavesDNS r =
     (dst_Kind (rule_Destination r) = DestinationGroup \<and> dst_Value (rule_Destination r) = GroupAny
      \<and> (rule_Ports r = [] \<or> 53 \<in> set (rule_Ports r)))"

definition closesName :: "rule \<Rightarrow> bool" where
  "closesName r =
     (if rule_Protocol r \<noteq> [] \<and> rule_Protocol r \<noteq> ''tcp'' then False
      else if rule_Ports r = [] then True
      else list_all (\<lambda>port. port \<in> set (rule_Ports r)) webPorts)"

definition matchesName :: "rule \<Rightarrow> string \<Rightarrow> bool" where
  "matchesName r name =
     (if rule_Action r = ActionDeny \<and> \<not> closesName r then False
      else let v = dst_Value (rule_Destination r) in
        case dst_Kind (rule_Destination r) of
          DestinationGroup \<Rightarrow> v = GroupDNS \<or> anyLeavesDNS r
        | DestinationDomain \<Rightarrow> MatchHost v name
        | DestinationDomainSuffix \<Rightarrow> under v name
        | _ \<Rightarrow> False)"

definition nameDecidesHTTP :: "rule \<Rightarrow> string \<Rightarrow> int \<Rightarrow> bool" where
  "nameDecidesHTTP r host port =
     (if \<not> tcp_port r port then False
      else let v = dst_Value (rule_Destination r) in
        case dst_Kind (rule_Destination r) of
          DestinationDomain \<Rightarrow> MatchHost v host
        | DestinationDomainSuffix \<Rightarrow> under v host
        | DestinationGroup \<Rightarrow> v = GroupAny
        | _ \<Rightarrow> False)"

definition mightAllowByAddress :: "rule \<Rightarrow> int \<Rightarrow> bool" where
  "mightAllowByAddress r port =
     (if rule_Action r \<noteq> ActionAllow then False
      else if \<not> tcp_port r port then False
      else case dst_Kind (rule_Destination r) of
          DestinationCIDR \<Rightarrow> True
        | DestinationGroup \<Rightarrow> dst_Value (rule_Destination r) \<noteq> GroupDNS
        | _ \<Rightarrow> False)"

subsection \<open>The decisions\<close>

record decision =
  dec_Action :: action
  dec_Rule :: "effective_rule option"
  dec_ID :: string
  dec_Reason :: string

definition by_rule :: "sandbox \<Rightarrow> effective_rule \<Rightarrow> decision" where
  "by_rule sb er =
     \<lparr>dec_Action = rule_Action (er_Rule er), dec_Rule = Some er, dec_ID = er_ID er,
      dec_Reason = ''the first matching rule of policy '' @ sb_Policy sb\<rparr>"

definition no_policy :: "sandbox \<Rightarrow> decision" where
  "no_policy sb = \<lparr>dec_Action = ActionAllow, dec_Rule = None, dec_ID = RuleNone,
     dec_Reason = ''sandbox '' @ sb_ID sb @ '' has no policy''\<rparr>"

definition deny_with :: "string \<Rightarrow> string \<Rightarrow> decision" where
  "deny_with rid reason = \<lparr>dec_Action = ActionDeny, dec_Rule = None, dec_ID = rid, dec_Reason = reason\<rparr>"

definition missing_policy :: "sandbox \<Rightarrow> decision" where
  "missing_policy sb = deny_with RuleMissing (''policy '' @ sb_Policy sb @ '' does not exist'')"

definition default_deny :: "sandbox \<Rightarrow> string \<Rightarrow> decision" where
  "default_deny sb host =
     deny_with RuleDefault (''no rule of policy '' @ sb_Policy sb @ '' matches '' @ host)"

text \<open>The loops over the effective rules; \<open>Decide\<close> asks a host, a port and an address,
  \<open>DecideName\<close> a name.\<close>

fun decide_walk :: "sandbox \<Rightarrow> effective_rule list \<Rightarrow> string \<times> int \<times> addr \<Rightarrow> decision" where
  "decide_walk sb [] (host, port, a) = default_deny sb host"
| "decide_walk sb (er # ers) (host, port, a) =
     (if matches (er_Rule er) host port a then by_rule sb er else decide_walk sb ers (host, port, a))"

fun name_walk :: "sandbox \<Rightarrow> effective_rule list \<Rightarrow> string \<Rightarrow> decision" where
  "name_walk sb [] name = default_deny sb name"
| "name_walk sb (er # ers) name =
     (if matchesName (er_Rule er) name then by_rule sb er else name_walk sb ers name)"

definition Decide ::
  "u32 \<Rightarrow> policy_dir \<Rightarrow> addr list option \<Rightarrow> sandbox \<Rightarrow> string \<Rightarrow> int \<Rightarrow> addr \<Rightarrow> policy_error + decision" where
  "Decide gateway d owned sb host port a =
     (if prefixes_contain Private a
      then Inr (deny_with RulePrivate (host @ '' resolves to a private address''))
      else if owned_Contains owned a
      then Inr (deny_with RuleLocal (host @ '' resolves to an address local to the host''))
      else if sb_Policy sb = [] then Inr (no_policy sb)
      else case Effective gateway d sb of
        Inl e \<Rightarrow> Inl e
      | Inr ef \<Rightarrow> if ef_Missing ef then Inr (missing_policy sb)
                 else Inr (decide_walk sb (ef_Rules ef) (host, port, a)))"

definition DecideName :: "u32 \<Rightarrow> policy_dir \<Rightarrow> sandbox \<Rightarrow> string \<Rightarrow> policy_error + decision" where
  "DecideName gateway d sb name =
     (if sb_Policy sb = [] then Inr (no_policy sb)
      else case Effective gateway d sb of
        Inl e \<Rightarrow> Inl e
      | Inr ef \<Rightarrow> if ef_Missing ef then Inr (missing_policy sb)
                 else Inr (name_walk sb (ef_Rules ef) name))"

text \<open>\<open>Unresolved\<close>: \<^term>\<open>Some\<close> is a deny that is final, \<^term>\<open>None\<close> that the verdict needs the
  resolved address.\<close>

fun unresolved_walk :: "sandbox \<Rightarrow> string \<Rightarrow> int \<Rightarrow> effective_rule list \<Rightarrow> decision option" where
  "unresolved_walk sb host port [] = Some (default_deny sb host)"
| "unresolved_walk sb host port (er # ers) =
     (if nameDecidesHTTP (er_Rule er) host port then
        (if rule_Action (er_Rule er) = ActionDeny
         then Some ((by_rule sb er)\<lparr>dec_Action := ActionDeny\<rparr>) else None)
      else if mightAllowByAddress (er_Rule er) port then None
      else unresolved_walk sb host port ers)"

definition Unresolved ::
  "u32 \<Rightarrow> policy_dir \<Rightarrow> sandbox \<Rightarrow> string \<Rightarrow> int \<Rightarrow> policy_error + decision option" where
  "Unresolved gateway d sb host port =
     (if sb_Policy sb = [] then Inr None
      else case Effective gateway d sb of
        Inl e \<Rightarrow> Inl e
      | Inr ef \<Rightarrow> if ef_Missing ef then Inr (Some (missing_policy sb))
                 else Inr (unresolved_walk sb host port (ef_Rules ef)))"

subsection \<open>Whether a policy lets any name resolve\<close>

fun resolves :: "rule list \<Rightarrow> string \<Rightarrow> bool" where
  "resolves [] name = False"
| "resolves (r # rs) name =
     (if matchesName r name then rule_Action r = ActionAllow else resolves rs name)"

text \<open>\<open>freshLabel\<close>: one more x until no rule spells the label.\<close>

definition spelled :: "rule list \<Rightarrow> string \<Rightarrow> bool" where
  "spelled rs label = list_ex (\<lambda>r. label \<in> set (Split (dst_Value (rule_Destination r)) (CHR ''.''))) rs"

lemma finite_spelled: "finite {l. spelled rs l}"
proof -
  have "{l. spelled rs l} \<subseteq> (\<Union>r \<in> set rs. set (Split (dst_Value (rule_Destination r)) (CHR ''.'')))"
    by (auto simp: spelled_def list_ex_iff)
  then show ?thesis by (rule finite_subset) auto
qed

function fresh_from :: "rule list \<Rightarrow> string \<Rightarrow> string" where
  "fresh_from rs label = (if spelled rs label then fresh_from rs (label @ ''x'') else label)"
  by pat_completeness auto
termination
proof (relation "measure (\<lambda>(rs, label). card {l. spelled rs l \<and> length label \<le> length l})")
  fix rs label
  assume s: "spelled rs label"
  have "{l. spelled rs l \<and> length (label @ ''x'') \<le> length l} \<subset> {l. spelled rs l \<and> length label \<le> length l}"
  proof (rule psubsetI)
    have "label \<in> {l. spelled rs l \<and> length label \<le> length l}"
      "label \<notin> {l. spelled rs l \<and> length (label @ ''x'') \<le> length l}" using s by auto
    then show "{l. spelled rs l \<and> length (label @ ''x'') \<le> length l} \<noteq> {l. spelled rs l \<and> length label \<le> length l}"
      by fast
  qed auto
  moreover have "finite {l. spelled rs l \<and> length label \<le> length l}"
    using finite_spelled [of rs] by (auto intro: finite_subset)
  ultimately show "((rs, label @ ''x''), (rs, label))
      \<in> measure (\<lambda>(rs, label). card {l. spelled rs l \<and> length label \<le> length l})"
    by (simp add: psubset_card_mono)
qed auto

declare fresh_from.simps [simp del]

definition freshLabel :: "rule list \<Rightarrow> string" where
  "freshLabel rs = fresh_from rs ''x''"

text \<open>\<open>strings.ReplaceAll(value, "*", fresh)\<close>.\<close>

definition ReplaceStar :: "string \<Rightarrow> string \<Rightarrow> string" where
  "ReplaceStar value fresh = concat (map (\<lambda>c. if c = CHR ''*'' then fresh else [c]) value)"

definition samples :: "rule \<Rightarrow> string \<Rightarrow> string list" where
  "samples r fresh =
     (let v = dst_Value (rule_Destination r) in
      case dst_Kind (rule_Destination r) of
        DestinationGroup \<Rightarrow> [fresh]
      | DestinationDomain \<Rightarrow> [ReplaceStar v fresh]
      | DestinationDomainSuffix \<Rightarrow> [v, fresh @ ''.'' @ v]
      | _ \<Rightarrow> [])"

definition Resolves :: "policy \<Rightarrow> bool" where
  "Resolves p =
     (let fresh = freshLabel (pol_Rules p) in
      list_ex (\<lambda>r. rule_Action r = ActionAllow
                   \<and> list_ex (\<lambda>name. resolves (pol_Rules p) name) (samples r fresh)) (pol_Rules p))"

subsection \<open>The first matching rule decides\<close>

interpretation dw: first_match "decide_walk sb" "\<lambda>er (host, port, a). matches (er_Rule er) host port a"
    "\<lambda>er _. by_rule sb er" "\<lambda>(host, _). default_deny sb host" for sb
  by unfold_locales auto

interpretation nw: first_match "name_walk sb" "\<lambda>er name. matchesName (er_Rule er) name"
    "\<lambda>er _. by_rule sb er" "default_deny sb" for sb
  by unfold_locales auto

interpretation rw: first_match resolves matchesName "\<lambda>r _. rule_Action r = ActionAllow" "\<lambda>_. False"
  by unfold_locales auto

lemmas decision_defs = by_rule_def default_deny_def deny_with_def missing_policy_def no_policy_def

lemma decision_actions [simp]:
  "dec_Action (by_rule sb er) = rule_Action (er_Rule er)" "dec_Action (default_deny sb h) = ActionDeny"
  "dec_Action (missing_policy sb) = ActionDeny" "dec_Action (deny_with i s) = ActionDeny"
  "dec_Action (no_policy sb) = ActionAllow"
  by (simp_all add: decision_defs)

lemma Effective_Inr:
  assumes "Effective gw d sb = Inr ef" "sb_Policy sb \<noteq> []"
  obtains (missing) "ef_Missing ef" "policy_Get (sb_Policy sb) d = Inl PolicyNotFound"
  | (found) p where "policy_Get (sb_Policy sb) d = Inr p" "\<not> ef_Missing ef" "ef_Rules ef = effective_rules gw p"
  using assms by (cases "policy_Get (sb_Policy sb) d") (auto simp: Effective_def split: if_splits)

lemma map_er_Rule_number [simp]: "map er_Rule (number_rules i ers) = map er_Rule ers"
  by (induction i ers rule: number_rules.induct) simp_all

lemma length_number_rules [simp]: "length (number_rules i ers) = length ers"
  by (induction i ers rule: number_rules.induct) simp_all

lemma nth_number_rules:
  "k < length ers \<Longrightarrow> number_rules i ers ! k = (ers ! k)\<lparr>er_ID := Itoa (int (i + k) + 1)\<rparr>"
  by (induction i ers arbitrary: k rule: number_rules.induct) (auto simp: nth_Cons algebra_simps split: nat.splits)

lemma effective_rules_rules:
  "map er_Rule (effective_rules gw p) =
     (if OpensDNS p then [dns_rule gw ''udp'', dns_rule gw ''tcp''] else []) @ pol_Rules p"
  by (simp add: effective_rules_def Let_def comp_def)

text \<open>C1: the proxy lets a connection out only past the floor and by the policy. If \<open>Decide\<close> allows,
  the address is in no private range and is not the host's own, and either the sandbox has no policy
  or its policy reads and the first effective rule that matches is an allow rule.\<close>

theorem Decide_allow:
  assumes "Decide gw d owned sb host port a = Inr dec" "dec_Action dec = ActionAllow"
  shows "\<not> prefixes_contain Private a \<and> \<not> owned_Contains owned a
    \<and> (sb_Policy sb = [] \<or>
       (\<exists>p pre er post. policy_Get (sb_Policy sb) d = Inr p
          \<and> effective_rules gw p = pre @ er # post
          \<and> (\<forall>e \<in> set pre. \<not> matches (er_Rule e) host port a)
          \<and> matches (er_Rule er) host port a \<and> rule_Action (er_Rule er) = ActionAllow
          \<and> dec_ID dec = er_ID er))"
proof -
  have floor: "\<not> prefixes_contain Private a" "\<not> owned_Contains owned a"
    using assms by (auto simp: Decide_def split: if_splits)
  moreover have "\<exists>p pre er post. policy_Get (sb_Policy sb) d = Inr p
      \<and> effective_rules gw p = pre @ er # post \<and> (\<forall>e \<in> set pre. \<not> matches (er_Rule e) host port a)
      \<and> matches (er_Rule er) host port a \<and> rule_Action (er_Rule er) = ActionAllow \<and> dec_ID dec = er_ID er"
    if pol: "sb_Policy sb \<noteq> []"
  proof -
    obtain ef where ef: "Effective gw d sb = Inr ef" "\<not> ef_Missing ef" "dec = decide_walk sb (ef_Rules ef) (host, port, a)"
      using assms floor pol by (auto simp: Decide_def split: if_splits sum.splits)
    then obtain p where p: "policy_Get (sb_Policy sb) d = Inr p" "ef_Rules ef = effective_rules gw p"
      using Effective_Inr [OF ef(1) pol] by auto
    show ?thesis
    proof (cases rule: dw.walk_cases [of "ef_Rules ef" "(host, port, a)" sb])
      case none
      then show ?thesis using assms(2) ef(3) by simp
    next
      case (first pre er post)
      then show ?thesis using assms(2) ef(3) p by (auto simp: by_rule_def intro!: exI [of _ p] exI [of _ pre])
    qed
  qed
  ultimately show ?thesis by blast
qed

subsection \<open>What needs no lookup\<close>

lemma any_contains_V4 [simp]: "prefixes_contain (group_prefixes ''any'') (V4 a)"
  by (simp add: prefixes_contain_def group_prefixes_def Groups_def pfx_Contains_0)

lemma dns_contains_none [simp]: "\<not> prefixes_contain (group_prefixes ''dns'') a"
  by (simp add: prefixes_contain_def group_prefixes_def Groups_def)

lemma nameDecidesHTTP_matches: "nameDecidesHTTP r host port \<Longrightarrow> matches r host port (V4 a)"
  by (auto simp: nameDecidesHTTP_def matches_def GroupAny_def Let_def split: if_splits dest_kind.splits)

lemma matches_decided:
  assumes "matches r host port a" "rule_Action r \<noteq> ActionDeny" "rule_Action r \<in> {ActionAllow, ActionDeny}"
  shows "nameDecidesHTTP r host port \<or> mightAllowByAddress r port"
  using assms
  by (auto simp: matches_def nameDecidesHTTP_def mightAllowByAddress_def GroupDNS_def Let_def
      split: if_splits dest_kind.splits)

lemma unresolved_walk_deny:
  assumes "unresolved_walk sb host port ers = Some dec"
    and "\<forall>er \<in> set ers. rule_Action (er_Rule er) \<in> {ActionAllow, ActionDeny}"
  shows "dec_Action (decide_walk sb ers (host, port, V4 a)) = ActionDeny"
  using assms
proof (induction ers)
  case (Cons er ers)
  show ?case
  proof (cases "matches (er_Rule er) host port (V4 a)")
    case True
    then have "rule_Action (er_Rule er) = ActionDeny"
      using Cons.prems matches_decided [OF True] by (auto split: if_splits)
    then show ?thesis using True by simp
  next
    case False
    then have "\<not> nameDecidesHTTP (er_Rule er) host port" using nameDecidesHTTP_matches by blast
    then show ?thesis using False Cons by (auto split: if_splits)
  qed
next
  case Nil
  show ?case by simp
qed

lemma policy_rule_actions:
  assumes "policy_Get n d = Inr p" "er \<in> set (effective_rules gw p)"
  shows "rule_Action (er_Rule er) \<in> {ActionAllow, ActionDeny}"
proof -
  have "er_Rule er \<in> set (map er_Rule (effective_rules gw p))" using assms(2) by auto
  then have "er_Rule er \<in> set (pol_Rules p) \<or> rule_Action (er_Rule er) = ActionAllow"
    unfolding effective_rules_rules by (auto simp: dns_rule_def split: if_splits)
  then show ?thesis
    using policy_Get_valid [OF assms(1)] by (auto simp: canonical_rule_def validRule_iff)
qed

lemma Unresolved_deny: "Unresolved gw d sb host port = Inr (Some dec) \<Longrightarrow> dec_Action dec = ActionDeny"
proof -
  assume u: "Unresolved gw d sb host port = Inr (Some dec)"
  have "pred_option (\<lambda>dec. dec_Action dec = ActionDeny) (unresolved_walk sb host port ers)" for ers
    by (induction ers) simp_all
  then show ?thesis using u by (auto simp: Unresolved_def pred_option_def split: if_splits sum.splits)
qed

text \<open>C6: a deny \<open>Unresolved\<close> calls final is one: whatever IPv4 address the host would resolve to, and
  whatever the host owns, \<open>Decide\<close> denies the connection. So refusing it without a lookup changes
  no verdict.\<close>

theorem Unresolved_final:
  assumes "Unresolved gw d sb host port = Inr (Some dec)"
  shows "dec_Action dec = ActionDeny
    \<and> (\<exists>dec'. Decide gw d owned sb host port (V4 a) = Inr dec' \<and> dec_Action dec' = ActionDeny)"
proof -
  have pol: "sb_Policy sb \<noteq> []" using assms by (auto simp: Unresolved_def)
  then obtain ef where ef: "Effective gw d sb = Inr ef"
    using assms by (auto simp: Unresolved_def split: sum.splits)
  have "dec_Action dec = ActionDeny" by (rule Unresolved_deny [OF assms])
  moreover have "\<exists>dec'. Decide gw d owned sb host port (V4 a) = Inr dec' \<and> dec_Action dec' = ActionDeny"
  proof (cases rule: Effective_Inr [OF ef pol])
    case 1
    then show ?thesis using pol ef by (simp add: Decide_def)
  next
    case (2 p)
    then have "unresolved_walk sb host port (ef_Rules ef) = Some dec"
      using assms pol ef by (simp add: Unresolved_def)
    then have "dec_Action (decide_walk sb (ef_Rules ef) (host, port, V4 a)) = ActionDeny"
      using unresolved_walk_deny policy_rule_actions [OF 2(1)] 2(3) by auto
    then show ?thesis using pol ef 2 by (simp add: Decide_def)
  qed
  ultimately show ?thesis ..
qed

text \<open>A policy the witnesses read: it denies one host of a suffix and allows the others.\<close>

definition example_policies :: policy_dir where
  "example_policies =
     [(''web.json'', File (Some \<lparr>pol_Name = ''web'', pol_Rules =
        [\<lparr>rule_Action = ActionDeny, rule_Destination = \<lparr>dst_Kind = DestinationDomain, dst_Value = ''x.a.io''\<rparr>,
          rule_Protocol = ''tcp'', rule_Ports = [80, 443]\<rparr>,
         \<lparr>rule_Action = ActionAllow, rule_Destination = \<lparr>dst_Kind = DestinationDomainSuffix, dst_Value = ''a.io''\<rparr>,
          rule_Protocol = ''tcp'', rule_Ports = [80, 443]\<rparr>]\<rparr>))]"

definition example_sandbox :: sandbox where
  "example_sandbox = zero_sandbox\<lparr>sb_ID := ''sb1'', sb_Policy := ''web''\<rparr>"

theorem Decide_allow_witness:
  "\<exists>dec. Decide 0x0a580001 example_policies (Some []) example_sandbox ''y.a.io'' 80 (V4 0x5db8d822) = Inr dec
     \<and> dec_Action dec = ActionAllow \<and> \<not> prefixes_contain Private (V4 0x5db8d822)"
proof -
  obtain dec where dec: "Decide 0x0a580001 example_policies (Some []) example_sandbox ''y.a.io'' 80 (V4 0x5db8d822) = Inr dec"
    "dec_Action dec = ActionAllow"
  proof
    show "Decide 0x0a580001 example_policies (Some []) example_sandbox ''y.a.io'' 80 (V4 0x5db8d822) =
      Inr (by_rule example_sandbox (effective_rules 0x0a580001 (projr (policy_Get ''web'' example_policies)) ! 3))"
      by code_simp
    show "dec_Action (by_rule example_sandbox (effective_rules 0x0a580001 (projr (policy_Get ''web'' example_policies)) ! 3))
      = ActionAllow" by code_simp
  qed
  with Decide_allow [OF dec] show ?thesis by blast
qed

theorem Unresolved_final_witness:
  "\<exists>dec. Unresolved 0x0a580001 example_policies example_sandbox ''b.io'' 80 = Inr (Some dec) \<and> dec_Action dec = ActionDeny"
proof -
  have u: "Unresolved 0x0a580001 example_policies example_sandbox ''b.io'' 80 = Inr (Some (default_deny example_sandbox ''b.io''))"
    by code_simp
  show ?thesis using u Unresolved_final [OF u] by blast
qed

subsection \<open>Rules as patterns over labels\<close>

text \<open>Every rule that speaks for names is a list of labels to find at the end of the name, and how many
  labels may stand before them.\<close>

definition pat_hits :: "nat set \<Rightarrow> string list \<Rightarrow> string list \<Rightarrow> bool" where
  "pat_hits E ws gs = (\<exists>pre post. gs = pre @ post \<and> length pre \<in> E \<and> list_all2 label_hits ws post)"

lemma pat_hits_exact: "pat_hits {0} ws gs \<longleftrightarrow> list_all2 label_hits ws gs"
  by (simp add: pat_hits_def)

lemma pat_hits_under: "pat_hits {Suc 0..} ws gs \<longleftrightarrow>
    (\<exists>pre post. gs = pre @ post \<and> pre \<noteq> [] \<and> list_all2 label_hits ws post)"
  by (simp add: pat_hits_def Suc_le_eq)

lemma pat_hits_all [simp]: "pat_hits UNIV [] gs"
  by (auto simp: pat_hits_def)

lemma under_labels: "under v name \<longleftrightarrow> (\<exists>pre. host_labels name = pre @ host_labels v)"
proof
  assume "under v name"
  then consider "name = v" | r where "name = r @ CHR ''.'' # v" by (auto simp: under_def HasSuffix_iff)
  then show "\<exists>pre. host_labels name = pre @ host_labels v"
    by cases (auto simp: host_labels_def Split_append_sep)
next
  assume "\<exists>pre. host_labels name = pre @ host_labels v"
  then obtain pre where pre: "Split name (CHR ''.'') = pre @ Split v (CHR ''.'')" by (auto simp: host_labels_def)
  show "under v name"
  proof (cases "pre = []")
    case True
    then have "host_labels name = host_labels v" using pre by (simp add: host_labels_def)
    then show ?thesis by (simp add: under_def)
  next
    case False
    then show ?thesis using Split_suffix [OF pre False] by (simp add: under_def Join_Split)
  qed
qed

lemma pat_hits_suffix: "''*'' \<notin> set ws \<Longrightarrow> pat_hits UNIV ws gs \<longleftrightarrow> (\<exists>pre. gs = pre @ ws)"
proof
  assume "''*'' \<notin> set ws" "pat_hits UNIV ws gs"
  then show "\<exists>pre. gs = pre @ ws" by (auto simp: pat_hits_def dest: label_hits_exact)
next
  assume "\<exists>pre. gs = pre @ ws"
  moreover have "list_all2 label_hits ws ws" by (simp add: list_all2_same)
  ultimately show "pat_hits UNIV ws gs" by (auto simp: pat_hits_def)
qed

definition name_shape :: "nat set \<Rightarrow> string list \<Rightarrow> bool" where
  "name_shape E ws = (E \<in> {{0}, {Suc 0..}, UNIV} \<and> (E \<noteq> {Suc 0..} \<longrightarrow> ws = [] \<or> hd ws \<noteq> ''*''))"

lemma domain_pattern:
  assumes "plain_host v"
  obtains E ws where "name_shape E ws" "set ws \<subseteq> set (host_labels v)"
    "\<forall>name. MatchHost v name \<longleftrightarrow> pat_hits E ws (host_labels name)"
    "E = {0} \<and> ws = host_labels v \<or> E = {Suc 0..} \<and> host_labels v = ''*'' # ws"
proof -
  obtain w rest where v: "host_labels v = w # rest" "rest \<noteq> []"
    using assms by (auto simp: plain_host_def Suc_le_length_iff numeral_2_eq_2)
  show ?thesis
  proof (cases "w = ''*''")
    case True
    then show ?thesis
      using that [of "{Suc 0..}" rest] v MatchHost_wild [of v rest]
      by (auto simp: name_shape_def pat_hits_under)
  next
    case False
    have "v \<noteq> ''*''" using v by (auto simp: host_labels_def)
    then show ?thesis
      using that [of "{0}" "host_labels v"] v False MatchHost_labels [of v]
      by (auto simp: name_shape_def pat_hits_exact)
  qed
qed

lemma canonical_dest:
  assumes "canonical_rule r"
  shows "dst_Kind (rule_Destination r) = DestinationDomain \<Longrightarrow>
      dst_Value (rule_Destination r) = ''*'' \<or> plain_host (dst_Value (rule_Destination r))"
    and "dst_Kind (rule_Destination r) = DestinationDomainSuffix \<Longrightarrow>
      plain_host (dst_Value (rule_Destination r)) \<and> CHR ''*'' \<notin> set (dst_Value (rule_Destination r))"
  using assms
  by (auto simp: canonical_rule_def validRule_iff validRuleDestination_ok dest_ok_def canonicalHost_def named_def Let_def
      split: if_splits dest: arg_cong [where f = dst_Value])

lemma no_star_labels: "CHR ''*'' \<notin> set v \<Longrightarrow> ''*'' \<notin> set (host_labels v)"
  using Split_subset [of "''*''" v "CHR ''.''"] by (auto simp: host_labels_def)

text \<open>The names a canonical rule matches: none, or those of a pattern whose labels the rule spells.\<close>

lemma matchesName_pattern:
  assumes r: "canonical_rule r" and hit: "matchesName r name0"
  obtains E ws where "name_shape E ws" "set ws \<subseteq> set (host_labels (dst_Value (rule_Destination r)))"
    "\<forall>name. matchesName r name \<longleftrightarrow> pat_hits E ws (host_labels name)"
proof -
  let ?v = "dst_Value (rule_Destination r)"
  have name: "matchesName r name = (case dst_Kind (rule_Destination r) of
        DestinationGroup \<Rightarrow> ?v = GroupDNS \<or> anyLeavesDNS r
      | DestinationDomain \<Rightarrow> MatchHost ?v name | DestinationDomainSuffix \<Rightarrow> under ?v name | _ \<Rightarrow> False)" for name
    using hit by (auto simp: matchesName_def Let_def split: if_splits)
  show ?thesis
  proof (cases "dst_Kind (rule_Destination r)")
    case DestinationGroup
    then show ?thesis using that [of UNIV "[]"] name hit by (auto simp: name_shape_def)
  next
    case DestinationDomain
    then consider "?v = ''*''" | "plain_host ?v" using canonical_dest [OF r] by blast
    then show ?thesis
    proof cases
      case 1
      then show ?thesis using that [of UNIV "[]"] name DestinationDomain by (auto simp: name_shape_def MatchHost_def)
    next
      case 2
      show ?thesis by (rule domain_pattern [OF 2], rule that) (use name DestinationDomain in auto)
    qed
  next
    case DestinationDomainSuffix
    then have "''*'' \<notin> set (host_labels ?v)" using canonical_dest [OF r] no_star_labels by blast
    moreover from this have "hd (host_labels ?v) \<noteq> ''*''"
      by (metis hd_in_set Split_nonempty host_labels_def)
    ultimately show ?thesis using that [of UNIV "host_labels ?v"] name DestinationDomainSuffix
      by (auto simp: name_shape_def under_labels pat_hits_suffix)
  qed (use name hit in auto)
qed

subsection \<open>Samples\<close>

definition sub_star :: "string \<Rightarrow> string \<Rightarrow> string" where
  "sub_star f w = (if w = ''*'' then f else w)"

lemma hits_sub: "list_all2 label_hits ws (map (sub_star f) ws)"
  by (induction ws) (auto simp: sub_star_def)

text \<open>A pattern that does not spell the fresh label and hits a sample hits everything the sampled
  pattern hits.\<close>

lemma sub_hits:
  assumes "list_all2 label_hits vs (map (sub_star f) ws)" "list_all2 label_hits ws gs" "f \<notin> set vs"
  shows "list_all2 label_hits vs gs"
  using assms
proof (induction vs arbitrary: ws gs)
  case (Cons v vs)
  then obtain w ws' g gs' where "ws = w # ws'" "gs = g # gs'"
    by (cases ws; cases gs) auto
  then show ?case using Cons by (auto simp: sub_star_def split: if_splits)
qed auto

lemma list_all2_drop_suffixes:
  "list_all2 P ws post \<Longrightarrow> list_all2 P (drop k ws) (drop k post)"
  by (rule list_all2_dropI)

lemma suffix_drop:
  assumes "x @ m = a @ b" "length b \<le> length m"
  shows "b = drop (length m - length b) m"
proof -
  have "length x + length m - length b = length a"
    using arg_cong [OF assms(1), of length] by simp
  then have "b = drop (length x + length m - length b) (x @ m)" by (simp add: assms(1))
  then show ?thesis using assms(2) by simp
qed

lemma sample_shadowed:
  assumes r: "name_shape E ws" and gs: "gs = pre @ post" "length pre \<in> E" "list_all2 label_hits ws post"
    and d: "name_shape F vs" "f \<notin> set vs"
    and s: "s = (if pre = [] then [] else [f]) @ map (sub_star f) ws" "pat_hits F vs s"
  shows "pat_hits F vs gs"
proof -
  obtain a b where ab: "s = a @ b" "length a \<in> F" "list_all2 label_hits vs b"
    using s(2) by (auto simp: pat_hits_def)
  have len: "length post = length ws" using gs(3) by (auto dest: list_all2_lengthD)
  show ?thesis
  proof (cases "length b \<le> length ws")
    case True
    let ?k = "length ws - length b"
    have "b = drop ?k (map (sub_star f) ws)"
      using suffix_drop [of _ "map (sub_star f) ws" a b] ab(1) s(1) True by auto
    then have b: "b = map (sub_star f) (drop ?k ws)" by (simp add: drop_map)
    have "list_all2 label_hits vs (drop ?k post)"
      using sub_hits [of vs f "drop ?k ws" "drop ?k post"] ab(3) b gs(3) d(2) list_all2_drop_suffixes by auto
    moreover have "gs = (pre @ take ?k post) @ drop ?k post" using gs(1) by simp
    moreover have "length (pre @ take ?k post) \<in> F"
    proof -
      have "length a = (if pre = [] then 0 else 1) + ?k"
        using arg_cong [OF ab(1), of length] s(1) True by (auto split: if_splits)
      moreover have "length (pre @ take ?k post) = length pre + ?k" using len by simp
      ultimately show ?thesis using ab(2) d(1) by (cases pre) (auto simp: name_shape_def)
    qed
    ultimately show ?thesis unfolding pat_hits_def by blast
  next
    case False
    then have "length a + length b \<le> 1 + length ws" "pre \<noteq> []"
      using arg_cong [OF ab(1), of length] s(1) by (auto split: if_splits)
    then have "length a = 0" using False by linarith
    then have "a = []" "b = f # map (sub_star f) ws"
      using ab(1) s(1) \<open>pre \<noteq> []\<close> by auto
    then obtain v vs' where "vs = v # vs'" "v = ''*''"
      using ab(3) d(2) by (auto simp: list_all2_Cons2)
    then show ?thesis using d(1) ab(2) \<open>a = []\<close> by (auto simp: name_shape_def)
  qed
qed

lemma freshLabel_unspelled: "\<not> spelled rs (freshLabel rs)"
proof -
  have "\<not> spelled rs (fresh_from rs l)" for l
    by (induction rs l rule: fresh_from.induct) (subst fresh_from.simps, simp)
  then show ?thesis by (simp add: freshLabel_def)
qed

lemma freshLabel_chars: "set (freshLabel rs) = {CHR ''x''}"
proof -
  have "set l = {CHR ''x''} \<Longrightarrow> set (fresh_from rs l) = {CHR ''x''}" for l
    by (induction rs l rule: fresh_from.induct) (subst fresh_from.simps, simp)
  then show ?thesis by (simp add: freshLabel_def)
qed

lemma Split_append_nodot: "c \<notin> set f \<Longrightarrow> Split (f @ s) c = (f @ hd (Split s c)) # tl (Split s c)"
  by (induction f) (auto simp: Split_nonempty)

lemma ReplaceStar_labels:
  assumes "CHR ''.'' \<notin> set f"
  shows "host_labels (ReplaceStar v f) = map (\<lambda>l. ReplaceStar l f) (host_labels v)"
proof (induction v)
  case (Cons c v)
  obtain w ws where v: "host_labels v = w # ws" by (metis Split_nonempty host_labels_def neq_Nil_conv)
  consider "c = CHR ''.''" | "c = CHR ''*''" | "c \<noteq> CHR ''.''" "c \<noteq> CHR ''*''" by blast
  then show ?case
    by cases (use Cons v assms in \<open>simp_all add: host_labels_def ReplaceStar_def Split_append_nodot\<close>)
qed (simp add: host_labels_def ReplaceStar_def)

lemma ReplaceStar_label: "l = ''*'' \<or> labelShape l \<Longrightarrow> ReplaceStar l f = sub_star f l"
proof -
  have "CHR ''*'' \<notin> set l \<Longrightarrow> ReplaceStar l f = l"
    by (induction l) (auto simp: ReplaceStar_def)
  moreover have "labelShape l \<Longrightarrow> CHR ''*'' \<notin> set l"
    using labelShape_char [of l "CHR ''*''"] by (auto simp: char_class_defs)
  ultimately show "l = ''*'' \<or> labelShape l \<Longrightarrow> ReplaceStar l f = sub_star f l"
    by (auto simp: sub_star_def ReplaceStar_def)
qed

lemma ReplaceStar_host:
  assumes "plain_host v" "CHR ''.'' \<notin> set f"
  shows "host_labels (ReplaceStar v f) = map (sub_star f) (host_labels v)"
  using assms ReplaceStar_label by (auto simp: ReplaceStar_labels plain_host_def)

lemma spelled_labels:
  "\<not> spelled rs f \<Longrightarrow> r \<in> set rs \<Longrightarrow> f \<notin> set (host_labels (dst_Value (rule_Destination r)))"
  by (auto simp: spelled_def list_ex_iff host_labels_def)

text \<open>Every name a rule matches has a sample in its place: one with the shape of the rule's pattern.\<close>

lemma rule_sample:
  assumes r: "canonical_rule r" and hit: "matchesName r n" and f: "CHR ''.'' \<notin> set f"
  obtains E ws pre post s where "name_shape E ws" "\<forall>name. matchesName r name \<longleftrightarrow> pat_hits E ws (host_labels name)"
    "host_labels n = pre @ post" "length pre \<in> E" "list_all2 label_hits ws post"
    "s \<in> set (samples r f)" "host_labels s = (if pre = [] then [] else [f]) @ map (sub_star f) ws"
proof -
  let ?v = "dst_Value (rule_Destination r)"
  have name: "matchesName r name = (case dst_Kind (rule_Destination r) of
        DestinationGroup \<Rightarrow> ?v = GroupDNS \<or> anyLeavesDNS r
      | DestinationDomain \<Rightarrow> MatchHost ?v name | DestinationDomainSuffix \<Rightarrow> under ?v name | _ \<Rightarrow> False)" for name
    using hit by (auto simp: matchesName_def Let_def split: if_splits)
  have one: "host_labels f = [f]" using f by (simp add: host_labels_def)
  have ne: "host_labels n \<noteq> []" by (simp add: host_labels_def)
  show ?thesis
  proof (cases "dst_Kind (rule_Destination r)")
    case DestinationGroup
    then show ?thesis using that [of UNIV "[]" "host_labels n" "[]" f] name hit one ne
      by (auto simp: name_shape_def samples_def)
  next
    case DestinationDomain
    then consider "?v = ''*''" | "plain_host ?v" using canonical_dest [OF r] by blast
    then show ?thesis
    proof cases
      case 1
      then show ?thesis using that [of UNIV "[]" "host_labels n" "[]" f] name DestinationDomain one ne
        by (auto simp: name_shape_def MatchHost_def samples_def ReplaceStar_def)
    next
      case 2
      obtain E ws where E: "name_shape E ws" "set ws \<subseteq> set (host_labels ?v)"
        "\<forall>name. MatchHost ?v name \<longleftrightarrow> pat_hits E ws (host_labels name)"
        "E = {0} \<and> ws = host_labels ?v \<or> E = {Suc 0..} \<and> host_labels ?v = ''*'' # ws"
        by (rule domain_pattern [OF 2])
      have hits: "pat_hits E ws (host_labels n)" using hit name E(3) DestinationDomain by simp
      obtain pre post where n: "host_labels n = pre @ post" "length pre \<in> E" "list_all2 label_hits ws post"
        using hits by (auto simp: pat_hits_def)
      have "host_labels (ReplaceStar ?v f) = (if pre = [] then [] else [f]) @ map (sub_star f) ws"
        using E(4) n(2) ReplaceStar_host [OF 2 f] by (auto simp: sub_star_def)
      then show ?thesis using that [where s = "ReplaceStar ?v f", OF E(1) _ n] E(3) name DestinationDomain
        by (auto simp: samples_def)
    qed
  next
    case DestinationDomainSuffix
    let ?ws = "host_labels ?v"
    have nostar: "''*'' \<notin> set ?ws" using canonical_dest [OF r] DestinationDomainSuffix no_star_labels by blast
    have "hd ?ws \<noteq> ''*''" by (metis nostar hd_in_set Split_nonempty host_labels_def)
    then have shape: "name_shape UNIV ?ws" by (simp add: name_shape_def)
    obtain pre where n: "host_labels n = pre @ ?ws"
      using hit name DestinationDomainSuffix by (auto simp: under_labels)
    have sub: "map (sub_star f) ?ws = ?ws" using nostar by (intro map_idI) (auto simp: sub_star_def)
    have ext: "host_labels (f @ ''.'' @ ?v) = f # ?ws" using f by (simp add: host_labels_def)
    show ?thesis
      by (rule that [where s = "if pre = [] then ?v else f @ ''.'' @ ?v", OF shape _ n])
        (use name DestinationDomainSuffix nostar sub ext in
          \<open>simp_all add: under_labels pat_hits_suffix list_all2_same samples_def Let_def\<close>)
  qed (use name hit in auto)
qed

lemma resolves_sample:
  assumes rules: "\<forall>r \<in> set rs. canonical_rule r" and n: "resolves rs n"
  obtains r s where "r \<in> set rs" "rule_Action r = ActionAllow" "s \<in> set (samples r (freshLabel rs))" "resolves rs s"
proof (cases rule: rw.walk_cases [of rs n])
  case none
  then show ?thesis using n by simp
next
  case (first before r rest)
  let ?f = "freshLabel rs"
  have allow: "rule_Action r = ActionAllow" using first n by simp
  have r: "canonical_rule r" and dot: "CHR ''.'' \<notin> set ?f" using first rules freshLabel_chars by auto
  obtain E ws pre post s where s: "name_shape E ws" "\<forall>name. matchesName r name \<longleftrightarrow> pat_hits E ws (host_labels name)"
    "host_labels n = pre @ post" "length pre \<in> E" "list_all2 label_hits ws post"
    "s \<in> set (samples r ?f)" "host_labels s = (if pre = [] then [] else [?f]) @ map (sub_star ?f) ws"
    by (rule rule_sample [OF r first(3) dot])
  have "\<not> matchesName d s" if d: "d \<in> set before" for d
  proof
    assume hit: "matchesName d s"
    have "canonical_rule d" "d \<in> set rs" using d first rules by auto
    obtain F vs where F: "name_shape F vs" "set vs \<subseteq> set (host_labels (dst_Value (rule_Destination d)))"
      "\<forall>name. matchesName d name \<longleftrightarrow> pat_hits F vs (host_labels name)"
      by (rule matchesName_pattern [OF \<open>canonical_rule d\<close> hit])
    have "?f \<notin> set vs" using spelled_labels [OF freshLabel_unspelled \<open>d \<in> set rs\<close>] F(2) by blast
    then have "pat_hits F vs (host_labels n)"
      using sample_shadowed [OF s(1,3,4,5) F(1) _ s(7)] F(3) hit by blast
    then show False using first(2) d F(3) by blast
  qed
  moreover have "pat_hits E ws (host_labels s)"
    unfolding pat_hits_def s(7)
    by (intro exI conjI, rule refl) (use s(1,4) hits_sub [of ws ?f] in \<open>auto simp: name_shape_def\<close>)
  ultimately have "resolves rs s"
    using rw.walk_first [of before s r rest] first(1) s(2) allow by simp
  then show ?thesis using that [of r s] first(1) allow s(6) by simp
qed

lemma Resolves_iff:
  assumes "\<forall>r \<in> set (pol_Rules p). canonical_rule r"
  shows "Resolves p \<longleftrightarrow> (\<exists>name. resolves (pol_Rules p) name)"
  using resolves_sample [OF assms] by (fastforce simp: Resolves_def Let_def list_ex_iff)

lemma dns_rule_no_name: "\<not> matchesName (dns_rule gw proto) name"
  by (simp add: matchesName_def dns_rule_def)

lemma name_walk_resolves:
  assumes "\<forall>r \<in> set (map er_Rule ers). rule_Action r \<in> {ActionAllow, ActionDeny}"
  shows "dec_Action (name_walk sb ers name) = ActionAllow \<longleftrightarrow> resolves (map er_Rule ers) name"
  using assms by (induction ers) auto

lemma DecideName_resolves:
  assumes p: "policy_Get (sb_Policy sb) d = Inr p" and pol: "sb_Policy sb \<noteq> []"
  shows "(\<exists>dec. DecideName gw d sb name = Inr dec \<and> dec_Action dec = ActionAllow) \<longleftrightarrow> resolves (pol_Rules p) name"
proof -
  have "DecideName gw d sb name = Inr (name_walk sb (effective_rules gw p) name)"
    using p pol by (simp add: DecideName_def Effective_def)
  moreover have "dec_Action (name_walk sb (effective_rules gw p) name) = ActionAllow
      \<longleftrightarrow> resolves (map er_Rule (effective_rules gw p)) name"
    using policy_rule_actions [OF p] by (intro name_walk_resolves) auto
  ultimately show ?thesis by (simp add: effective_rules_rules dns_rule_no_name)
qed

text \<open>C4: \<open>Resolves\<close> is exact. It asks only the samples of the allow rules, and answers yes precisely
  when there is some name \<open>DecideName\<close> allows for a sandbox under the policy.\<close>

theorem Resolves_exact:
  assumes "policy_Get (sb_Policy sb) d = Inr p" "sb_Policy sb \<noteq> []"
  shows "Resolves p \<longleftrightarrow> (\<exists>name dec. DecideName gw d sb name = Inr dec \<and> dec_Action dec = ActionAllow)"
  using Resolves_iff [of p] policy_Get_valid [OF assms(1)] DecideName_resolves [OF assms] by blast

theorem Resolves_exact_witness:
  "Resolves (projr (policy_Get ''web'' example_policies))
   \<and> (\<exists>name dec. DecideName 0x0a580001 example_policies example_sandbox name = Inr dec \<and> dec_Action dec = ActionAllow)"
proof -
  have p: "policy_Get (sb_Policy example_sandbox) example_policies = Inr (projr (policy_Get ''web'' example_policies))"
    by code_simp
  have r: "Resolves (projr (policy_Get ''web'' example_policies))" by code_simp
  have "sb_Policy example_sandbox \<noteq> []" by code_simp
  then show ?thesis using Resolves_exact [OF p, of "0x0a580001"] r by blast
qed

subsection \<open>The proxy and the resolver agree\<close>

lemma closesName_matches:
  assumes "matchesName r host" "rule_Action r = ActionDeny" "port \<in> set webPorts" "canonical_rule r"
  shows "matches r host port (V4 a)"
proof -
  have "tcp_port r port"
    using assms(1-3) by (auto simp: matchesName_def closesName_def tcp_port_def list_all_iff split: if_splits)
  moreover have "dst_Kind (rule_Destination r) = DestinationGroup \<Longrightarrow> dst_Value (rule_Destination r) = ''any''"
    using assms(2,4) by (auto simp: canonical_rule_def validRule_iff validRuleDestination_ok dest_ok_def Let_def)
  ultimately show ?thesis
    using assms(1) by (auto simp: matches_def matchesName_def Let_def split: if_splits dest_kind.splits)
qed

lemma named_matchesName:
  "matches r host port a \<Longrightarrow> named (dst_Kind (rule_Destination r)) \<Longrightarrow> rule_Action r = ActionAllow \<Longrightarrow> matchesName r host"
  by (auto simp: matches_def matchesName_def named_def Let_def split: if_splits)

lemma name_walk_follows:
  assumes "dec_Action (decide_walk sb ers (host, port, V4 a)) = ActionAllow"
    and "dec_Rule (decide_walk sb ers (host, port, V4 a)) = Some er" "named (dst_Kind (rule_Destination (er_Rule er)))"
    and "port \<in> set webPorts"
    and "\<forall>e \<in> set ers. rule_Action (er_Rule e) = ActionAllow \<or> rule_Action (er_Rule e) = ActionDeny \<and> canonical_rule (er_Rule e)"
  shows "dec_Action (name_walk sb ers host) = ActionAllow"
  using assms
proof (induction ers)
  case (Cons e ers)
  show ?case
  proof (cases "matchesName (er_Rule e) host")
    case True
    then show ?thesis
      using closesName_matches [of "er_Rule e" host port a] Cons.prems by (auto split: if_splits)
  next
    case False
    then have "\<not> matches (er_Rule e) host port (V4 a)"
      using Cons.prems named_matchesName by (auto simp: by_rule_def split: if_splits)
    then show ?thesis using False Cons by simp
  qed
qed simp

text \<open>C7: a connection a name rule opens can be looked up. If \<open>Decide\<close> lets a sandbox reach a host on a
  web port by a domain or suffix rule, \<open>DecideName\<close> lets the sandbox resolve that host.\<close>

theorem Decide_name_resolvable:
  assumes "Decide gw d owned sb host port (V4 a) = Inr dec" "dec_Action dec = ActionAllow"
    and "dec_Rule dec = Some er" "named (dst_Kind (rule_Destination (er_Rule er)))" "port \<in> set webPorts"
  shows "\<exists>dec'. DecideName gw d sb host = Inr dec' \<and> dec_Action dec' = ActionAllow"
proof -
  have pol: "sb_Policy sb \<noteq> []"
    using assms(1,3) by (auto simp: Decide_def deny_with_def no_policy_def split: if_splits)
  then obtain ef where ef: "Effective gw d sb = Inr ef" "\<not> ef_Missing ef" "dec = decide_walk sb (ef_Rules ef) (host, port, V4 a)"
    using assms(1,2) by (auto simp: Decide_def split: if_splits sum.splits)
  then obtain p where p: "policy_Get (sb_Policy sb) d = Inr p" "ef_Rules ef = effective_rules gw p"
    using Effective_Inr [OF ef(1) pol] by auto
  have "\<forall>e \<in> set (effective_rules gw p). rule_Action (er_Rule e) = ActionAllow
      \<or> rule_Action (er_Rule e) = ActionDeny \<and> canonical_rule (er_Rule e)"
  proof
    fix e assume e: "e \<in> set (effective_rules gw p)"
    then have "er_Rule e \<in> set (map er_Rule (effective_rules gw p))" by auto
    then have "er_Rule e \<in> set (pol_Rules p) \<or> rule_Action (er_Rule e) = ActionAllow"
      unfolding effective_rules_rules by (auto simp: dns_rule_def split: if_splits)
    then show "rule_Action (er_Rule e) = ActionAllow \<or> rule_Action (er_Rule e) = ActionDeny \<and> canonical_rule (er_Rule e)"
      using policy_Get_valid [OF p(1)] policy_rule_actions [OF p(1) e] by auto
  qed
  then have "dec_Action (name_walk sb (ef_Rules ef) host) = ActionAllow"
    using name_walk_follows [of sb "ef_Rules ef" host port a er] assms ef(3) p(2) by simp
  then show ?thesis using pol ef by (simp add: DecideName_def)
qed

theorem Decide_name_resolvable_witness:
  "\<exists>dec. DecideName 0x0a580001 example_policies example_sandbox ''y.a.io'' = Inr dec \<and> dec_Action dec = ActionAllow"
proof -
  let ?er = "effective_rules 0x0a580001 (projr (policy_Get ''web'' example_policies)) ! 3"
  have "Decide 0x0a580001 example_policies (Some []) example_sandbox ''y.a.io'' 80 (V4 0x5db8d822)
      = Inr (by_rule example_sandbox ?er)" by code_simp
  moreover have "rule_Action (er_Rule ?er) = ActionAllow" "named (dst_Kind (rule_Destination (er_Rule ?er)))"
    "80 \<in> set webPorts" by code_simp+
  moreover have "dec_Rule (by_rule example_sandbox ?er) = Some ?er" by (simp add: by_rule_def)
  ultimately show ?thesis by (intro Decide_name_resolvable) simp_all
qed

end
