(* ===== verification/Chains.thy ===== *)
theory Chains
  imports Decide
begin

text \<open>
  How a policy reaches the packet path: \<open>compile\<close>, \<open>compileChain\<close> and \<open>Chains\<close> of
  \<open>services/egress/compile.go\<close>, and \<open>Judge\<close> of \<open>services/network/judge.go\<close>, which answers
  for one flow what the host's chains answer on Linux.

  The resolver the host asks is outside the repository: \<open>lookup\<close> is what it answers for a name,
  \<^term>\<open>None\<close> when it fails. \<open>fp\<close> is the fingerprint of a rule's text, the hash of \<open>RuleSum\<close>.
\<close>

record compiled =
  co_ID :: string
  co_Sum :: string
  co_Action :: action
  co_Protocol :: string
  co_Ports :: "int list"
  co_Prefixes :: "prefix list"

record chain =
  ch_Address :: addr
  ch_Policy :: bool
  ch_Rules :: "compiled list"

datatype compile_error =
    CompileCIDR rule_error | LookupFailed string | NoIPv4Address string | CannotEnforce

type_synonym lookup = "string \<Rightarrow> addr list option"

subsection \<open>One rule\<close>

fun addr4 :: "prefix \<Rightarrow> u32" where
  "addr4 (Prefix (V4 a) b) = a"
| "addr4 _ = 0"

definition resolve :: "lookup \<Rightarrow> string \<Rightarrow> compile_error + prefix list" where
  "resolve lookup host =
     (case lookup host of
        None \<Rightarrow> Inl (LookupFailed host)
      | Some addrs \<Rightarrow>
          (let prefixes = map (\<lambda>a. PrefixFrom a (int (BitLen a))) (filter Is4 (map Unmap addrs))
           in if prefixes = [] then Inl (NoIPv4Address host)
              else Inr (remdups_adj (sort_key addr4 prefixes))))"

definition egress_Lookup :: "lookup \<Rightarrow> string \<Rightarrow> compile_error + addr list" where
  "egress_Lookup lookup host =
     (case resolve lookup host of Inl e \<Rightarrow> Inl e | Inr ps \<Rightarrow> Inr (map pfx_addr ps))"

definition RuleSum :: "(string \<Rightarrow> string) \<Rightarrow> rule \<Rightarrow> string" where
  "RuleSum fp r = fp (FormatRule r)"

definition compile :: "(string \<Rightarrow> string) \<Rightarrow> lookup \<Rightarrow> effective_rule \<Rightarrow> compile_error + compiled" where
  "compile fp lookup er =
     (let r = er_Rule er; v = dst_Value (rule_Destination r);
          base = \<lparr>co_ID = er_ID er, co_Sum = RuleSum fp r, co_Action = rule_Action r,
                  co_Protocol = rule_Protocol r, co_Ports = rule_Ports r, co_Prefixes = []\<rparr>
      in case dst_Kind (rule_Destination r) of
           DestinationCIDR \<Rightarrow>
             (case parseCIDR v of Inl e \<Rightarrow> Inl (CompileCIDR e) | Inr p \<Rightarrow> Inr (base\<lparr>co_Prefixes := [p]\<rparr>))
         | DestinationGroup \<Rightarrow> Inr (base\<lparr>co_Prefixes := group_prefixes v\<rparr>)
         | DestinationDomain \<Rightarrow>
             (if Contains v ''*'' then Inr base
              else case resolve lookup v of Inl e \<Rightarrow> Inl e | Inr ps \<Rightarrow> Inr (base\<lparr>co_Prefixes := ps\<rparr>))
         | DestinationDomainSuffix \<Rightarrow> Inr base
         | DestinationOther s \<Rightarrow> Inl CannotEnforce)"

text \<open>\<open>compileChain\<close>: every rule into the chain, or none.\<close>

fun compile_all ::
  "(string \<Rightarrow> string) \<Rightarrow> lookup \<Rightarrow> effective_rule list \<Rightarrow> compile_error + compiled list" where
  "compile_all fp lookup [] = Inr []"
| "compile_all fp lookup (er # ers) =
     (case compile fp lookup er of
        Inl e \<Rightarrow> Inl e
      | Inr c \<Rightarrow> (case compile_all fp lookup ers of Inl e \<Rightarrow> Inl e | Inr cs \<Rightarrow> Inr (c # cs)))"

definition compileChain ::
  "(string \<Rightarrow> string) \<Rightarrow> lookup \<Rightarrow> chain \<Rightarrow> effective_rule list \<Rightarrow> compile_error + chain" where
  "compileChain fp lookup c ers =
     (case compile_all fp lookup ers of
        Inl e \<Rightarrow> Inl e
      | Inr cs \<Rightarrow> Inr (c\<lparr>ch_Rules := ch_Rules c @ cs\<rparr>))"

definition Compiles :: "(string \<Rightarrow> string) \<Rightarrow> lookup \<Rightarrow> policy \<Rightarrow> compile_error + unit" where
  "Compiles fp lookup p =
     check_all (\<lambda>_ r. case compile fp lookup \<lparr>er_Rule = r, er_ID = [], er_Implied = []\<rparr> of
                        Inl e \<Rightarrow> Inl e | Inr _ \<Rightarrow> Inr ()) 0 (pol_Rules p)"

subsection \<open>Every sandbox\<close>

definition Fronted :: "sandbox \<Rightarrow> bool" where
  "Fronted sb = (sb_Policy sb \<noteq> [] \<or> sb_Secrets sb \<noteq> [])"

text \<open>\<open>good\<close>: the last whole chain of each policy sandbox and the rules it compiled from.\<close>

record good_chain =
  gc_rules :: "effective_rule list"
  gc_chain :: chain

type_synonym good = "(string \<times> good_chain) list"

datatype chains_error =
    NoAddress string | EffectiveError string policy_error | Cancelled string compile_error

datatype hold = OnLastGood | OnClosed

text \<open>One pass of the loop of \<open>Chains\<close>. The accumulator is the chains so far, why each held sandbox is
  held, and the ids compiled; \<open>cancelled\<close> is whether the context has ended by then.\<close>

record chains_acc =
  ac_chains :: "chain list"
  ac_held :: "(string \<times> hold) list"
  ac_compiled :: "string list"

definition base_chain :: "sandbox \<Rightarrow> chain" where
  "base_chain sb = \<lparr>ch_Address = pfx_addr (sb_Address sb), ch_Policy = (sb_Policy sb \<noteq> []), ch_Rules = []\<rparr>"

definition chains_pass ::
  "u32 \<Rightarrow> (string \<Rightarrow> string) \<Rightarrow> lookup \<Rightarrow> bool \<Rightarrow> policy_dir \<Rightarrow> sandbox \<Rightarrow> good \<Rightarrow> chains_acc
   \<Rightarrow> good \<times> (chains_error + chains_acc)" where
  "chains_pass gw fp lookup cancelled d sb good acc =
     (if Fronted sb \<and> Live (sb_State sb) \<and> \<not> pfx_IsValid (sb_Address sb)
      then (good, Inl (NoAddress (sb_ID sb)))
      else if \<not> Fronted sb \<or> \<not> pfx_IsValid (sb_Address sb) \<or> sb_State sb = StateFailed
      then (good, Inr acc)
      else let c = base_chain sb in
        if \<not> ch_Policy c then (good, Inr (acc\<lparr>ac_chains := ac_chains acc @ [c]\<rparr>))
        else case Effective gw d sb of
          Inl e \<Rightarrow> (good, Inl (EffectiveError (sb_ID sb) e))
        | Inr ef \<Rightarrow>
            let acc1 = acc\<lparr>ac_compiled := ac_compiled acc @ [sb_ID sb]\<rparr> in
            case compileChain fp lookup c (ef_Rules ef) of
              Inr whole \<Rightarrow>
                (AList.update (sb_ID sb) \<lparr>gc_rules = ef_Rules ef, gc_chain = whole\<rparr> good,
                 Inr (acc1\<lparr>ac_chains := ac_chains acc @ [whole]\<rparr>))
            | Inl e \<Rightarrow>
                if cancelled then (good, Inl (Cancelled (sb_ID sb) e))
                else case map_of good (sb_ID sb) of
                  Some prev \<Rightarrow>
                    if ch_Address (gc_chain prev) = ch_Address c \<and> gc_rules prev = ef_Rules ef
                    then (good, Inr (acc1\<lparr>ac_chains := ac_chains acc @ [gc_chain prev],
                                          ac_held := ac_held acc @ [(sb_ID sb, OnLastGood)]\<rparr>))
                    else (good, Inr (acc1\<lparr>ac_chains := ac_chains acc @ [c],
                                          ac_held := ac_held acc @ [(sb_ID sb, OnClosed)]\<rparr>))
                | None \<Rightarrow> (good, Inr (acc1\<lparr>ac_chains := ac_chains acc @ [c],
                                          ac_held := ac_held acc @ [(sb_ID sb, OnClosed)]\<rparr>)))"

fun chains_loop ::
  "u32 \<Rightarrow> (string \<Rightarrow> string) \<Rightarrow> lookup \<Rightarrow> bool \<Rightarrow> policy_dir \<Rightarrow> sandbox list \<Rightarrow> good \<Rightarrow> chains_acc
   \<Rightarrow> good \<times> (chains_error + chains_acc)" where
  "chains_loop gw fp lookup cancelled d [] good acc = (good, Inr acc)"
| "chains_loop gw fp lookup cancelled d (sb # sbs) good acc =
     (case chains_pass gw fp lookup cancelled d sb good acc of
        (good', Inl e) \<Rightarrow> (good', Inl e)
      | (good', Inr acc') \<Rightarrow> chains_loop gw fp lookup cancelled d sbs good' acc')"

text \<open>\<open>Chains\<close> over the records that read: it forgets the good chain of a sandbox it did not compile.\<close>

definition Chains ::
  "u32 \<Rightarrow> (string \<Rightarrow> string) \<Rightarrow> lookup \<Rightarrow> bool \<Rightarrow> policy_dir \<Rightarrow> sandbox list \<Rightarrow> good
   \<Rightarrow> good \<times> (chains_error + chain list \<times> (string \<times> hold) list)" where
  "Chains gw fp lookup cancelled d sbs good =
     (case chains_loop gw fp lookup cancelled d sbs good \<lparr>ac_chains = [], ac_held = [], ac_compiled = []\<rparr> of
        (good', Inl e) \<Rightarrow> (good', Inl e)
      | (good', Inr acc) \<Rightarrow>
          (filter (\<lambda>(id, _). id \<in> set (ac_compiled acc)) good', Inr (ac_chains acc, ac_held acc)))"

subsection \<open>The judge\<close>

record flow =
  fl_Guest :: addr
  fl_Destination :: addr
  fl_Port :: int
  fl_Protocol :: string

record verdict =
  ve_Allow :: bool
  ve_Rule :: string

record judge =
  ju_applied :: bool
  ju_chains :: "(addr \<times> chain) list"

definition judge_Apply :: "chain list \<Rightarrow> judge \<Rightarrow> judge" where
  "judge_Apply cs j =
     \<lparr>ju_applied = True, ju_chains = fold (\<lambda>c m. AList.update (ch_Address c) c m) cs []\<rparr>"

definition judge_Fronted :: "judge \<Rightarrow> addr \<Rightarrow> bool" where
  "judge_Fronted j guest = (map_of (ju_chains j) guest \<noteq> None)"

definition flow_matches :: "compiled \<Rightarrow> flow \<Rightarrow> bool" where
  "flow_matches c f =
     (if \<not> prefixes_contain (co_Prefixes c) (fl_Destination f) then False
      else if co_Protocol c \<noteq> [] \<and> co_Protocol c \<noteq> fl_Protocol f then False
      else co_Ports c = [] \<or> fl_Port f \<in> set (co_Ports c))"

fun judge_walk :: "compiled list \<Rightarrow> flow \<Rightarrow> verdict" where
  "judge_walk [] f = \<lparr>ve_Allow = False, ve_Rule = RuleDefault\<rparr>"
| "judge_walk (c # cs) f =
     (if flow_matches c f then \<lparr>ve_Allow = (co_Action c = ActionAllow), ve_Rule = co_ID c\<rparr>
      else judge_walk cs f)"

definition Judge :: "addr list option \<Rightarrow> judge \<Rightarrow> flow \<Rightarrow> verdict" where
  "Judge owned j f =
     (if owned_Contains owned (fl_Destination f) then \<lparr>ve_Allow = False, ve_Rule = RuleLocal\<rparr>
      else if prefixes_contain Private (fl_Destination f) then \<lparr>ve_Allow = False, ve_Rule = RulePrivate\<rparr>
      else if \<not> ju_applied j then \<lparr>ve_Allow = False, ve_Rule = RuleUnapplied\<rparr>
      else case map_of (ju_chains j) (fl_Guest f) of
        None \<Rightarrow> \<lparr>ve_Allow = True, ve_Rule = RuleNone\<rparr>
      | Some c \<Rightarrow> if \<not> ch_Policy c then \<lparr>ve_Allow = True, ve_Rule = RuleNone\<rparr>
                 else judge_walk (ch_Rules c) f)"

subsection \<open>The judge answers as the proxy decides\<close>

interpretation jw: first_match judge_walk flow_matches
    "\<lambda>c _. \<lparr>ve_Allow = (co_Action c = ActionAllow), ve_Rule = co_ID c\<rparr>"
    "\<lambda>_. \<lparr>ve_Allow = False, ve_Rule = RuleDefault\<rparr>"
  by unfold_locales auto

interpretation sim: first_match_sim "decide_walk sb" "\<lambda>er (host, port, a). matches (er_Rule er) host port a"
    "\<lambda>er _. by_rule sb er" "\<lambda>(host, _). default_deny sb host" judge_walk flow_matches
    "\<lambda>c _. \<lparr>ve_Allow = (co_Action c = ActionAllow), ve_Rule = co_ID c\<rparr>"
    "\<lambda>_. \<lparr>ve_Allow = False, ve_Rule = RuleDefault\<rparr>" for sb
  by unfold_locales

definition same_answer :: "decision \<Rightarrow> verdict \<Rightarrow> bool" where
  "same_answer dec v = (ve_Allow v = (dec_Action dec = ActionAllow) \<and> ve_Rule v = dec_ID dec)"

text \<open>Whether a name rule speaks for a host.\<close>

definition host_hits :: "rule \<Rightarrow> string \<Rightarrow> bool" where
  "host_hits r host =
     (case dst_Kind (rule_Destination r) of
        DestinationDomain \<Rightarrow> MatchHost (dst_Value (rule_Destination r)) host
      | DestinationDomainSuffix \<Rightarrow> under (dst_Value (rule_Destination r)) host
      | _ \<Rightarrow> False)"

lemma compile_fields:
  assumes "compile fp lookup er = Inr c"
  shows "co_ID c = er_ID er \<and> co_Action c = rule_Action (er_Rule er)
    \<and> co_Protocol c = rule_Protocol (er_Rule er) \<and> co_Ports c = rule_Ports (er_Rule er)"
  using assms by (auto simp: compile_def Let_def split: dest_kind.splits sum.splits if_splits)

lemma compile_prefixes:
  assumes "compile fp lookup er = Inr c" "\<not> named (dst_Kind (rule_Destination (er_Rule er)))"
  shows "prefixes_contain (co_Prefixes c) a =
    (case dst_Kind (rule_Destination (er_Rule er)) of
       DestinationCIDR \<Rightarrow> (case parseCIDR (dst_Value (rule_Destination (er_Rule er))) of Inl _ \<Rightarrow> False | Inr p \<Rightarrow> pfx_Contains p a)
     | DestinationGroup \<Rightarrow> prefixes_contain (group_prefixes (dst_Value (rule_Destination (er_Rule er)))) a
     | _ \<Rightarrow> False)"
  using assms
  by (auto simp: compile_def Let_def named_def prefixes_contain_def split: dest_kind.splits sum.splits)

lemma compile_matches:
  assumes c: "compile fp lookup er = Inr c"
    and agree: "named (dst_Kind (rule_Destination (er_Rule er))) \<Longrightarrow>
      host_hits (er_Rule er) host = prefixes_contain (co_Prefixes c) (fl_Destination f)"
    and f: "fl_Protocol f = ''tcp''"
  shows "matches (er_Rule er) host (fl_Port f) (fl_Destination f) = flow_matches c f"
proof (cases "named (dst_Kind (rule_Destination (er_Rule er)))")
  case True
  then show ?thesis
    using agree compile_fields [OF c] f
    by (auto simp: matches_def flow_matches_def host_hits_def tcp_port_def named_def Let_def)
next
  case False
  then show ?thesis
    using compile_prefixes [OF c False, of "fl_Destination f"] compile_fields [OF c] f
    by (auto simp: matches_def flow_matches_def tcp_port_def named_def Let_def split: dest_kind.splits)
qed

lemma compile_all_list_all2:
  "compile_all fp lookup ers = Inr cs \<Longrightarrow> list_all2 (\<lambda>er c. compile fp lookup er = Inr c) ers cs"
  by (induction ers arbitrary: cs) (auto split: sum.splits)

lemma compileChain_Inr:
  "compileChain fp lookup c0 ers = Inr c \<longleftrightarrow>
     (\<exists>cs. compile_all fp lookup ers = Inr cs \<and> c = c0\<lparr>ch_Rules := ch_Rules c0 @ cs\<rparr>)"
  by (auto simp: compileChain_def split: sum.splits)

text \<open>C3: on an address of no name rule's dispute, the stack's judge and the proxy give the same answer. For
  a sandbox whose chain compiled whole, and a tcp flow to an address such that each name rule
  resolved to that address exactly when it speaks for the host, \<open>Judge\<close> allows the flow exactly when
  \<open>Decide\<close> allows the connection, and past the floor both name the same rule.\<close>

theorem Judge_refines_Decide:
  assumes pol: "sb_Policy sb \<noteq> []" "policy_Get (sb_Policy sb) d = Inr p"
    and chain: "compileChain fp lookup (base_chain sb) (effective_rules gw p) = Inr c"
    and j: "ju_applied j" "map_of (ju_chains j) (fl_Guest f) = Some c" and f: "fl_Protocol f = ''tcp''"
    and agree: "\<forall>er \<in> set (effective_rules gw p). named (dst_Kind (rule_Destination (er_Rule er))) \<longrightarrow>
      host_hits (er_Rule er) host =
        (\<exists>cr. compile fp lookup er = Inr cr \<and> prefixes_contain (co_Prefixes cr) (fl_Destination f))"
  shows "\<exists>dec. Decide gw d owned sb host (fl_Port f) (fl_Destination f) = Inr dec
    \<and> ve_Allow (Judge owned j f) = (dec_Action dec = ActionAllow)
    \<and> (\<not> prefixes_contain Private (fl_Destination f) \<and> \<not> owned_Contains owned (fl_Destination f)
        \<longrightarrow> ve_Rule (Judge owned j f) = dec_ID dec)"
proof -
  let ?a = "fl_Destination f" and ?ers = "effective_rules gw p"
  obtain cs where cs: "compile_all fp lookup ?ers = Inr cs" "c = (base_chain sb)\<lparr>ch_Rules := cs\<rparr>"
    using chain by (auto simp: compileChain_Inr base_chain_def)
  have "list_all2 (\<lambda>er c. matches (er_Rule er) host (fl_Port f) ?a = flow_matches c f
      \<and> (matches (er_Rule er) host (fl_Port f) ?a \<longrightarrow>
           same_answer (by_rule sb er) \<lparr>ve_Allow = (co_Action c = ActionAllow), ve_Rule = co_ID c\<rparr>)) ?ers cs"
  proof (rule list.rel_mono_strong [OF compile_all_list_all2 [OF cs(1)]])
    fix er cr assume er: "er \<in> set ?ers" and cr: "compile fp lookup er = Inr cr"
    have "matches (er_Rule er) host (fl_Port f) ?a = flow_matches cr f"
      using compile_matches [OF cr _ f] agree er cr by simp
    then show "matches (er_Rule er) host (fl_Port f) ?a = flow_matches cr f
        \<and> (matches (er_Rule er) host (fl_Port f) ?a \<longrightarrow>
             same_answer (by_rule sb er) \<lparr>ve_Allow = (co_Action cr = ActionAllow), ve_Rule = co_ID cr\<rparr>)"
      using compile_fields [OF cr] by (simp add: same_answer_def by_rule_def)
  qed
  then have "same_answer (decide_walk sb ?ers (host, fl_Port f, ?a)) (judge_walk cs f)"
    using sim.walk_related [where q = "(host, fl_Port f, ?a)" and p = f and rs = ?ers and ss = cs
        and rel = same_answer and sb = sb]
    by (simp add: same_answer_def default_deny_def deny_with_def)
  moreover have "Effective gw d sb = Inr \<lparr>ef_Missing = False, ef_Rules = ?ers\<rparr>"
    using pol by (simp add: Effective_def)
  ultimately show ?thesis
    using pol j cs(2) by (auto simp: Decide_def Judge_def same_answer_def base_chain_def)
qed

text \<open>The witness: a policy with two name rules and an address rule, and a resolver that knows both names. The flow
  goes to the address of the first name, for which the connection asks; the second name resolves elsewhere and
  does not speak for it.\<close>

definition named_policy :: policy where
  "named_policy = \<lparr>pol_Name = ''net'', pol_Rules =
     [\<lparr>rule_Action = ActionAllow, rule_Destination = \<lparr>dst_Kind = DestinationDomain, dst_Value = ''api.test''\<rparr>,
       rule_Protocol = ''tcp'', rule_Ports = [443]\<rparr>,
      \<lparr>rule_Action = ActionDeny, rule_Destination = \<lparr>dst_Kind = DestinationDomain, dst_Value = ''cdn.test''\<rparr>,
       rule_Protocol = ''tcp'', rule_Ports = [443]\<rparr>,
      \<lparr>rule_Action = ActionAllow, rule_Destination = \<lparr>dst_Kind = DestinationCIDR, dst_Value = ''9.0.0.0/8''\<rparr>,
       rule_Protocol = ''tcp'', rule_Ports = [22]\<rparr>]\<rparr>"

definition named_policies :: policy_dir where
  "named_policies = [(''net.json'', File (Some named_policy))]"

definition named_sandbox :: sandbox where
  "named_sandbox = zero_sandbox\<lparr>sb_ID := ''sb2'', sb_Policy := ''net'',
     sb_Address := Prefix (V4 0x0a580002) (Some 16)\<rparr>"

definition named_lookup :: lookup where
  "named_lookup host =
     (if host = ''api.test'' then Some [V4 0x09010203] else if host = ''cdn.test'' then Some [V4 0x08080808] else None)"

text \<open>The agreement of the theorem, evaluated.\<close>

definition agrees :: "(string \<Rightarrow> string) \<Rightarrow> lookup \<Rightarrow> string \<Rightarrow> addr \<Rightarrow> effective_rule \<Rightarrow> bool" where
  "agrees fp lookup host a er =
     (if named (dst_Kind (rule_Destination (er_Rule er)))
      then host_hits (er_Rule er) host
             = (case compile fp lookup er of Inl _ \<Rightarrow> False | Inr cr \<Rightarrow> prefixes_contain (co_Prefixes cr) a)
      else True)"

lemma agreesD:
  assumes "list_all (agrees fp lookup host a) ers"
  shows "\<forall>er \<in> set ers. named (dst_Kind (rule_Destination (er_Rule er))) \<longrightarrow>
    host_hits (er_Rule er) host = (\<exists>cr. compile fp lookup er = Inr cr \<and> prefixes_contain (co_Prefixes cr) a)"
proof (intro ballI impI)
  fix er assume er: "er \<in> set ers" "named (dst_Kind (rule_Destination (er_Rule er)))"
  then have "agrees fp lookup host a er" using assms by (simp add: list_all_iff)
  then show "host_hits (er_Rule er) host = (\<exists>cr. compile fp lookup er = Inr cr \<and> prefixes_contain (co_Prefixes cr) a)"
    using er(2) by (cases "compile fp lookup er") (simp_all add: agrees_def)
qed

theorem Judge_refines_Decide_witness:
  "\<exists>dec c. Decide 0x0a580001 named_policies (Some []) named_sandbox ''api.test'' 443 (V4 0x09010203) = Inr dec
     \<and> compileChain (\<lambda>_. []) named_lookup (base_chain named_sandbox) (effective_rules 0x0a580001 named_policy) = Inr c
     \<and> list_ex (\<lambda>er. named (dst_Kind (rule_Destination (er_Rule er))) \<and> host_hits (er_Rule er) ''api.test'')
         (effective_rules 0x0a580001 named_policy)
     \<and> ve_Allow (Judge (Some []) \<lparr>ju_applied = True, ju_chains = [(V4 0x0a580002, c)]\<rparr>
          \<lparr>fl_Guest = V4 0x0a580002, fl_Destination = V4 0x09010203, fl_Port = 443, fl_Protocol = ''tcp''\<rparr>)
         = (dec_Action dec = ActionAllow)"
proof -
  let ?ers = "effective_rules 0x0a580001 named_policy"
  let ?f = "\<lparr>fl_Guest = V4 0x0a580002, fl_Destination = V4 0x09010203, fl_Port = 443, fl_Protocol = ''tcp''\<rparr>"
  have get: "sb_Policy named_sandbox \<noteq> []" "policy_Get (sb_Policy named_sandbox) named_policies = Inr named_policy" by code_simp+
  have agree: "list_all (agrees (\<lambda>_. []) named_lookup ''api.test'' (V4 0x09010203)) ?ers" by code_simp
  have some: "list_ex (\<lambda>er. named (dst_Kind (rule_Destination (er_Rule er))) \<and> host_hits (er_Rule er) ''api.test'') ?ers"
    by code_simp
  obtain c where c: "compileChain (\<lambda>_. []) named_lookup (base_chain named_sandbox) ?ers = Inr c"
  proof
    show "compileChain (\<lambda>_. []) named_lookup (base_chain named_sandbox) ?ers =
      Inr (projr (compileChain (\<lambda>_. []) named_lookup (base_chain named_sandbox) ?ers))"
      by code_simp
  qed
  let ?j = "\<lparr>ju_applied = True, ju_chains = [(V4 0x0a580002, c)]\<rparr>"
  from Judge_refines_Decide [OF get c, of ?j ?f "''api.test''" "Some []"] agreesD [OF agree]
  have "\<exists>dec. Decide 0x0a580001 named_policies (Some []) named_sandbox ''api.test'' 443 (V4 0x09010203) = Inr dec
      \<and> ve_Allow (Judge (Some []) ?j ?f) = (dec_Action dec = ActionAllow)"
    by auto
  then show ?thesis using c some by blast
qed

subsection \<open>What a held sandbox runs on\<close>

text \<open>The chains of a pass: which sandboxes get one, and where its rules come from. \<open>L\<close> is the set of
  resolver answers some compile was given.\<close>

definition guarded :: "sandbox \<Rightarrow> bool" where
  "guarded sb = (Fronted sb \<and> pfx_IsValid (sb_Address sb) \<and> sb_State sb \<noteq> StateFailed)"

definition chain_for ::
  "u32 \<Rightarrow> (string \<Rightarrow> string) \<Rightarrow> lookup set \<Rightarrow> policy_dir \<Rightarrow> sandbox \<Rightarrow> chain \<Rightarrow> bool" where
  "chain_for gw fp L d sb c =
     (ch_Address c = pfx_addr (sb_Address sb) \<and> ch_Policy c = (sb_Policy sb \<noteq> [])
      \<and> (ch_Rules c = [] \<or>
         (\<exists>ef. Effective gw d sb = Inr ef
            \<and> (\<exists>lookup \<in> L. compileChain fp lookup (base_chain sb) (ef_Rules ef) = Inr c))))"

definition good_ok :: "(string \<Rightarrow> string) \<Rightarrow> lookup set \<Rightarrow> good \<Rightarrow> bool" where
  "good_ok fp L good =
     (\<forall>i g. map_of good i = Some g \<longrightarrow> ch_Policy (gc_chain g)
        \<and> (\<exists>lookup \<in> L. compileChain fp lookup ((gc_chain g)\<lparr>ch_Rules := []\<rparr>) (gc_rules g) = Inr (gc_chain g)))"

lemma good_ok_mono: "good_ok fp L good \<Longrightarrow> L \<subseteq> M \<Longrightarrow> good_ok fp M good"
  unfolding good_ok_def by blast

lemma good_ok_update:
  assumes "good_ok fp L good" "lookup \<in> L" "compileChain fp lookup (base_chain sb) ers = Inr c" "sb_Policy sb \<noteq> []"
  shows "good_ok fp L (AList.update i \<lparr>gc_rules = ers, gc_chain = c\<rparr> good)"
proof -
  have "c\<lparr>ch_Rules := []\<rparr> = base_chain sb" "ch_Policy c"
    using assms(3,4) by (auto simp: compileChain_Inr base_chain_def)
  then show ?thesis using assms by (auto simp: good_ok_def update_conv' split: if_splits)
qed

lemma map_of_filter_key: "map_of (filter (\<lambda>(k, _). P k) m) k = (if P k then map_of m k else None)"
  by (induction m) auto

lemma good_ok_filter: "good_ok fp L good \<Longrightarrow> good_ok fp L (filter (\<lambda>(i, _). P i) good)"
  by (simp add: good_ok_def map_of_filter_key)

lemma chain_for_base: "Effective gw d sb = Inr ef \<Longrightarrow> chain_for gw fp L d sb (base_chain sb)"
  by (simp add: chain_for_def base_chain_def)

lemma chains_pass_ok:
  assumes good: "good_ok fp L good" and l: "lookup \<in> L"
    and pass: "chains_pass gw fp lookup cancelled d sb good acc = (good', r)"
  shows "good_ok fp L good'
    \<and> (\<forall>acc'. r = Inr acc' \<longrightarrow>
         (Fronted sb \<and> Live (sb_State sb) \<longrightarrow> pfx_IsValid (sb_Address sb))
         \<and> (\<exists>cs. ac_chains acc' = ac_chains acc @ cs
              \<and> list_all2 (chain_for gw fp L d) (filter guarded [sb]) cs))"
proof -
  consider "\<not> guarded sb" | "guarded sb" "sb_Policy sb = []" | e where "guarded sb" "sb_Policy sb \<noteq> []" "Effective gw d sb = Inl e"
    | ef where "guarded sb" "sb_Policy sb \<noteq> []" "Effective gw d sb = Inr ef"
    by (cases "Effective gw d sb") auto
  then show ?thesis
  proof cases
    case 1
    then show ?thesis using pass good
      by (auto simp: chains_pass_def guarded_def Let_def split: if_splits)
  next
    case 2
    then show ?thesis using pass good
      by (auto simp: chains_pass_def guarded_def base_chain_def chain_for_def)
  next
    case 3
    then show ?thesis using pass good by (auto simp: chains_pass_def guarded_def base_chain_def)
  next
    case 4
    have base: "chain_for gw fp L d sb (base_chain sb)" using 4 by (rule_tac chain_for_base)
    have pol: "ch_Policy (base_chain sb)" using 4 by (simp add: base_chain_def)
    show ?thesis
    proof (cases "compileChain fp lookup (base_chain sb) (ef_Rules ef)")
      case (Inr c)
      have "chain_for gw fp L d sb c"
        using Inr 4 l by (auto simp: chain_for_def compileChain_Inr base_chain_def)
      then show ?thesis
        using pass good pol 4 Inr good_ok_update [OF good l Inr 4(2)]
        by (auto simp: chains_pass_def guarded_def Let_def)
    next
      case (Inl e)
      have held: "chain_for gw fp L d sb (gc_chain g)"
        if g: "map_of good (sb_ID sb) = Some g" "ch_Address (gc_chain g) = ch_Address (base_chain sb)" "gc_rules g = ef_Rules ef" for g
      proof -
        obtain look where "ch_Policy (gc_chain g)" "look \<in> L"
          "compileChain fp look ((gc_chain g)\<lparr>ch_Rules := []\<rparr>) (gc_rules g) = Inr (gc_chain g)"
          using g good unfolding good_ok_def by blast
        moreover from this have "(gc_chain g)\<lparr>ch_Rules := []\<rparr> = base_chain sb"
          using g 4 by (simp add: base_chain_def)
        ultimately have "compileChain fp look (base_chain sb) (ef_Rules ef) = Inr (gc_chain g)"
          using g by simp
        then show ?thesis
          using g 4 \<open>look \<in> L\<close> \<open>ch_Policy (gc_chain g)\<close> by (auto simp: chain_for_def base_chain_def)
      qed
      then show ?thesis
        using pass good pol 4 Inl base
        by (auto simp: chains_pass_def guarded_def Let_def split: if_splits option.splits)
    qed
  qed
qed

lemma chains_loop_ok:
  assumes "good_ok fp L good" "lookup \<in> L" "chains_loop gw fp lookup cancelled d sbs good acc = (good', r)"
  shows "good_ok fp L good'
    \<and> (\<forall>acc'. r = Inr acc' \<longrightarrow>
         (\<forall>sb \<in> set sbs. Fronted sb \<and> Live (sb_State sb) \<longrightarrow> pfx_IsValid (sb_Address sb))
         \<and> (\<exists>cs. ac_chains acc' = ac_chains acc @ cs
              \<and> list_all2 (chain_for gw fp L d) (filter guarded sbs) cs))"
  using assms
proof (induction sbs arbitrary: good acc)
  case (Cons sb sbs)
  obtain g q where pass: "chains_pass gw fp lookup cancelled d sb good acc = (g, q)" by force
  note one = chains_pass_ok [OF Cons.prems(1,2) pass]
  show ?case
  proof (cases q)
    case (Inl e)
    then show ?thesis using one Cons.prems(3) pass by auto
  next
    case (Inr acc1)
    then have loop: "chains_loop gw fp lookup cancelled d sbs g acc1 = (good', r)"
      using Cons.prems(3) pass by simp
    from one Inr obtain cs where cs: "ac_chains acc1 = ac_chains acc @ cs"
      "list_all2 (chain_for gw fp L d) (filter guarded [sb]) cs" by blast
    note rest = Cons.IH [OF _ Cons.prems(2) loop]
    have app: "filter guarded (sb # sbs) = filter guarded [sb] @ filter guarded sbs" by simp
    show ?thesis
      unfolding app using one rest Inr cs by (auto simp: list_all2_Cons1 split: if_splits)
  qed
qed auto

inductive chains_step :: "u32 \<Rightarrow> (string \<Rightarrow> string) \<Rightarrow> lookup set \<times> good \<Rightarrow> lookup set \<times> good \<Rightarrow> bool"
  for gw fp where
  "chains_step gw fp (L, good) (insert lookup L, fst (Chains gw fp lookup cancelled d sbs good))"

lemma Chains_ok:
  assumes "good_ok fp L good" "lookup \<in> L" "Chains gw fp lookup cancelled d sbs good = (good', r)"
  shows "good_ok fp L good'
    \<and> (\<forall>cs held. r = Inr (cs, held) \<longrightarrow>
         (\<forall>sb \<in> set sbs. Fronted sb \<and> Live (sb_State sb) \<longrightarrow> guarded sb)
         \<and> list_all2 (chain_for gw fp L d) (filter guarded sbs) cs)"
proof -
  obtain g q where loop: "chains_loop gw fp lookup cancelled d sbs good
      \<lparr>ac_chains = [], ac_held = [], ac_compiled = []\<rparr> = (g, q)" by force
  note ok = chains_loop_ok [OF assms(1,2) loop]
  show ?thesis
  proof (cases q)
    case (Inl e)
    then show ?thesis using ok assms(3) loop by (auto simp: Chains_def)
  next
    case (Inr acc)
    then show ?thesis
      using ok assms(3) loop
      by (auto simp: Chains_def guarded_def Live_def intro: good_ok_filter)
  qed
qed

interpretation held: stepping "\<lambda>s. snd s = []" "chains_step gw fp" "\<lambda>s. good_ok fp (fst s) (snd s)" for gw fp
proof unfold_locales
  fix s t
  assume inv: "good_ok fp (fst s) (snd s)" and "chains_step gw fp s t"
  then obtain L good lookup cancelled d sbs where s: "s = (L, good)"
    and t: "t = (insert lookup L, fst (Chains gw fp lookup cancelled d sbs good))"
    by (auto elim: chains_step.cases)
  have "good_ok fp (insert lookup L) good" using inv s by (auto intro: good_ok_mono)
  then show "good_ok fp (fst t) (snd t)"
    using Chains_ok [of fp "insert lookup L" good lookup gw cancelled d sbs] t
    by (cases "Chains gw fp lookup cancelled d sbs good") auto
qed (simp add: good_ok_def)

text \<open>C2: no sandbox ever runs on rules its policy does not hold. After any history of compiles, failed
  ones included, a compile that returns chains gives one to every fronted sandbox with an address
  that has not failed, and to every live fronted one; each chain is closed or is the whole compile of
  the rules now in force, on the answers of this or an earlier lookup.\<close>

theorem Chains_provenance:
  assumes "(chains_step gw fp)\<^sup>*\<^sup>* ({}, []) (L, good)"
    and "Chains gw fp lookup cancelled d sbs good = (good', Inr (cs, held))"
  shows "list_all2 (chain_for gw fp (insert lookup L) d) (filter guarded sbs) cs
    \<and> (\<forall>sb \<in> set sbs. Fronted sb \<and> Live (sb_State sb) \<longrightarrow> guarded sb)"
proof -
  have "good_ok fp L good"
    using held.reach_inv [OF _ assms(1)] by simp
  then have "good_ok fp (insert lookup L) good" by (rule good_ok_mono) blast
  from Chains_ok [OF this _ assms(2)] show ?thesis by simp
qed

text \<open>The witness: the resolver fails on the first compile, so the sandbox gets a closed chain.\<close>

theorem Chains_provenance_witness:
  "\<exists>good' cs held. Chains 0x0a580001 (\<lambda>_. []) (\<lambda>_. None) False example_policies
     [example_sandbox\<lparr>sb_State := StateRunning, sb_Address := Prefix (V4 0x0a580003) (Some 16)\<rparr>] []
       = (good', Inr (cs, held)) \<and> length cs = 1"
proof -
  let ?sb = "example_sandbox\<lparr>sb_State := StateRunning, sb_Address := Prefix (V4 0x0a580003) (Some 16)\<rparr>"
  let ?r = "Chains 0x0a580001 (\<lambda>_. []) (\<lambda>_. None) False example_policies [?sb] []"
  have "?r = (fst ?r, Inr (fst (projr (snd ?r)), snd (projr (snd ?r))))" by code_simp
  moreover from Chains_provenance [OF rtranclp.rtrancl_refl this]
  have "length (filter guarded [?sb]) = length (fst (projr (snd ?r)))" by (auto dest: list_all2_lengthD)
  moreover have "length (filter guarded [?sb]) = 1" by code_simp
  ultimately show ?thesis by metis
qed

end
