(* ===== verification/SecretStore.thy ===== *)
theory SecretStore
  imports Models FileStore
begin

text \<open>
  \<open>services/secret/secret.go\<close>: the store of the secrets, one file per secret named as the secret. A
  file holds the record its JSON decodes to, or \<^term>\<open>None\<close>. The public suffix list is the parameter
  \<open>etld1\<close>, as in the theory of host names, and \<open>holders\<close> is the daemon's answer to who holds a
  grant: \<^term>\<open>None\<close> is a store that cannot ask, an \<^term>\<open>Inl\<close> answer one that failed.
\<close>

datatype secret_error =
    SecretNameEmpty | SecretNameLong | SecretNameShape | SecretNotFound | SecretUnreadable
  | SecretUndecodable | ValueEmpty | ValueNUL | PlaceholderInValue | ValueInPlaceholder
  | PlaceholderShort | PlaceholderCharset | PlaceholderUnsure | PlaceholderTaken string
  | PlaceholderBlind | HoldersUnread | SecretHeld "string list" bool | NoDestination
  | DestinationRefused nat host_error | SecretWrite write_step | SecretRemove remove_step

record secret_record =
  sr_Value :: string
  sr_Destinations :: "string list"
  sr_Placeholder :: string
  sr_UpdatedAt :: time

record secret =
  se_Name :: string
  se_Destinations :: "string list"
  se_Placeholder :: string
  se_UpdatedAt :: time

type_synonym secret_dir = "secret_record option dir"
type_synonym holders = "(string \<Rightarrow> unit + string list) option"

definition public :: "secret_record \<Rightarrow> string \<Rightarrow> secret" where
  "public r name = \<lparr>se_Name = name, se_Destinations = sr_Destinations r,
     se_Placeholder = sr_Placeholder r, se_UpdatedAt = sr_UpdatedAt r\<rparr>"

definition DefaultPlaceholder :: "string \<Rightarrow> string" where
  "DefaultPlaceholder name = ''mock-'' @ name"

definition secret_ValidName :: "string \<Rightarrow> secret_error + unit" where
  "secret_ValidName name =
     (if name = [] then Inl SecretNameEmpty
      else if length name > 128 then Inl SecretNameLong
      else if \<not> ((is_upper (hd name) \<or> hd name = CHR ''_'')
                 \<and> list_all (\<lambda>c. is_upper c \<or> is_digit c \<or> c = CHR ''_'') (tl name))
      then Inl SecretNameShape
      else Inr ())"

text \<open>\<open>read\<close> drops a destination that no longer binds; the record of a missing file is an error of its own.\<close>

definition secret_read :: "(string \<Rightarrow> bool) \<Rightarrow> string \<Rightarrow> secret_dir \<Rightarrow> secret_error + secret_record" where
  "secret_read etld1 name d =
     (case secret_ValidName name of
        Inl e \<Rightarrow> Inl e
      | Inr _ \<Rightarrow>
          (case map_of d name of
             None \<Rightarrow> Inl SecretNotFound
           | Some Directory \<Rightarrow> Inl SecretUnreadable
           | Some (File (Some r)) \<Rightarrow>
               Inr (r\<lparr>sr_Destinations :=
                     filter (\<lambda>dest. is_ok (validSecretDestination etld1 dest)) (sr_Destinations r)\<rparr>)
           | Some _ \<Rightarrow> Inl SecretUndecodable))"

definition secret_Get :: "(string \<Rightarrow> bool) \<Rightarrow> string \<Rightarrow> secret_dir \<Rightarrow> secret_error + secret" where
  "secret_Get etld1 name d =
     (case secret_read etld1 name d of Inl e \<Rightarrow> Inl e | Inr r \<Rightarrow> Inr (public r name))"

definition secret_Value :: "(string \<Rightarrow> bool) \<Rightarrow> string \<Rightarrow> secret_dir \<Rightarrow> secret_error + string" where
  "secret_Value etld1 name d =
     (case secret_read etld1 name d of Inl e \<Rightarrow> Inl e | Inr r \<Rightarrow> Inr (sr_Value r))"

definition secret_names :: "secret_dir \<Rightarrow> string list" where
  "secret_names d =
     filter (\<lambda>n. map_of d n \<noteq> Some Directory \<and> is_ok (secret_ValidName n)) (sort (map fst d))"

text \<open>\<open>List\<close>: the secrets that read, and the names of those that do not.\<close>

fun list_secrets :: "(string \<Rightarrow> bool) \<Rightarrow> secret_dir \<Rightarrow> string list \<Rightarrow> secret list \<times> string list" where
  "list_secrets etld1 d [] = ([], [])"
| "list_secrets etld1 d (n # ns) =
     (case list_secrets etld1 d ns of (ss, errs) \<Rightarrow>
        (case secret_read etld1 n d of Inl e \<Rightarrow> (ss, n # errs) | Inr r \<Rightarrow> (public r n # ss, errs)))"

definition secret_List :: "(string \<Rightarrow> bool) \<Rightarrow> secret_dir \<Rightarrow> secret list \<times> string list" where
  "secret_List etld1 d = list_secrets etld1 d (secret_names d)"

subsection \<open>Set\<close>

definition minPlaceholder :: nat where
  "minPlaceholder = 8"

definition placeholder_char :: "char \<Rightarrow> bool" where
  "placeholder_char c =
     (is_lower c \<or> is_upper c \<or> is_digit c \<or> c \<in> {CHR ''_'', CHR ''.'', CHR ''-''})"

definition shapedPlaceholder :: "string \<Rightarrow> secret_error + unit" where
  "shapedPlaceholder chosen =
     (if length chosen < minPlaceholder then Inl PlaceholderShort
      else if \<not> (chosen \<noteq> [] \<and> list_all placeholder_char chosen) then Inl PlaceholderCharset
      else Inr ())"

fun free_among :: "string \<Rightarrow> string \<Rightarrow> secret list \<Rightarrow> secret_error + unit" where
  "free_among name chosen [] = Inr ()"
| "free_among name chosen (other # others) =
     (if se_Name other = name then free_among name chosen others
      else if chosen = se_Placeholder other \<or> chosen = DefaultPlaceholder (se_Name other)
      then Inl (PlaceholderTaken (se_Name other))
      else free_among name chosen others)"

definition freePlaceholder :: "(string \<Rightarrow> bool) \<Rightarrow> secret_dir \<Rightarrow> string \<Rightarrow> string \<Rightarrow> secret_error + unit" where
  "freePlaceholder etld1 d name chosen =
     (case secret_List etld1 d of (stored, errs) \<Rightarrow>
        if errs \<noteq> [] then Inl PlaceholderUnsure else free_among name chosen stored)"

definition placeholderMoved :: "holders \<Rightarrow> string \<Rightarrow> bool \<Rightarrow> secret_error + unit" where
  "placeholderMoved holders name removed =
     (case holders of
        None \<Rightarrow> Inl PlaceholderBlind
      | Some ask \<Rightarrow>
          (case ask name of
             Inl _ \<Rightarrow> Inl HoldersUnread
           | Inr hs \<Rightarrow> if hs \<noteq> [] then Inl (SecretHeld hs removed) else Inr ()))"

definition choose_placeholder ::
  "(string \<Rightarrow> bool) \<Rightarrow> holders \<Rightarrow> secret_dir \<Rightarrow> string \<Rightarrow> string \<Rightarrow> string \<Rightarrow> string \<Rightarrow> secret_error + string" where
  "choose_placeholder etld1 holders d name value named existing =
     (let chosen = (if named \<noteq> [] then named else if existing \<noteq> [] then existing else DefaultPlaceholder name);
          moved = (existing \<noteq> [] \<and> chosen \<noteq> existing);
          removed = (existing = [] \<and> holders \<noteq> None)
      in if Contains value chosen then Inl PlaceholderInValue
         else if Contains chosen value then Inl ValueInPlaceholder
         else case (if named \<noteq> [] \<and> named \<noteq> DefaultPlaceholder name then shapedPlaceholder named else Inr ()) of
           Inl e \<Rightarrow> Inl e
         | Inr _ \<Rightarrow>
             (case freePlaceholder etld1 d name chosen of
                Inl e \<Rightarrow> Inl e
              | Inr _ \<Rightarrow>
                  (case (if moved \<or> removed then placeholderMoved holders name removed else Inr ()) of
                     Inl e \<Rightarrow> Inl e
                   | Inr _ \<Rightarrow> Inr chosen)))"

text \<open>The loop over the destinations: the position of the first one refused, or each canonical one once.\<close>

fun bind_destinations :: "(string \<Rightarrow> bool) \<Rightarrow> nat \<Rightarrow> string list \<Rightarrow> string list \<Rightarrow> secret_error + string list" where
  "bind_destinations etld1 i bound [] = Inr bound"
| "bind_destinations etld1 i bound (dest # dests) =
     (case validSecretDestination etld1 dest of
        Inl e \<Rightarrow> Inl (DestinationRefused i e)
      | Inr c \<Rightarrow> bind_destinations etld1 (Suc i) (if c \<in> set bound then bound else bound @ [c]) dests)"

text \<open>\<open>Set\<close> in two parts: the record it settles on, and the write.\<close>

definition existing_of :: "(string \<Rightarrow> bool) \<Rightarrow> string \<Rightarrow> secret_dir \<Rightarrow> secret_error + string \<times> string list" where
  "existing_of etld1 name d =
     (case secret_read etld1 name d of
        Inl e \<Rightarrow> if e = SecretNotFound then Inr ([], []) else Inl e
      | Inr r \<Rightarrow> Inr (sr_Placeholder r, sr_Destinations r))"

definition new_record ::
  "(string \<Rightarrow> bool) \<Rightarrow> holders \<Rightarrow> time \<Rightarrow> string \<Rightarrow> string \<Rightarrow> string list \<Rightarrow> string \<Rightarrow> secret_dir
   \<Rightarrow> secret_error + secret_record" where
  "new_record etld1 holders now name value destinations placeholder d =
     (case secret_ValidName name of
        Inl e \<Rightarrow> Inl e
      | Inr _ \<Rightarrow>
          if value = [] then Inl ValueEmpty
          else if char_of (0::nat) \<in> set value then Inl ValueNUL
          else case existing_of etld1 name d of
            Inl e \<Rightarrow> Inl e
          | Inr (existing, olddests) \<Rightarrow>
              (case choose_placeholder etld1 holders d name value placeholder existing of
                 Inl e \<Rightarrow> Inl e
               | Inr chosen \<Rightarrow>
                   let dests = (if destinations = [] then olddests else destinations) in
                   if dests = [] then Inl NoDestination
                   else case bind_destinations etld1 1 [] dests of
                     Inl e \<Rightarrow> Inl e
                   | Inr bound \<Rightarrow> Inr \<lparr>sr_Value = value, sr_Destinations = bound,
                                       sr_Placeholder = chosen, sr_UpdatedAt = now\<rparr>))"

definition secret_Set ::
  "(string \<Rightarrow> bool) \<Rightarrow> holders \<Rightarrow> write_step option \<Rightarrow> time \<Rightarrow> string \<Rightarrow> string \<Rightarrow> string list \<Rightarrow> string
   \<Rightarrow> secret_dir \<Rightarrow> secret_dir \<times> (secret_error + secret)" where
  "secret_Set etld1 holders fault now name value destinations placeholder d =
     (case new_record etld1 holders now name value destinations placeholder d of
        Inl e \<Rightarrow> (d, Inl e)
      | Inr r \<Rightarrow> (case write_file fault name (Some r) d of
                   (d', Some e) \<Rightarrow> (d', Inl (SecretWrite e))
                 | (d', None) \<Rightarrow> (d', Inr (public r name))))"

definition secret_Remove :: "remove_step option \<Rightarrow> string \<Rightarrow> secret_dir \<Rightarrow> secret_dir \<times> secret_error option" where
  "secret_Remove fault name d =
     (case secret_ValidName name of
        Inl e \<Rightarrow> (d, Some e)
      | Inr _ \<Rightarrow> (case remove_file fault name d of (d', e) \<Rightarrow> (d', map_option SecretRemove e)))"

subsection \<open>Redact\<close>

text \<open>The bytes of the first rune of a string, as \<open>utf8.DecodeRuneInString\<close> counts them: 1 for a byte
  that starts none.\<close>

definition cont :: "nat \<Rightarrow> nat \<Rightarrow> string \<Rightarrow> nat \<Rightarrow> bool" where
  "cont lo hi s i = (i < length s \<and> lo \<le> code (s ! i) \<and> code (s ! i) \<le> hi)"

definition rune_len :: "string \<Rightarrow> nat" where
  "rune_len s =
     (let b = code (hd s) in
      if 194 \<le> b \<and> b \<le> 223 \<and> cont 128 191 s 1 then 2
      else if b = 224 \<and> cont 160 191 s 1 \<and> cont 128 191 s 2 then 3
      else if (225 \<le> b \<and> b \<le> 236 \<or> b = 238 \<or> b = 239) \<and> cont 128 191 s 1 \<and> cont 128 191 s 2 then 3
      else if b = 237 \<and> cont 128 159 s 1 \<and> cont 128 191 s 2 then 3
      else if b = 240 \<and> cont 144 191 s 1 \<and> cont 128 191 s 2 \<and> cont 128 191 s 3 then 4
      else if 241 \<le> b \<and> b \<le> 243 \<and> cont 128 191 s 1 \<and> cont 128 191 s 2 \<and> cont 128 191 s 3 then 4
      else if b = 244 \<and> cont 128 143 s 1 \<and> cont 128 191 s 2 \<and> cont 128 191 s 3 then 4
      else 1)"

lemma rune_len_pos [simp]: "0 < rune_len s"
  by (simp add: rune_len_def Let_def)

text \<open>\<open>strings.ReplaceAll\<close>: from the left, without overlaps; the empty text is found before every rune
  and at the end.\<close>

function replace_from :: "string \<Rightarrow> string \<Rightarrow> string \<Rightarrow> string" where
  "replace_from old new [] = (if old = [] then new else [])"
| "replace_from old new (c # s) =
     (if old = [] then new @ take (rune_len (c # s)) (c # s) @ replace_from old new (drop (rune_len (c # s)) (c # s))
      else if HasPrefix (c # s) old then new @ replace_from old new (drop (length old) (c # s))
      else c # replace_from old new s)"
  by pat_completeness auto
termination
  by (relation "measure (\<lambda>(old, new, s). length s)") (auto simp: HasPrefix_def)

declare replace_from.simps(2) [simp del]

definition ReplaceAll :: "string \<Rightarrow> string \<Rightarrow> string \<Rightarrow> string" where
  "ReplaceAll text old new = replace_from old new text"

text \<open>The values of the store, in the order of the names: the first secret that does not read ends it.\<close>

fun secret_values :: "(string \<Rightarrow> bool) \<Rightarrow> secret_dir \<Rightarrow> string list \<Rightarrow> secret_error + (string \<times> string) list" where
  "secret_values etld1 d [] = Inr []"
| "secret_values etld1 d (n # ns) =
     (case secret_read etld1 n d of
        Inl e \<Rightarrow> if e = SecretNotFound then secret_values etld1 d ns else Inl e
      | Inr r \<Rightarrow> (case secret_values etld1 d ns of Inl e \<Rightarrow> Inl e | Inr vs \<Rightarrow> Inr ((n, sr_Value r) # vs)))"

definition redaction :: "string \<Rightarrow> string" where
  "redaction name = ''<secret '' @ name @ ''>''"

definition Redact :: "(string \<Rightarrow> bool) \<Rightarrow> secret_dir \<Rightarrow> string \<Rightarrow> secret_error + string" where
  "Redact etld1 d text =
     (case secret_values etld1 d (secret_names d) of
        Inl e \<Rightarrow> Inl e
      | Inr vs \<Rightarrow> Inr (fold (\<lambda>(n, v) t. ReplaceAll t v (redaction n))
                          (sort_key (\<lambda>(n, v). - int (length v)) vs) text))"

subsection \<open>What the store holds\<close>

lemma validSecretDestination_idem:
  assumes "validSecretDestination etld1 dest = Inr c"
  shows "validSecretDestination etld1 c = Inr c"
proof -
  have "validDestination dest = Inr c"
    using assms by (auto simp: validSecretDestination_def Let_def split: sum.splits if_splits)
  from validDestination_idem [OF this] this assms show ?thesis
    by (auto simp: validSecretDestination_def)
qed

definition rec_ok :: "(string \<Rightarrow> bool) \<Rightarrow> secret_record \<Rightarrow> bool" where
  "rec_ok etld1 r =
     (sr_Value r \<noteq> [] \<and> char_of (0::nat) \<notin> set (sr_Value r)
      \<and> \<not> Contains (sr_Value r) (sr_Placeholder r) \<and> \<not> Contains (sr_Placeholder r) (sr_Value r)
      \<and> sr_Destinations r \<noteq> [] \<and> distinct (sr_Destinations r)
      \<and> (\<forall>dest \<in> set (sr_Destinations r). validSecretDestination etld1 dest = Inr dest))"

definition stored :: "secret_dir \<Rightarrow> string \<Rightarrow> secret_record \<Rightarrow> bool" where
  "stored d n r = (map_of d n = Some (File (Some r)) \<and> is_ok (secret_ValidName n))"

definition secret_inv :: "(string \<Rightarrow> bool) \<Rightarrow> secret_dir \<Rightarrow> bool" where
  "secret_inv etld1 d =
     ((\<forall>n r. stored d n r \<longrightarrow> rec_ok etld1 r)
      \<and> (\<forall>n m r q. stored d n r \<and> stored d m q \<and> n \<noteq> m \<longrightarrow> sr_Placeholder r \<noteq> sr_Placeholder q))"

lemma bind_destinations_ok:
  "bind_destinations etld1 i bound dests = Inr out \<Longrightarrow> distinct bound
   \<Longrightarrow> (\<forall>b \<in> set bound. validSecretDestination etld1 b = Inr b)
   \<Longrightarrow> distinct out \<and> set bound \<subseteq> set out \<and> (\<forall>b \<in> set out. validSecretDestination etld1 b = Inr b)
       \<and> (dests \<noteq> [] \<longrightarrow> out \<noteq> [])"
proof (induction etld1 i bound dests rule: bind_destinations.induct)
  case (2 etld1 i bound dest dests)
  from "2.prems"(1) obtain c where c: "validSecretDestination etld1 dest = Inr c"
    by (cases "validSecretDestination etld1 dest") auto
  let ?b = "if c \<in> set bound then bound else bound @ [c]"
  have "distinct out \<and> set ?b \<subseteq> set out \<and> (\<forall>b \<in> set out. validSecretDestination etld1 b = Inr b)
      \<and> (dests \<noteq> [] \<longrightarrow> out \<noteq> [])"
    by (rule "2.IH" [OF c]) (use "2.prems" c validSecretDestination_idem [OF c] in auto)
  moreover have "c \<in> set ?b" by auto
  ultimately show ?case by (auto split: if_splits)
qed auto

lemma free_among_ok:
  "free_among name chosen ss = Inr () \<Longrightarrow> s \<in> set ss \<Longrightarrow> se_Name s \<noteq> name
   \<Longrightarrow> chosen \<noteq> se_Placeholder s \<and> chosen \<noteq> DefaultPlaceholder (se_Name s)"
  by (induction ss) (auto split: if_splits)

lemma list_secrets_stored:
  "list_secrets etld1 d ns = (ss, []) \<Longrightarrow> n \<in> set ns \<Longrightarrow> stored d n r
   \<Longrightarrow> \<exists>s \<in> set ss. se_Name s = n \<and> se_Placeholder s = sr_Placeholder r"
proof (induction ns arbitrary: ss)
  case (Cons m ns)
  show ?case
  proof (cases "secret_read etld1 m d")
    case (Inl e)
    then show ?thesis using Cons.prems(1) by (auto split: prod.splits)
  next
    case (Inr q)
    then obtain rest where rest: "list_secrets etld1 d ns = (rest, [])" "ss = public q m # rest"
      using Cons.prems(1) by (auto split: prod.splits)
    show ?thesis
    proof (cases "n = m")
      case True
      then have "sr_Placeholder q = sr_Placeholder r"
        using Inr Cons.prems(3) by (auto simp: secret_read_def stored_def is_ok_iff)
      then show ?thesis using rest True by (auto simp: public_def)
    next
      case False
      then show ?thesis using Cons rest by auto
    qed
  qed
qed simp

lemma freePlaceholder_ok:
  assumes "freePlaceholder etld1 d name chosen = Inr ()" "stored d n r" "n \<noteq> name"
  shows "chosen \<noteq> sr_Placeholder r"
proof -
  obtain ss where ss: "secret_List etld1 d = (ss, [])" "free_among name chosen ss = Inr ()"
    using assms(1) by (auto simp: freePlaceholder_def split: prod.splits if_splits)
  have "n \<in> set (secret_names d)"
    using assms(2) by (auto simp: secret_names_def stored_def dest: map_of_SomeD intro: rev_image_eqI)
  from list_secrets_stored [OF ss(1) [unfolded secret_List_def] this assms(2)]
  obtain s where "s \<in> set ss" "se_Name s = n" "se_Placeholder s = sr_Placeholder r" by blast
  then show ?thesis using free_among_ok [OF ss(2), of s] assms(3) by simp
qed


lemma choose_placeholder_ok:
  assumes "choose_placeholder etld1 holders d name value ph existing = Inr chosen"
  shows "\<not> Contains value chosen \<and> \<not> Contains chosen value \<and> freePlaceholder etld1 d name chosen = Inr ()
    \<and> (existing \<noteq> [] \<and> chosen \<noteq> existing \<or> existing = [] \<and> holders \<noteq> None
        \<longrightarrow> placeholderMoved holders name (existing = [] \<and> holders \<noteq> None) = Inr ())"
  using assms unfolding choose_placeholder_def Let_def
  by (auto split: if_split_asm sum.split_asm)

lemma new_record_ok:
  assumes "new_record etld1 holders now name value dests ph d = Inr r"
  obtains existing ds where "existing_of etld1 name d = Inr (existing, ds)" "secret_ValidName name = Inr ()"
    "choose_placeholder etld1 holders d name value ph existing = Inr (sr_Placeholder r)"
    "sr_Value r = value" "rec_ok etld1 r"
proof -
  have name: "secret_ValidName name = Inr ()" and val: "value \<noteq> []" "char_of (0::nat) \<notin> set value"
    using assms by (auto simp: new_record_def split: sum.splits if_splits)
  obtain existing ds where ex: "existing_of etld1 name d = Inr (existing, ds)"
    using assms name val by (auto simp: new_record_def split: sum.splits)
  obtain chosen where ch: "choose_placeholder etld1 holders d name value ph existing = Inr chosen"
    using assms name val ex
    by (cases "choose_placeholder etld1 holders d name value ph existing") (auto simp: new_record_def)
  let ?ds = "if dests = [] then ds else dests"
  have ne: "?ds \<noteq> []" using assms name val ex ch by (auto simp: new_record_def)
  obtain bound where b: "bind_destinations etld1 1 [] ?ds = Inr bound"
    using assms name val ex ch ne by (cases "bind_destinations etld1 1 [] ?ds") (auto simp: new_record_def Let_def)
  have r: "r = \<lparr>sr_Value = value, sr_Destinations = bound, sr_Placeholder = chosen, sr_UpdatedAt = now\<rparr>"
    using assms name val ex ch ne b by (auto simp: new_record_def Let_def)
  have "rec_ok etld1 r"
    using bind_destinations_ok [OF b] choose_placeholder_ok [OF ch] ne val r by (simp add: rec_ok_def)
  then show ?thesis using that [OF ex name] ch r by simp
qed

lemma stored_write:
  "stored (fst (write_file fault name (Some r) d)) n q \<Longrightarrow> n = name \<and> q = r \<or> stored d n q"
  by (auto simp: stored_def map_of_write_file split: if_splits)

lemma stored_write_other:
  assumes "stored (fst (write_file fault name (Some r) d)) n q" "n \<noteq> name"
  shows "stored d n q"
  using assms by (auto simp: stored_def map_of_write_file)

lemma secret_inv_write:
  assumes "secret_inv etld1 d" "rec_ok etld1 r" "freePlaceholder etld1 d name (sr_Placeholder r) = Inr ()"
  shows "secret_inv etld1 (fst (write_file fault name (Some r) d))"
proof -
  let ?d = "fst (write_file fault name (Some r) d)"
  have new: "stored ?d n q \<Longrightarrow> n = name \<and> q = r \<or> stored d n q" for n q
    by (rule stored_write)
  have "rec_ok etld1 q" if "stored ?d n q" for n q
    using new [OF that] assms by (auto simp: secret_inv_def)
  moreover have "sr_Placeholder q \<noteq> sr_Placeholder p" if s: "stored ?d n q" "stored ?d m p" "n \<noteq> m" for n m q p
  proof -
    have one: "sr_Placeholder r \<noteq> sr_Placeholder p" if "stored d m p" "m \<noteq> name" for m p
      using freePlaceholder_ok [OF assms(3) that] .
    show ?thesis
      using new [OF s(1)] new [OF s(2)] s one assms(1) stored_write_other [OF s(1)] stored_write_other [OF s(2)]
      unfolding secret_inv_def by metis
  qed
  ultimately show ?thesis unfolding secret_inv_def by blast
qed

inductive secret_step :: "(string \<Rightarrow> bool) \<Rightarrow> secret_dir \<Rightarrow> secret_dir \<Rightarrow> bool" for etld1 where
  set: "secret_step etld1 d (fst (secret_Set etld1 holders fault now name value dests ph d))"
| remove: "secret_step etld1 d (fst (secret_Remove fault' name d))"

lemma fst_secret_Set:
  "fst (secret_Set etld1 holders fault now name value dests ph d) =
     (case new_record etld1 holders now name value dests ph d of
        Inl e \<Rightarrow> d | Inr r \<Rightarrow> fst (write_file fault name (Some r) d))"
  by (auto simp: secret_Set_def split: sum.splits prod.splits option.splits)

lemma secret_inv_Set:
  assumes "secret_inv etld1 d"
  shows "secret_inv etld1 (fst (secret_Set etld1 holders fault now name value dests ph d))"
proof (cases "new_record etld1 holders now name value dests ph d")
  case (Inl e)
  then show ?thesis using assms by (simp add: fst_secret_Set)
next
  case (Inr r)
  obtain existing ds where "existing_of etld1 name d = Inr (existing, ds)" "secret_ValidName name = Inr ()"
    "choose_placeholder etld1 holders d name value ph existing = Inr (sr_Placeholder r)"
    "sr_Value r = value" "rec_ok etld1 r"
    by (rule new_record_ok [OF Inr])
  then show ?thesis
    using secret_inv_write [OF assms] choose_placeholder_ok Inr by (simp add: fst_secret_Set)
qed

lemma stored_remove: "stored (fst (secret_Remove fault name d)) n r \<Longrightarrow> stored d n r"
  by (auto simp: stored_def secret_Remove_def remove_file_def delete_conv' split: sum.splits if_splits)

interpretation secrets: stepping "\<lambda>d. d = []" "secret_step etld1" "secret_inv etld1" for etld1
proof unfold_locales
  fix d d' assume inv: "secret_inv etld1 d" and "secret_step etld1 d d'"
  from this(2) show "secret_inv etld1 d'"
  proof cases
    case set
    then show ?thesis using secret_inv_Set [OF inv] by simp
  next
    case remove
    then show ?thesis using stored_remove inv unfolding secret_inv_def by blast
  qed
qed (auto simp: secret_inv_def stored_def)

text \<open>C20: however the store is used, from an empty directory and through any failed writes, every secret it
  holds has a nonempty value without a NUL byte, a placeholder that neither contains the value nor lies
  in it, and at least one destination, each canonical and bound to a host or a registrable domain;
  and no two secrets share a placeholder.\<close>

theorem secret_store_invariant:
  assumes "(secret_step etld1)\<^sup>*\<^sup>* [] d"
  shows "(\<forall>n r. stored d n r \<longrightarrow> rec_ok etld1 r)
    \<and> (\<forall>n m r q. stored d n r \<and> stored d m q \<and> n \<noteq> m \<longrightarrow> sr_Placeholder r \<noteq> sr_Placeholder q)"
  using secrets.reach_inv [OF refl assms] by (simp add: secret_inv_def)

theorem secret_store_invariant_witness:
  "rec_ok (\<lambda>_. False) \<lparr>sr_Value = ''v1'', sr_Destinations = [''a.io''], sr_Placeholder = ''mock-K'', sr_UpdatedAt = 5\<rparr>"
proof -
  let ?r = "\<lparr>sr_Value = ''v1'', sr_Destinations = [''a.io''], sr_Placeholder = ''mock-K'', sr_UpdatedAt = 5\<rparr>"
  have "(secret_step (\<lambda>_. False))\<^sup>*\<^sup>* [] (fst (secret_Set (\<lambda>_. False) None None 5 ''K'' ''v1'' [''A.io.''] [] []))"
    by (intro r_into_rtranclp secret_step.set)
  moreover have "fst (secret_Set (\<lambda>_. False) None None 5 ''K'' ''v1'' [''A.io.''] [] []) = [(''K'', File (Some ?r))]"
    by code_simp
  ultimately have "(secret_step (\<lambda>_. False))\<^sup>*\<^sup>* [] [(''K'', File (Some ?r))]" by simp
  from secret_store_invariant [OF this] have "stored [(''K'', File (Some ?r))] ''K'' ?r \<longrightarrow> rec_ok (\<lambda>_. False) ?r" by blast
  moreover have "stored [(''K'', File (Some ?r))] ''K'' ?r" by code_simp
  ultimately show ?thesis by blast
qed



subsection \<open>No value is left in a redacted text\<close>

lemma HasPrefix_before: "c \<notin> set w \<Longrightarrow> HasPrefix (a @ c # b) w \<Longrightarrow> HasPrefix a w"
proof (induction a arbitrary: w)
  case Nil
  then show ?case by (cases w) (auto simp: HasPrefix_def)
next
  case (Cons x a)
  then show ?case by (cases w) (auto simp: HasPrefix_def)
qed

lemma Contains_around:
  assumes "c \<notin> set v" "v \<noteq> []" "Contains (a @ c # b) v"
  shows "Contains a v \<or> Contains b v"
  using assms(3)
proof (induction a)
  case Nil
  have "\<not> HasPrefix (c # b) v" using assms(1,2) by (cases v) (auto simp: HasPrefix_def)
  then show ?case using Nil by simp
next
  case (Cons x a)
  then show ?case using HasPrefix_before [OF assms(1), of "x # a" b] by auto
qed

text \<open>A marker: it starts and ends with bytes no value has.\<close>

abbreviation marker :: "string \<Rightarrow> string" where
  "marker mid \<equiv> CHR ''<'' # mid @ ''>''"

lemma Contains_marker:
  assumes "CHR ''<'' \<notin> set v" "CHR ''>'' \<notin> set v" "v \<noteq> []" "Contains (marker mid @ r) v"
  shows "Contains mid v \<or> Contains r v"
proof -
  have "Contains ([] @ CHR ''<'' # (mid @ CHR ''>'' # r)) v" using assms(4) by simp
  then have "Contains (mid @ CHR ''>'' # r) v"
    using Contains_around [OF assms(1,3)] assms(3) by fastforce
  then show ?thesis by (rule Contains_around [OF assms(2,3)])
qed

lemma replace_prefix:
  assumes "old \<noteq> []" "CHR ''<'' \<notin> set w"
  shows "HasPrefix (replace_from old (marker mid) s) w \<Longrightarrow> HasPrefix s w"
  using assms
proof (induction old "marker mid" s arbitrary: w rule: replace_from.induct)
  case (2 old c s)
  show ?case
  proof (cases "HasPrefix (c # s) old")
    case True
    then have "w = []" using 2 by (cases w) (auto simp: replace_from.simps HasPrefix_def)
    then show ?thesis by (simp add: HasPrefix_def)
  next
    case False
    then show ?thesis using 2 by (cases w) (auto simp: replace_from.simps HasPrefix_def)
  qed
qed simp

lemma replace_no_new:
  assumes "old \<noteq> []" "v \<noteq> []" "CHR ''<'' \<notin> set v" "CHR ''>'' \<notin> set v" "\<not> Contains mid v"
  shows "Contains (replace_from old (marker mid) s) v \<Longrightarrow> Contains s v \<and> v \<noteq> old"
  using assms
proof (induction old "marker mid" s rule: replace_from.induct)
  case (2 old c s)
  show ?case
  proof (cases "HasPrefix (c # s) old")
    case True
    then have "Contains (replace_from old (marker mid) (drop (length old) (c # s))) v"
      using 2 Contains_marker [of v mid] by (auto simp: replace_from.simps)
    then have "Contains (drop (length old) (c # s)) v \<and> v \<noteq> old" using 2 True by blast
    moreover have "c # s = take (length old) (c # s) @ drop (length old) (c # s)" by simp
    ultimately show ?thesis by (metis Contains_iff append.assoc)
  next
    case False
    then have "HasPrefix (c # replace_from old (marker mid) s) v \<or> Contains (replace_from old (marker mid) s) v"
      using 2 by (simp add: replace_from.simps)
    then show ?thesis
    proof
      assume p: "HasPrefix (c # replace_from old (marker mid) s) v"
      then obtain w where w: "v = c # w" using \<open>v \<noteq> []\<close> by (cases v) (auto simp: HasPrefix_def)
      then have "HasPrefix s w"
        using p 2 replace_prefix [of old w mid s] by (auto simp: HasPrefix_def)
      then have "HasPrefix (c # s) v" using w by (simp add: HasPrefix_def)
      then show ?thesis using False by auto
    next
      assume "Contains (replace_from old (marker mid) s) v"
      then show ?thesis using 2 False by auto
    qed
  qed
qed simp

lemma fold_redact_clean:
  assumes "\<forall>(n, v) \<in> set vs. v \<noteq> [] \<and> CHR ''<'' \<notin> set v \<and> CHR ''>'' \<notin> set v"
    and "w \<noteq> []" "CHR ''<'' \<notin> set w" "CHR ''>'' \<notin> set w" "\<forall>(n, v) \<in> set vs. \<not> Contains (''secret '' @ n) w"
    and "w \<in> snd ` set vs \<or> \<not> Contains t w"
  shows "\<not> Contains (fold (\<lambda>(n, v) t. ReplaceAll t v (redaction n)) vs t) w"
  using assms
proof (induction vs arbitrary: t)
  case (Cons nv vs)
  obtain n v where nv: "nv = (n, v)" by force
  have mark: "redaction n = marker (''secret '' @ n)" by (simp add: redaction_def)
  have "v \<noteq> []" "\<not> Contains (''secret '' @ n) w" using Cons.prems nv by auto
  note step = replace_no_new [OF this(1) Cons.prems(2,3,4) this(2), of t]
  have "w \<in> snd ` set vs \<or> \<not> Contains (ReplaceAll t v (redaction n)) w"
    using step Cons.prems(6) nv unfolding ReplaceAll_def mark by auto
  then show ?case using Cons nv by auto
qed auto

lemma secret_values_stored:
  "secret_values etld1 d ns = Inr vs \<Longrightarrow> (n, v) \<in> set vs \<longleftrightarrow> n \<in> set ns \<and> (\<exists>r. stored d n r \<and> v = sr_Value r)"
proof (induction ns arbitrary: vs)
  case (Cons m ns)
  have read: "secret_read etld1 m d = Inr r \<Longrightarrow> \<exists>q. stored d m q \<and> sr_Value q = sr_Value r" for r
    by (auto simp: secret_read_def stored_def is_ok_iff split: sum.splits option.splits node.splits)
  have none: "secret_read etld1 m d = Inl e \<Longrightarrow> \<not> stored d m q" for e q
    by (auto simp: secret_read_def stored_def is_ok_iff)
  have det: "stored d m q \<Longrightarrow> stored d m q' \<Longrightarrow> q = q'" for q q' by (simp add: stored_def)
  show ?case
  proof (cases "secret_read etld1 m d")
    case (Inl e)
    then have "secret_values etld1 d ns = Inr vs" using Cons.prems by (auto split: if_splits)
    then show ?thesis using Cons.IH none [OF Inl] by auto
  next
    case (Inr r)
    then obtain us where "secret_values etld1 d ns = Inr us" "vs = (m, sr_Value r) # us"
      using Cons.prems by (auto split: sum.splits)
    then show ?thesis using Cons.IH read [OF Inr] det by (auto; blast)
  qed
qed auto

text \<open>A byte no value has cuts the text: what is before it and after it is replaced apart.\<close>

lemma replace_around:
  assumes "old \<noteq> []" "c \<notin> set old"
  shows "replace_from old new (a @ c # b) = replace_from old new a @ c # replace_from old new b"
  using assms
proof (induction old new a rule: replace_from.induct)
  case (1 old new)
  then have "\<not> HasPrefix (c # b) old" by (cases old) (auto simp: HasPrefix_def)
  then show ?case using 1 by (simp add: replace_from.simps)
next
  case (2 old new x a)
  have same: "HasPrefix (x # a @ c # b) old \<longleftrightarrow> HasPrefix (x # a) old"
  proof
    assume "HasPrefix (x # a @ c # b) old"
    then show "HasPrefix (x # a) old" using HasPrefix_before [OF \<open>c \<notin> set old\<close>, of "x # a" b] by simp
  next
    assume "HasPrefix (x # a) old"
    then show "HasPrefix (x # a @ c # b) old" by (metis HasPrefix_iff append_Cons append_assoc)
  qed
  show ?case
  proof (cases "HasPrefix (x # a) old")
    case True
    then have "length old \<le> length (x # a)" by (metis HasPrefix_iff length_append le_add1)
    then have "drop (length old) (x # a @ c # b) = drop (length old) (x # a) @ c # b" using \<open>old \<noteq> []\<close> by (cases old) auto
    then show ?thesis using 2 True same by (simp add: replace_from.simps)
  next
    case False
    then show ?thesis using 2 same by (simp add: replace_from.simps)
  qed
qed

lemma replace_absent: "old \<noteq> [] \<Longrightarrow> \<not> Contains s old \<Longrightarrow> replace_from old new s = s"
  by (induction old new s rule: replace_from.induct) (auto simp: replace_from.simps)

lemma replace_whole: "old \<noteq> [] \<Longrightarrow> replace_from old new old = new"
  by (cases old) (simp_all add: replace_from.simps HasPrefix_def)

text \<open>A piece of the text stands apart from the values: the bytes around it, if there are any, are in none.\<close>

definition apart :: "string list \<Rightarrow> string \<Rightarrow> string \<Rightarrow> bool" where
  "apart vs a b = (\<forall>v \<in> set vs. (a = [] \<or> last a \<notin> set v) \<and> (b = [] \<or> hd b \<notin> set v))"

lemma replace_apart:
  assumes "old \<noteq> []" "old \<in> set vs" "apart vs a b"
  shows "replace_from old new (a @ x @ b) = replace_from old new a @ replace_from old new x @ replace_from old new b"
    and "apart vs (replace_from old new a) (replace_from old new b)"
proof -
  have l: "a = [] \<or> (\<exists>a0 c. a = a0 @ [c] \<and> c \<notin> set old)" using assms(2,3) by (cases a rule: rev_cases) (auto simp: apart_def)
  have r: "b = [] \<or> (\<exists>c b0. b = c # b0 \<and> c \<notin> set old)" using assms(2,3) by (cases b) (auto simp: apart_def)
  have right: "replace_from old new (x @ b) = replace_from old new x @ replace_from old new b" for x
    using r assms(1) replace_around [OF assms(1), of _ new x] replace_around [OF assms(1), of _ new "[]"] by auto
  then show "replace_from old new (a @ x @ b) = replace_from old new a @ replace_from old new x @ replace_from old new b"
    using l assms(1) replace_around [OF assms(1), where new = new and b = "x @ b"] replace_around [OF assms(1), where new = new and b = "[]"]
    by auto
  have "last (replace_from old new a) = last a" if "a \<noteq> []"
    using l that replace_around [OF assms(1), where new = new and b = "[]"] assms(1) by auto
  moreover have "hd (replace_from old new b) = hd b" if "b \<noteq> []"
    using r that replace_around [OF assms(1), of _ new "[]"] assms(1) by auto
  moreover have "replace_from old new [] = []" using assms(1) by simp
  ultimately show "apart vs (replace_from old new a) (replace_from old new b)"
    using assms(3) unfolding apart_def by (metis (no_types, lifting))
qed

lemma redaction_kept:
  assumes "\<forall>(n, v) \<in> set vs. v \<noteq> [] \<and> CHR ''<'' \<notin> set v \<and> CHR ''>'' \<notin> set v \<and> \<not> Contains (''secret '' @ m) v"
  shows "\<exists>a' b'. fold (\<lambda>(n, v) t. ReplaceAll t v (redaction n)) vs (a @ redaction m @ b) = a' @ redaction m @ b'"
  using assms
proof (induction vs arbitrary: a b)
  case (Cons nv vs)
  obtain n v where nv: "nv = (n, v)" by force
  have v: "v \<noteq> []" "CHR ''<'' \<notin> set v" "CHR ''>'' \<notin> set v" "\<not> Contains (''secret '' @ m) v" using Cons.prems nv by auto
  let ?r = "replace_from v (redaction n)"
  have "?r (a @ CHR ''<'' # (''secret '' @ m) @ CHR ''>'' # b) = ?r a @ CHR ''<'' # (''secret '' @ m) @ CHR ''>'' # ?r b"
    using replace_around [OF v(1,2), of "redaction n" a "(''secret '' @ m) @ CHR ''>'' # b"]
      replace_around [OF v(1,3), of "redaction n" "''secret '' @ m" b] replace_absent [OF v(1,4)] by simp
  then have "ReplaceAll (a @ redaction m @ b) v (redaction n) = ?r a @ redaction m @ ?r b"
    by (simp add: ReplaceAll_def redaction_def)
  then show ?case using Cons nv by simp
qed auto

lemma longest_first:
  assumes "\<forall>(n, v) \<in> set vs. v \<noteq> [] \<and> CHR ''<'' \<notin> set v \<and> CHR ''>'' \<notin> set v \<and> (\<forall>(m, _) \<in> set vs. \<not> Contains (''secret '' @ m) v)"
    and "sorted_wrt (\<lambda>(n, v) (m, w). length w \<le> length v) vs" "x \<in> snd ` set vs" "apart (map snd vs) a b"
  shows "\<exists>a' m b'. (m, x) \<in> set vs \<and> fold (\<lambda>(n, v) t. ReplaceAll t v (redaction n)) vs (a @ x @ b) = a' @ redaction m @ b'"
  using assms
proof (induction vs arbitrary: a b)
  case (Cons nv vs)
  obtain n v where nv: "nv = (n, v)" by force
  have v: "v \<noteq> []" using Cons.prems(1) nv by auto
  let ?r = "replace_from v (redaction n)"
  note cut = replace_apart [OF v _ Cons.prems(4), of "redaction n"]
  have split: "?r (a @ x @ b) = ?r a @ ?r x @ ?r b" and ap: "apart (map snd vs) (?r a) (?r b)"
    using cut nv by (auto simp: apart_def)
  show ?case
  proof (cases "x = v")
    case True
    have "\<forall>(k, w) \<in> set vs. w \<noteq> [] \<and> CHR ''<'' \<notin> set w \<and> CHR ''>'' \<notin> set w \<and> \<not> Contains (''secret '' @ n) w"
      using Cons.prems(1) nv by auto
    from redaction_kept [OF this, of "?r a" "?r b"] show ?thesis
      using True nv split replace_whole [OF v] by (auto simp: ReplaceAll_def)
  next
    case False
    then have x: "x \<in> snd ` set vs" using Cons.prems(3) nv by auto
    then have "length x \<le> length v" using Cons.prems(2) nv by auto
    then have "\<not> Contains x v" using False by (auto simp: Contains_iff)
    then have "ReplaceAll (a @ x @ b) v (redaction n) = ?r a @ x @ ?r b" using split replace_absent [OF v] by (simp add: ReplaceAll_def)
    moreover have "\<exists>a' m b'. (m, x) \<in> set vs \<and> fold (\<lambda>(n, v) t. ReplaceAll t v (redaction n)) vs (?r a @ x @ ?r b) = a' @ redaction m @ b'"
      by (rule Cons.IH) (use Cons.prems(1,2) x ap nv in auto)
    ultimately show ?thesis using nv by fastforce
  qed
qed simp

lemma sorted_by_length: "sorted_wrt (\<lambda>(n, v) (m, w). length w \<le> length v) (sort_key (\<lambda>(n, v). - int (length v)) vs)"
proof -
  have "sorted_wrt (\<lambda>x y. (\<lambda>(n, v). - int (length v)) x \<le> (\<lambda>(n, v). - int (length v)) y) (sort_key (\<lambda>(n, v). - int (length v)) vs)"
    by (metis sorted_map sorted_sort_key)
  then show ?thesis by (rule sorted_wrt_mono_rel [rotated]) auto
qed

text \<open>A value with a bracket, or one the words of a redaction hold, can come back with a redaction: the stores the
  promise covers hold none.\<close>

definition redactable :: "secret_dir \<Rightarrow> bool" where
  "redactable d =
     (\<forall>n r. stored d n r \<longrightarrow> sr_Value r \<noteq> [] \<and> CHR ''<'' \<notin> set (sr_Value r) \<and> CHR ''>'' \<notin> set (sr_Value r)
        \<and> (\<forall>m q. stored d m q \<longrightarrow> \<not> Contains (''secret '' @ m) (sr_Value r)))"

definition stored_values :: "secret_dir \<Rightarrow> string list \<Rightarrow> bool" where
  "stored_values d vs = (\<forall>v. v \<in> set vs \<longleftrightarrow> (\<exists>n r. stored d n r \<and> v = sr_Value r))"

text \<open>C22: a redacted text holds no secret value. In a store whose values have no angle bracket and are no part of the
  words \<open>secret NAME\<close> a redaction puts in, nothing \<open>Redact\<close> returns contains a value of the store,
  whatever the text and however the values overlap; and a value that stands apart in the text, between bytes no
  value has or at an end, is replaced whole by the name of a secret with that value, so a shorter value inside it
  leaves no rest of it behind.\<close>

theorem Redact_clean:
  assumes "Redact etld1 d text = Inr out" "redactable d" "stored d n r"
  shows "\<not> Contains out (sr_Value r)
    \<and> (\<forall>a b vs. stored_values d vs \<and> apart vs a b \<and> text = a @ sr_Value r @ b \<longrightarrow>
         (\<exists>a' m q b'. stored d m q \<and> sr_Value q = sr_Value r \<and> out = a' @ redaction m @ b'))"
proof -
  obtain vs where vs: "secret_values etld1 d (secret_names d) = Inr vs"
    and out: "out = fold (\<lambda>(n, v) t. ReplaceAll t v (redaction n)) (sort_key (\<lambda>(n, v). - int (length v)) vs) text"
    using assms(1) by (auto simp: Redact_def split: sum.splits)
  have named: "stored d m q \<Longrightarrow> m \<in> set (secret_names d)" for m q
    by (auto simp: secret_names_def stored_def dest: map_of_SomeD intro: rev_image_eqI)
  have mem: "(m, v) \<in> set vs \<longleftrightarrow> (\<exists>q. stored d m q \<and> v = sr_Value q)" for m v
    using secret_values_stored [OF vs] named by blast
  have r: "sr_Value r \<in> snd ` set vs" using mem assms(3) by force
  have g1: "v \<noteq> [] \<and> CHR ''<'' \<notin> set v \<and> CHR ''>'' \<notin> set v" if "(m, v) \<in> set vs" for m v
    using assms(2) mem that unfolding redactable_def by metis
  have g2: "\<not> Contains (''secret '' @ k) v" if "(m, v) \<in> set vs" "(k, u) \<in> set vs" for m v k u
    using assms(2) mem that unfolding redactable_def by metis
  have good: "\<forall>(m, v) \<in> set vs. v \<noteq> [] \<and> CHR ''<'' \<notin> set v \<and> CHR ''>'' \<notin> set v \<and> (\<forall>(k, _) \<in> set vs. \<not> Contains (''secret '' @ k) v)"
    using g1 g2 by (auto simp del: Contains.simps append_Cons)
  have "\<not> Contains out (sr_Value r)"
  proof -
    obtain k where "(k, sr_Value r) \<in> set vs" using r by force
    then show ?thesis unfolding out using g1 g2 r
      by (intro fold_redact_clean) (auto simp: set_sort simp del: Contains.simps append_Cons)
  qed
  moreover have "\<exists>a' m q b'. stored d m q \<and> sr_Value q = sr_Value r \<and> out = a' @ redaction m @ b'"
    if sv: "stored_values d us" and ap: "apart us a b" and tx: "text = a @ sr_Value r @ b" for us a b
  proof -
    let ?s = "sort_key (\<lambda>(n, v). - int (length v)) vs"
    have "apart (map snd ?s) a b" using sv ap mem unfolding apart_def stored_values_def by fastforce
    then have "\<exists>a' m b'. (m, sr_Value r) \<in> set ?s \<and> out = a' @ redaction m @ b'"
      unfolding out tx using good r by (intro longest_first sorted_by_length) (auto simp: set_sort)
    then show ?thesis using mem by (auto simp: set_sort) blast
  qed
  ultimately show ?thesis by blast
qed

text \<open>The witness: one value inside another, the longer one alone in the text.\<close>

definition nested_secrets :: secret_dir where
  "nested_secrets =
     [(''A'', File (Some \<lparr>sr_Value = ''xyz'', sr_Destinations = [], sr_Placeholder = ''p'', sr_UpdatedAt = 1\<rparr>)),
      (''B'', File (Some \<lparr>sr_Value = ''wxyzq'', sr_Destinations = [], sr_Placeholder = ''o'', sr_UpdatedAt = 1\<rparr>))]"

lemma nested_stored:
  "stored nested_secrets n r \<longleftrightarrow>
     n = ''A'' \<and> r = \<lparr>sr_Value = ''xyz'', sr_Destinations = [], sr_Placeholder = ''p'', sr_UpdatedAt = 1\<rparr>
     \<or> n = ''B'' \<and> r = \<lparr>sr_Value = ''wxyzq'', sr_Destinations = [], sr_Placeholder = ''o'', sr_UpdatedAt = 1\<rparr>"
proof -
  have "is_ok (secret_ValidName ''A'')" "is_ok (secret_ValidName ''B'')" by code_simp+
  then show ?thesis by (auto simp: stored_def nested_secrets_def split: if_splits)
qed

theorem Redact_clean_witness:
  "Redact (\<lambda>_. False) nested_secrets ''k=wxyzq'' = Inr ''k=<secret B>''
   \<and> \<not> Contains ''k=<secret B>'' ''wxyzq'' \<and> (\<exists>a' m b'. ''k=<secret B>'' = a' @ redaction m @ b')"
proof -
  let ?r = "\<lparr>sr_Value = ''wxyzq'', sr_Destinations = [], sr_Placeholder = ''o'', sr_UpdatedAt = 1\<rparr>"
  have red: "Redact (\<lambda>_. False) nested_secrets ''k=wxyzq'' = Inr ''k=<secret B>''" by code_simp
  have ok: "redactable nested_secrets" by (auto simp: redactable_def nested_stored HasPrefix_def)
  have st: "stored nested_secrets ''B'' ?r" by (simp add: nested_stored)
  have vals: "stored_values nested_secrets [''xyz'', ''wxyzq'']" 
    by (auto simp: stored_values_def nested_stored) (metis secret_record.select_convs(1))+
  have ap: "apart [''xyz'', ''wxyzq''] ''k='' []" by (simp add: apart_def)
  have "\<exists>a' m q b'. stored nested_secrets m q \<and> sr_Value q = sr_Value ?r \<and> ''k=<secret B>'' = a' @ redaction m @ b'"
    using Redact_clean [OF red ok st] vals ap by fastforce
  then show ?thesis using red Redact_clean [OF red ok st] by auto
qed

end
