(* ===== verification/Wire.thy ===== *)
theory Wire
  imports SecretStore
begin

text \<open>
  What the broker uses of Go's \<open>strings\<close>, \<open>encoding/base64\<close> and \<open>net/http\<close>:
  \<open>strings.NewReplacer\<close>, \<open>strings.Count\<close> and \<open>strings.TrimSpace\<close>, the standard encoding with its
  lenient decoder, and the canonical spelling of a header name.
\<close>

subsection \<open>strings.NewReplacer\<close>

text \<open>At each place of the text the first pair, in argument order, whose old string starts there is
  replaced. An empty old string matches at every place, but not twice at the same one: the flag says
  the last match was the empty one.\<close>

fun find_pair :: "(string \<times> string) list \<Rightarrow> bool \<Rightarrow> string \<Rightarrow> (string \<times> string) option" where
  "find_pair [] prev s = None"
| "find_pair ((old, new) # ps) prev s =
     (if HasPrefix s old \<and> (old \<noteq> [] \<or> \<not> prev) then Some (old, new) else find_pair ps prev s)"

lemma find_pair_Some:
  "find_pair ps prev s = Some (old, new) \<Longrightarrow> (old, new) \<in> set ps \<and> HasPrefix s old \<and> (old \<noteq> [] \<or> \<not> prev)"
  by (induction ps prev s rule: find_pair.induct) (auto split: if_splits)

lemma HasPrefix_length: "HasPrefix s p \<Longrightarrow> length p \<le> length s"
  by (auto simp: HasPrefix_iff)

lemma shorter_after: "a \<noteq> [] \<Longrightarrow> length a \<le> length s \<Longrightarrow> length s - length a < length s"
  by (cases a; cases s) auto

function replacer :: "(string \<times> string) list \<Rightarrow> bool \<Rightarrow> string \<Rightarrow> string" where
  "replacer ps prev s =
     (case find_pair ps prev s of
        Some (old, new) \<Rightarrow> new @ replacer ps (old = []) (drop (length old) s)
      | None \<Rightarrow> (case s of [] \<Rightarrow> [] | c # t \<Rightarrow> c # replacer ps False t))"
  by pat_completeness auto
termination
  by (relation "measures [\<lambda>(ps, prev, s). length s, \<lambda>(ps, prev, s). if prev then 0 else 1]")
    (auto dest!: find_pair_Some HasPrefix_length intro: shorter_after)

declare replacer.simps [simp del]

definition NewReplacer :: "(string \<times> string) list \<Rightarrow> string \<Rightarrow> string" where
  "NewReplacer ps s = replacer ps False s"

subsection \<open>strings.Count\<close>

function count_from :: "string \<Rightarrow> string \<Rightarrow> nat" where
  "count_from p [] = 0"
| "count_from p (c # s) =
     (if p = [] then 1 + count_from p (drop (rune_len (c # s)) (c # s))
      else if HasPrefix (c # s) p then 1 + count_from p (drop (length p) (c # s))
      else count_from p s)"
  by pat_completeness auto
termination
  by (relation "measure (\<lambda>(p, s). length s)") auto

declare count_from.simps(2) [simp del]

text \<open>The empty string is counted once per rune and once more.\<close>

definition Count :: "string \<Rightarrow> string \<Rightarrow> nat" where
  "Count s p = (if p = [] then count_from p s + 1 else count_from p s)"

subsection \<open>encoding/base64\<close>

definition b64_char :: "nat \<Rightarrow> char" where
  "b64_char n = (if n < 26 then char_of (65 + n) else if n < 52 then char_of (71 + n)
     else if n < 62 then char_of (n - 4) else if n = 62 then CHR ''+'' else CHR ''/'')"

definition b64_value :: "char \<Rightarrow> nat option" where
  "b64_value c = (if is_upper c then Some (code c - 65) else if is_lower c then Some (code c - 71)
     else if is_digit c then Some (code c + 4) else if c = CHR ''+'' then Some 62
     else if c = CHR ''/'' then Some 63 else None)"

fun EncodeToString :: "string \<Rightarrow> string" where
  "EncodeToString [] = []"
| "EncodeToString [a] = [b64_char (code a div 4), b64_char (code a mod 4 * 16), CHR ''='', CHR ''='']"
| "EncodeToString [a, b] =
     [b64_char (code a div 4), b64_char (code a mod 4 * 16 + code b div 16), b64_char (code b mod 16 * 4), CHR ''='']"
| "EncodeToString (a # b # c # s) =
     b64_char (code a div 4) # b64_char (code a mod 4 * 16 + code b div 16)
     # b64_char (code b mod 16 * 4 + code c div 64) # b64_char (code c mod 64) # EncodeToString s"

definition EncodedLen :: "int \<Rightarrow> int" where
  "EncodedLen n = (n + 2) div 3 * 4"

text \<open>\<open>DecodeString\<close>: line breaks are skipped, padding is required and only at the end, and the bits a
  padded group leaves over are not checked.\<close>

fun decode_groups :: "string \<Rightarrow> string option" where
  "decode_groups [] = Some []"
| "decode_groups (a # b # c # d # s) =
     (case (b64_value a, b64_value b) of
        (Some x, Some y) \<Rightarrow>
          if c = CHR ''='' \<and> d = CHR ''='' then (if s = [] then Some [char_of (x * 4 + y div 16)] else None)
          else (case b64_value c of
             None \<Rightarrow> None
           | Some z \<Rightarrow>
               if d = CHR ''='' then
                 (if s = [] then Some [char_of (x * 4 + y div 16), char_of (y mod 16 * 16 + z div 4)] else None)
               else (case b64_value d of
                  None \<Rightarrow> None
                | Some w \<Rightarrow>
                    (case decode_groups s of
                       None \<Rightarrow> None
                     | Some r \<Rightarrow> Some (char_of (x * 4 + y div 16) # char_of (y mod 16 * 16 + z div 4)
                                     # char_of (z mod 4 * 64 + w) # r))))
      | _ \<Rightarrow> None)"
| "decode_groups _ = None"

definition DecodeString :: "string \<Rightarrow> string option" where
  "DecodeString s = decode_groups (filter (\<lambda>c. code c \<noteq> 10 \<and> code c \<noteq> 13) s)"

subsection \<open>strings.TrimSpace and http.CanonicalHeaderKey\<close>

function trim_left :: "string \<Rightarrow> string" where
  "trim_left s = (if space_len s = 0 then s else trim_left (drop (space_len s) s))"
  by pat_completeness auto
termination
  by (relation "measure length") (auto simp: space_len_def split: if_splits)

declare trim_left.simps [simp del]

definition last_space :: "string \<Rightarrow> nat" where
  "last_space s =
     (let ends = (\<lambda>k. k \<le> length s \<and> space_len (drop (length s - k) s) = k) in
      if ends 1 \<and> s \<noteq> [] then 1 else if ends 2 then 2 else if ends 3 then 3 else 0)"

function trim_right :: "string \<Rightarrow> string" where
  "trim_right s = (if last_space s = 0 then s else trim_right (take (length s - last_space s) s))"
  by pat_completeness auto
termination
  by (relation "measure length") (auto simp: last_space_def Let_def split: if_splits)

declare trim_right.simps [simp del]

definition TrimSpace :: "string \<Rightarrow> string" where
  "TrimSpace s = trim_right (trim_left s)"

definition upper_byte :: "char \<Rightarrow> char" where
  "upper_byte c = (if is_lower c then char_of (code c - 32) else c)"

text \<open>The bytes a header name may have; a name with any other is left as it is.\<close>

definition header_byte :: "char \<Rightarrow> bool" where
  "header_byte c = (is_lower c \<or> is_upper c \<or> is_digit c \<or> c \<in> set ''!#$%&*+-.^_`|~'' \<or> code c = 39)"

fun canonical_key :: "bool \<Rightarrow> string \<Rightarrow> string" where
  "canonical_key up [] = []"
| "canonical_key up (c # s) = (if up then upper_byte c else lower_byte c) # canonical_key (c = CHR ''-'') s"

definition CanonicalHeaderKey :: "string \<Rightarrow> string" where
  "CanonicalHeaderKey s = (if list_all header_byte s then canonical_key True s else s)"

end
