(* ===== verification/Broker.thy ===== *)
theory Broker
  imports Chains Wire
begin

text \<open>
  \<open>services/broker/broker.go\<close>: the proxy's director. It names the sandbox behind a connection, judges
  the request, logs the decision, and puts secret values in place of placeholders. The records it
  reads are a generation and what a listing returns; the clock, the lookup and whether the log takes
  a line are arguments. A request's headers are a list of canonical names with their values, in the
  order one pass over the Go map visits them.
\<close>

datatype broker_error =
    NoSandbox | RecordsUnread | BrokerPolicy policy_error | BrokerLookup compile_error | LogFailed
  | BrokerSecret secret_error | ReserveFailed

record request =
  rq_Source :: addr
  rq_Host :: string
  rq_Port :: int
  rq_TLS :: bool

record proxy_decision =
  pd_Allowed :: bool
  pd_Upstream :: "(addr \<times> int) option"
  pd_Hold :: bool
  pd_Rule :: string
  pd_Reason :: string

record egress_record =
  eg_Time :: time
  eg_Source :: string
  eg_Verdict :: string
  eg_Host :: string
  eg_Port :: int
  eg_Address :: string
  eg_Rule :: string
  eg_RuleText :: string
  eg_Reason :: string

record broker =
  br_cachedGen :: nat
  br_byAddr :: "(addr \<times> sandbox) list option"
  br_log :: "(string \<times> egress_record) list"

subsection \<open>The sandbox behind an address\<close>

definition addresses :: "sandbox list \<Rightarrow> (addr \<times> sandbox) list" where
  "addresses sbs =
     fold (\<lambda>sb m. if pfx_IsValid (sb_Address sb) \<and> sb_State sb \<noteq> StateFailed
                  then AList.update (pfx_addr (sb_Address sb)) sb m else m) sbs []"

definition lookup_addr :: "addr \<Rightarrow> (addr \<times> sandbox) list \<Rightarrow> broker_error + sandbox" where
  "lookup_addr source m = (case map_of m source of None \<Rightarrow> Inl NoSandbox | Some sb \<Rightarrow> Inr sb)"

definition broker_sandbox ::
  "nat \<Rightarrow> unit + sandbox list \<Rightarrow> addr \<Rightarrow> broker \<Rightarrow> broker \<times> (broker_error + sandbox)" where
  "broker_sandbox gen listing source b =
     (case br_byAddr b of
        Some m \<Rightarrow>
          if gen = br_cachedGen b then (b, lookup_addr source m)
          else (case listing of
                  Inl _ \<Rightarrow> (b, Inl RecordsUnread)
                | Inr sbs \<Rightarrow> (b\<lparr>br_byAddr := Some (addresses sbs), br_cachedGen := gen\<rparr>, lookup_addr source (addresses sbs)))
      | None \<Rightarrow>
          (case listing of
             Inl _ \<Rightarrow> (b, Inl RecordsUnread)
           | Inr sbs \<Rightarrow> (b\<lparr>br_byAddr := Some (addresses sbs), br_cachedGen := gen\<rparr>, lookup_addr source (addresses sbs))))"

subsection \<open>Decisions\<close>

definition decision_text :: "decision \<Rightarrow> string" where
  "decision_text dec =
     (case dec_Rule dec of
        None \<Rightarrow> []
      | Some er \<Rightarrow> if dst_Kind (rule_Destination (er_Rule er)) = DestinationOther [] then [] else FormatRule (er_Rule er))"

definition cmp_Or :: "string \<Rightarrow> string \<Rightarrow> string" where
  "cmp_Or a b = (if a \<noteq> [] then a else b)"

fun addr_text :: "addr \<Rightarrow> string" where
  "addr_text (V4 a) = ipv4_String a"
| "addr_text _ = []"

text \<open>\<open>record\<close>: the shared fields, and the append, which fails when the log takes no line.\<close>

definition broker_record ::
  "time \<Rightarrow> bool \<Rightarrow> string \<Rightarrow> request \<Rightarrow> action \<Rightarrow> egress_record \<Rightarrow> broker \<Rightarrow> broker \<times> (broker_error + unit)" where
  "broker_record now logged i req act r b =
     (let r1 = r\<lparr>eg_Time := now, eg_Source := ''proxy'', eg_Verdict := action_text act,
                 eg_Host := rq_Host req, eg_Port := rq_Port req\<rparr>
      in if \<not> logged then (b, Inl LogFailed) else (b\<lparr>br_log := br_log b @ [(i, r1)]\<rparr>, Inr ()))"

definition zero_record :: egress_record where
  "zero_record = \<lparr>eg_Time = 0, eg_Source = [], eg_Verdict = [], eg_Host = [], eg_Port = 0,
     eg_Address = [], eg_Rule = [], eg_RuleText = [], eg_Reason = []\<rparr>"

definition broker_denied ::
  "time \<Rightarrow> bool \<Rightarrow> string \<Rightarrow> request \<Rightarrow> decision \<Rightarrow> broker \<Rightarrow> broker \<times> (broker_error + proxy_decision)" where
  "broker_denied now logged i req dec b =
     (let text = decision_text dec;
          r = zero_record\<lparr>eg_Rule := dec_ID dec, eg_RuleText := text, eg_Reason := dec_Reason dec\<rparr>
      in case broker_record now logged i req (dec_Action dec) r b of
           (b', Inl e) \<Rightarrow> (b', Inl e)
         | (b', Inr _) \<Rightarrow> (b', Inr \<lparr>pd_Allowed = False, pd_Upstream = None, pd_Hold = False, pd_Rule = cmp_Or text (dec_ID dec),
                                   pd_Reason = dec_Reason dec\<rparr>))"

text \<open>What \<open>Decide\<close> does once the name has resolved to its first address.\<close>

definition broker_judge ::
  "u32 \<Rightarrow> policy_dir \<Rightarrow> addr list option \<Rightarrow> time \<Rightarrow> bool \<Rightarrow> sandbox \<Rightarrow> request \<Rightarrow> addr \<Rightarrow> broker
   \<Rightarrow> broker \<times> (broker_error + proxy_decision)" where
  "broker_judge gw d owned now logged sb req a b =
     (case Decide gw d owned sb (rq_Host req) (rq_Port req) a of
        Inl e \<Rightarrow> (b, Inl (BrokerPolicy e))
      | Inr dec \<Rightarrow>
          (let text = decision_text dec;
               r = zero_record\<lparr>eg_Address := addr_text a, eg_Rule := dec_ID dec, eg_RuleText := text,
                               eg_Reason := dec_Reason dec\<rparr>
           in case broker_record now logged (sb_ID sb) req (dec_Action dec) r b of
                (b', Inl e) \<Rightarrow> (b', Inl e)
              | (b', Inr _) \<Rightarrow>
                  (b', Inr \<lparr>pd_Allowed = (dec_Action dec = ActionAllow),
                            pd_Upstream = Some (a, rq_Port req mod 65536), pd_Hold = False,
                            pd_Rule = cmp_Or text (dec_ID dec), pd_Reason = dec_Reason dec\<rparr>)))"

definition broker_Decide ::
  "u32 \<Rightarrow> policy_dir \<Rightarrow> addr list option \<Rightarrow> lookup \<Rightarrow> (compile_error \<Rightarrow> string) \<Rightarrow> nat \<Rightarrow> unit + sandbox list
   \<Rightarrow> time \<Rightarrow> bool \<Rightarrow> request \<Rightarrow> broker \<Rightarrow> broker \<times> (broker_error + proxy_decision)" where
  "broker_Decide gw d owned lookup err_text gen listing now logged req b =
     (case broker_sandbox gen listing (rq_Source req) b of
        (b1, Inl e) \<Rightarrow> (b1, Inl e)
      | (b1, Inr sb) \<Rightarrow>
          (case Unresolved gw d sb (rq_Host req) (rq_Port req) of
             Inl e \<Rightarrow> (b1, Inl (BrokerPolicy e))
           | Inr (Some dec) \<Rightarrow> broker_denied now logged (sb_ID sb) req dec b1
           | Inr None \<Rightarrow>
               (case egress_Lookup lookup (rq_Host req) of
                  Inl e \<Rightarrow>
                    (let r = zero_record\<lparr>eg_Rule := RuleResolve, eg_Reason := err_text e\<rparr> in
                     case broker_record now logged (sb_ID sb) req ActionDeny r b1 of
                       (b2, Inl e') \<Rightarrow> (b2, Inl e')
                     | (b2, Inr _) \<Rightarrow> (b2, Inl (BrokerLookup e)))
                | Inr addrs \<Rightarrow> broker_judge gw d owned now logged sb req (hd addrs) b1)))"

definition broker_Resolve ::
  "u32 \<Rightarrow> policy_dir \<Rightarrow> nat \<Rightarrow> unit + sandbox list \<Rightarrow> time \<Rightarrow> bool \<Rightarrow> addr \<Rightarrow> string \<Rightarrow> broker
   \<Rightarrow> broker \<times> (broker_error + bool)" where
  "broker_Resolve gw d gen listing now logged source name b =
     (case broker_sandbox gen listing source b of
        (b1, Inl e) \<Rightarrow> (b1, Inl e)
      | (b1, Inr sb) \<Rightarrow>
          (case DecideName gw d sb name of
             Inl e \<Rightarrow> (b1, Inl (BrokerPolicy e))
           | Inr dec \<Rightarrow>
               if \<not> logged then (b1, Inl LogFailed)
               else (b1\<lparr>br_log := br_log b1 @ [(sb_ID sb,
                       \<lparr>eg_Time = now, eg_Source = ''dns'', eg_Verdict = action_text (dec_Action dec),
                        eg_Host = name, eg_Port = 0, eg_Address = [], eg_Rule = dec_ID dec,
                        eg_RuleText = decision_text dec, eg_Reason = dec_Reason dec\<rparr>)]\<rparr>,
                     Inr (dec_Action dec = ActionAllow))))"

definition Untrusted ::
  "nat \<Rightarrow> unit + sandbox list \<Rightarrow> time \<Rightarrow> bool \<Rightarrow> request \<Rightarrow> addr \<Rightarrow> string \<Rightarrow> broker \<Rightarrow> broker \<times> (broker_error + unit)" where
  "Untrusted gen listing now logged req upstream reason b =
     (case broker_sandbox gen listing (rq_Source req) b of
        (b1, Inl e) \<Rightarrow> (b1, Inl e)
      | (b1, Inr sb) \<Rightarrow>
          broker_record now logged (sb_ID sb) req ActionDeny
            (zero_record\<lparr>eg_Address := addr_text upstream, eg_Rule := ''certificate'', eg_Reason := reason\<rparr>) b1)"

subsection \<open>Putting the values in\<close>

definition granted :: "secret \<Rightarrow> string \<Rightarrow> bool" where
  "granted sec host = list_ex (\<lambda>dest. MatchHost dest host) (se_Destinations sec)"

text \<open>The swap of one secret: the placeholder and what goes out in its place, itself when nothing does.\<close>

definition swap_of ::
  "(string \<Rightarrow> bool) \<Rightarrow> secret_dir \<Rightarrow> request \<Rightarrow> string \<Rightarrow> secret_error + string \<times> string" where
  "swap_of etld1 d req name =
     (case secret_Get etld1 name d of
        Inl e \<Rightarrow> if e = SecretNotFound then Inr (DefaultPlaceholder name, DefaultPlaceholder name) else Inl e
      | Inr sec \<Rightarrow>
          if \<not> rq_TLS req \<or> \<not> granted sec (rq_Host req) then Inr (se_Placeholder sec, se_Placeholder sec)
          else (case secret_Value etld1 name d of Inl e \<Rightarrow> Inl e | Inr v \<Rightarrow> Inr (se_Placeholder sec, v)))"

fun swaps_of ::
  "(string \<Rightarrow> bool) \<Rightarrow> secret_dir \<Rightarrow> request \<Rightarrow> string list \<Rightarrow> secret_error + (string \<times> string) list" where
  "swaps_of etld1 d req [] = Inr []"
| "swaps_of etld1 d req (n # ns) =
     (case swap_of etld1 d req n of
        Inl e \<Rightarrow> Inl e
      | Inr s \<Rightarrow> (case swaps_of etld1 d req ns of Inl e \<Rightarrow> Inl e | Inr ss \<Rightarrow> Inr (s # ss)))"

text \<open>A substitution: the pairs, longest placeholder first, and those of them that change something. The
  budget is charged through \<open>reserve\<close>.\<close>

definition changes :: "(string \<times> string) list \<Rightarrow> (string \<times> string) list" where
  "changes pairs = filter (\<lambda>(p, w). w \<noteq> p) pairs"

definition bound :: "(string \<times> string) list \<Rightarrow> string \<Rightarrow> int \<times> bool" where
  "bound pairs s =
     (int (length s) + sum_list (map (\<lambda>(p, w). int (Count s p) * max 0 (int (length w) - int (length p))) (changes pairs)),
      list_ex (\<lambda>(p, w). Count s p \<noteq> 0) (changes pairs))"

definition rewrite ::
  "(int \<Rightarrow> 'r \<Rightarrow> 'r option) \<Rightarrow> (string \<times> string) list \<Rightarrow> string \<Rightarrow> 'r \<Rightarrow> ('r \<times> string) option" where
  "rewrite reserve pairs s budget =
     (case bound pairs s of (len, found) \<Rightarrow>
        if \<not> found then Some (budget, s)
        else case reserve len budget of
          None \<Rightarrow> None
        | Some b \<Rightarrow> Some (b, NewReplacer pairs s))"

type_synonym header = "(string \<times> string list) list"

definition header_Values :: "header \<Rightarrow> string \<Rightarrow> string list" where
  "header_Values h name = (case map_of h name of None \<Rightarrow> [] | Some vs \<Rightarrow> vs)"

definition hopByHop :: "header \<Rightarrow> string set" where
  "hopByHop h =
     set [''Connection'', ''Proxy-Connection'', ''Keep-Alive'', ''Proxy-Authenticate'',
          ''Proxy-Authorization'', ''Te'', ''Trailer'', ''Transfer-Encoding'', ''Upgrade'']
     \<union> set (concat (map (\<lambda>v. map (\<lambda>n. CanonicalHeaderKey (TrimSpace n)) (Split v (CHR '',''))) (header_Values h ''Connection'')))"

fun rewrite_values ::
  "(int \<Rightarrow> 'r \<Rightarrow> 'r option) \<Rightarrow> (string \<times> string) list \<Rightarrow> string list \<Rightarrow> 'r \<Rightarrow> ('r \<times> string list) option" where
  "rewrite_values reserve pairs [] b = Some (b, [])"
| "rewrite_values reserve pairs (v # vs) b =
     (case rewrite reserve pairs v b of
        None \<Rightarrow> None
      | Some (b1, v') \<Rightarrow>
          (case rewrite_values reserve pairs vs b1 of None \<Rightarrow> None | Some (b2, vs') \<Rightarrow> Some (b2, v' # vs')))"

fun rewrite_headers ::
  "(int \<Rightarrow> 'r \<Rightarrow> 'r option) \<Rightarrow> (string \<times> string) list \<Rightarrow> string set \<Rightarrow> header \<Rightarrow> 'r \<Rightarrow> ('r \<times> header) option" where
  "rewrite_headers reserve pairs hop [] b = Some (b, [])"
| "rewrite_headers reserve pairs hop ((name, vs) # h) b =
     (case (if name \<in> hop then Some (b, vs) else rewrite_values reserve pairs vs b) of
        None \<Rightarrow> None
      | Some (b1, vs') \<Rightarrow>
          (case rewrite_headers reserve pairs hop h b1 of
             None \<Rightarrow> None | Some (b2, h') \<Rightarrow> Some (b2, (name, vs') # h')))"

definition rewriteBasic ::
  "(int \<Rightarrow> 'r \<Rightarrow> 'r option) \<Rightarrow> (string \<times> string) list \<Rightarrow> header \<Rightarrow> 'r \<Rightarrow> ('r \<times> header) option" where
  "rewriteBasic reserve pairs h b =
     (let v = (case header_Values h ''Authorization'' of [] \<Rightarrow> [] | x # _ \<Rightarrow> x) in
      if length v \<le> 6 \<or> map lower_byte (take 6 v) \<noteq> ''basic '' then Some (b, h)
      else case DecodeString (drop 6 v) of
        None \<Rightarrow> Some (b, h)
      | Some decoded \<Rightarrow>
          if \<not> Contains decoded '':'' then Some (b, h)
          else case rewrite reserve pairs decoded b of
            None \<Rightarrow> None
          | Some (b1, swapped) \<Rightarrow>
              if swapped = decoded then Some (b1, h)
              else case reserve (int (length swapped) + 3 * (6 + EncodedLen (int (length swapped)))) b1 of
                None \<Rightarrow> None
              | Some b2 \<Rightarrow> Some (b2, AList.update ''Authorization'' [take 6 v @ EncodeToString swapped] h))"

definition substitute ::
  "(int \<Rightarrow> 'r \<Rightarrow> 'r option) \<Rightarrow> (string \<times> string) list \<Rightarrow> header \<Rightarrow> 'r \<Rightarrow> ('r \<times> header) option" where
  "substitute reserve pairs h b =
     (let hop = hopByHop h in
      case rewrite_headers reserve pairs hop h b of
        None \<Rightarrow> None
      | Some (b1, h1) \<Rightarrow> if ''Authorization'' \<in> hop then Some (b1, h1) else rewriteBasic reserve pairs h1 b1)"

definition Rewrite ::
  "(string \<Rightarrow> bool) \<Rightarrow> secret_dir \<Rightarrow> nat \<Rightarrow> unit + sandbox list \<Rightarrow> (int \<Rightarrow> 'r \<Rightarrow> 'r option) \<Rightarrow> request
   \<Rightarrow> header \<Rightarrow> string \<Rightarrow> 'r \<Rightarrow> broker \<Rightarrow> broker \<times> (broker_error + 'r \<times> header \<times> string)" where
  "Rewrite etld1 d gen listing reserve req h body budget b =
     (case broker_sandbox gen listing (rq_Source req) b of
        (b1, Inl e) \<Rightarrow> (b1, Inl e)
      | (b1, Inr sb) \<Rightarrow>
          (case swaps_of etld1 d req (sb_Secrets sb) of
             Inl e \<Rightarrow> (b1, Inl (BrokerSecret e))
           | Inr swaps \<Rightarrow>
               (case substitute reserve (sort_key (\<lambda>(p, w). - int (length p)) swaps) h budget of
                  None \<Rightarrow> (b1, Inl ReserveFailed)
                | Some (budget', h') \<Rightarrow> (b1, Inr (budget', h', body)))))"

subsection \<open>A value goes only where it is granted\<close>

lemma swap_of_cong:
  assumes "secret_Get etld1 n d1 = secret_Get etld1 n d2"
    and "\<And>s. secret_Get etld1 n d1 = Inr s \<Longrightarrow> rq_TLS req \<Longrightarrow> granted s (rq_Host req)
      \<Longrightarrow> secret_Value etld1 n d1 = secret_Value etld1 n d2"
  shows "swap_of etld1 d1 req n = swap_of etld1 d2 req n"
proof (cases "secret_Get etld1 n d2")
  case (Inl e)
  then show ?thesis using assms(1) by (simp add: swap_of_def)
next
  case (Inr s)
  then have "secret_Get etld1 n d1 = Inr s" using assms(1) by simp
  then show ?thesis using assms(2) [of s] Inr by (auto simp: swap_of_def)
qed

lemma swaps_of_cong:
  "(\<And>n. n \<in> set ns \<Longrightarrow> swap_of etld1 d1 req n = swap_of etld1 d2 req n)
   \<Longrightarrow> swaps_of etld1 d1 req ns = swaps_of etld1 d2 req ns"
proof (induction ns)
  case (Cons n ns)
  then show ?case by (cases "swap_of etld1 d2 req n") auto
qed simp

text \<open>C11: what the proxy sends does not depend on a secret that is not granted to the host. Two stores that
  say the same of every secret and differ only in the values of secrets not granted to the request's
  host, or in any value when the request is not over TLS, give the same rewrite of every request.\<close>

theorem Rewrite_confidential:
  assumes "\<forall>n. secret_Get etld1 n d1 = secret_Get etld1 n d2"
    and "\<forall>n s. secret_Get etld1 n d1 = Inr s \<and> rq_TLS req \<and> granted s (rq_Host req)
      \<longrightarrow> secret_Value etld1 n d1 = secret_Value etld1 n d2"
  shows "Rewrite etld1 d1 gen listing reserve req h body budget b = Rewrite etld1 d2 gen listing reserve req h body budget b"
proof -
  have "swaps_of etld1 d1 req ns = swaps_of etld1 d2 req ns" for ns
    using assms by (intro swaps_of_cong swap_of_cong) auto
  then have same: "swaps_of etld1 d1 req = swaps_of etld1 d2 req" by (rule ext)
  show ?thesis unfolding Rewrite_def by (subst same) (rule refl)
qed

lemma changes_nil_rewrite: "changes pairs = [] \<Longrightarrow> rewrite reserve pairs s b = Some (b, s)"
  by (simp add: rewrite_def bound_def)

lemma changes_nil_substitute:
  assumes "changes pairs = []"
  shows "substitute reserve pairs h b = Some (b, h)"
proof -
  have vals: "rewrite_values reserve pairs vs b = Some (b, vs)" for vs
    by (induction vs) (simp_all add: changes_nil_rewrite [OF assms])
  have "rewrite_headers reserve pairs hop h b = Some (b, h)" for hop
    by (induction h) (auto simp: vals)
  then show ?thesis
    by (simp add: substitute_def rewriteBasic_def Let_def changes_nil_rewrite [OF assms] split: option.splits)
qed

lemma swaps_of_identity:
  assumes "swaps_of etld1 d req ns = Inr ss"
    and "\<not> rq_TLS req \<or> (\<forall>n \<in> set ns. \<forall>s. secret_Get etld1 n d = Inr s \<longrightarrow> \<not> granted s (rq_Host req))"
  shows "\<forall>(p, w) \<in> set ss. w = p"
  using assms
proof (induction ns arbitrary: ss)
  case (Cons n ns)
  then obtain s rest where s: "swap_of etld1 d req n = Inr s" "swaps_of etld1 d req ns = Inr rest" "ss = s # rest"
    by (auto split: sum.splits)
  have "snd s = fst s"
    using s(1) Cons.prems(2) by (auto simp: swap_of_def split: sum.splits if_splits)
  then show ?case using Cons.IH [OF s(2)] Cons.prems(2) s(3) by auto
qed simp

text \<open>A request leaves as the guest wrote it unless a secret of its own sandbox is granted to its host and
  it goes over TLS: otherwise every header, the body and the budget are unchanged.\<close>

lemma Rewrite_identity:
  assumes "broker_sandbox gen listing (rq_Source req) b = (b1, Inr sb)"
    and "\<not> rq_TLS req \<or> (\<forall>n \<in> set (sb_Secrets sb). \<forall>s. secret_Get etld1 n d = Inr s \<longrightarrow> \<not> granted s (rq_Host req))"
    and "Rewrite etld1 d gen listing reserve req h body budget b = (b2, Inr out)"
  shows "out = (budget, h, body)"
proof -
  obtain ss where ss: "swaps_of etld1 d req (sb_Secrets sb) = Inr ss"
    using assms(1,3) by (auto simp: Rewrite_def split: sum.splits)
  let ?pairs = "sort_key (\<lambda>(p, w). - int (length p)) ss"
  have "changes ?pairs = []"
    using swaps_of_identity [OF ss assms(2)] by (auto simp: changes_def filter_empty_conv)
  from changes_nil_substitute [OF this, of reserve h budget] show ?thesis
    using assms(1,3) ss by (simp add: Rewrite_def)
qed

subsection \<open>The headers of the connection\<close>

lemma rewrite_headers_hop:
  "rewrite_headers reserve pairs hop h b = Some (b', h') \<Longrightarrow> name \<in> hop \<Longrightarrow> header_Values h' name = header_Values h name"
proof (induction h arbitrary: b b' h')
  case (Cons nv h)
  obtain n vs where nv: "nv = (n, vs)" by force
  from Cons.prems(1) nv obtain b1 vs' b2 h2 where
    one: "(if n \<in> hop then Some (b, vs) else rewrite_values reserve pairs vs b) = Some (b1, vs')"
    and rest: "rewrite_headers reserve pairs hop h b1 = Some (b2, h2)" "h' = (n, vs') # h2"
    by (auto split: option.splits)
  show ?case using Cons.IH [OF rest(1) Cons.prems(2)] one rest(2) nv Cons.prems(2)
    by (auto simp: header_Values_def)
qed simp

lemma rewriteBasic_other:
  "rewriteBasic reserve pairs h b = Some (b', h') \<Longrightarrow> name \<noteq> ''Authorization'' \<Longrightarrow> header_Values h' name = header_Values h name"
  by (auto simp: rewriteBasic_def header_Values_def update_conv' Let_def split: if_splits option.splits)

text \<open>A header of the connection is never rewritten: the fixed hop-by-hop ones and every one the request's
  Connection header names keep their values, whatever they hold.\<close>

lemma substitute_keeps_hop:
  assumes "substitute reserve pairs h b = Some (b', h')" "name \<in> hopByHop h"
  shows "header_Values h' name = header_Values h name"
proof -
  obtain b1 h1 where h1: "rewrite_headers reserve pairs (hopByHop h) h b = Some (b1, h1)"
    "(if ''Authorization'' \<in> hopByHop h then Some (b1, h1) else rewriteBasic reserve pairs h1 b1) = Some (b', h')"
    using assms(1) by (auto simp: substitute_def Let_def split: option.splits)
  have "header_Values h1 name = header_Values h name" by (rule rewrite_headers_hop [OF h1(1) assms(2)])
  moreover have "header_Values h' name = header_Values h1 name"
    using h1(2) assms(2) rewriteBasic_other [of reserve pairs h1 b1 b' h' name] by (auto split: if_splits)
  ultimately show ?thesis by simp
qed

text \<open>The witnesses share two stores that differ in the value of one secret, granted to another host.\<close>

definition example_secrets :: "string \<Rightarrow> secret_dir" where
  "example_secrets v =
     [(''K'', File (Some \<lparr>sr_Value = v, sr_Destinations = [''a.io''], sr_Placeholder = ''mock-K'', sr_UpdatedAt = 1\<rparr>))]"

definition example_holder :: sandbox where
  "example_holder = zero_sandbox\<lparr>sb_ID := ''sb1'', sb_Secrets := [''K''], sb_Address := Prefix (V4 0x0a580002) (Some 16)\<rparr>"

definition example_request :: request where
  "example_request = \<lparr>rq_Source = V4 0x0a580002, rq_Host = ''b.io'', rq_Port = 443, rq_TLS = True\<rparr>"

definition empty_broker :: broker where
  "empty_broker = \<lparr>br_cachedGen = 0, br_byAddr = None, br_log = []\<rparr>"

lemma example_secrets_Get: "secret_Get etld1 n (example_secrets v) = secret_Get etld1 n (example_secrets w)"
  by (auto simp: secret_Get_def secret_read_def example_secrets_def public_def split: sum.splits)

lemma example_not_granted: "secret_Get etld1 n (example_secrets v) = Inr s \<Longrightarrow> \<not> granted s ''b.io''"
proof -
  assume s: "secret_Get etld1 n (example_secrets v) = Inr s"
  have m: "\<not> MatchHost ''a.io'' ''b.io''" by code_simp
  have "se_Destinations s \<in> {[], [''a.io'']}"
    using s by (auto simp: secret_Get_def secret_read_def example_secrets_def public_def split: sum.splits if_splits)
  then show ?thesis using m by (auto simp: granted_def)
qed

theorem Rewrite_confidential_witness:
  "snd (Rewrite (\<lambda>_. False) (example_secrets ''one'') 1 (Inr [example_holder]) (\<lambda>_ b. Some b) example_request
      [(''X-Key'', [''mock-K''])] [] () empty_broker)
   = snd (Rewrite (\<lambda>_. False) (example_secrets ''two'') 1 (Inr [example_holder]) (\<lambda>_ b. Some b) example_request
      [(''X-Key'', [''mock-K''])] [] () empty_broker)"
proof -
  have "\<forall>n. secret_Get (\<lambda>_. False) n (example_secrets ''one'') = secret_Get (\<lambda>_. False) n (example_secrets ''two'')"
    using example_secrets_Get by blast
  moreover have "\<forall>n s. secret_Get (\<lambda>_. False) n (example_secrets ''one'') = Inr s \<and> rq_TLS example_request
      \<and> granted s (rq_Host example_request)
      \<longrightarrow> secret_Value (\<lambda>_. False) n (example_secrets ''one'') = secret_Value (\<lambda>_. False) n (example_secrets ''two'')"
    using example_not_granted by (auto simp: example_request_def)
  ultimately show ?thesis by (subst Rewrite_confidential) auto
qed

subsection \<open>The bound of a rewrite\<close>

lemma count_from_drop:
  assumes "p \<noteq> []"
  shows "(\<forall>k. count_from p (drop k s) \<le> count_from p s)
    \<and> (\<forall>k \<le> length p. count_from p s \<le> 1 + count_from p (drop k s))"
proof (induction s rule: length_induct)
  case (1 s)
  show ?case
  proof (cases s)
    case (Cons c t)
    have mono: "count_from p (drop k u) \<le> count_from p u" if "length u < length s" for u k
      using 1 that by blast
    have near: "count_from p u \<le> 1 + count_from p (drop k u)" if "length u < length s" "k \<le> length p" for u k
      using 1 that by blast
    obtain m where m: "length p = Suc m" using assms by (cases p) auto
    have step: "count_from p t \<le> count_from p s"
      using near [of t m] m Cons assms by (auto simp: count_from.simps)
    have "count_from p (drop k s) \<le> count_from p s" for k
      using mono [of t "k - 1"] step Cons by (cases k) auto
    moreover have "count_from p s \<le> 1 + count_from p (drop k s)" if "k \<le> length p" for k
    proof (cases k)
      case (Suc j)
      show ?thesis
      proof (cases "HasPrefix s p")
        case True
        have "drop (length p) s = drop (length p - k) (drop k s)" using that by simp
        moreover have "length (drop k s) < length s" using Suc Cons by simp
        ultimately show ?thesis
          using mono [of "drop k s" "length p - k"] True Cons assms by (simp add: count_from.simps)
      next
        case False
        then show ?thesis using near [of t j] that Suc Cons assms by (simp add: count_from.simps)
      qed
    qed simp
    ultimately show ?thesis by blast
  qed simp
qed

definition gain :: "(string \<times> string) list \<Rightarrow> string \<Rightarrow> int" where
  "gain ps s = sum_list (map (\<lambda>(p, w). int (count_from p s) * max 0 (int (length w) - int (length p))) ps)"

lemma gain_drop: "\<forall>(p, w) \<in> set ps. p \<noteq> [] \<Longrightarrow> gain ps (drop k s) \<le> gain ps s"
  unfolding gain_def using count_from_drop
  by (intro sum_list_mono) (fastforce intro!: mult_right_mono)

lemma gain_match:
  assumes ps: "\<forall>(p, w) \<in> set ps. p \<noteq> []" and pw: "(p, w) \<in> set ps" and pre: "HasPrefix s p"
  shows "max 0 (int (length w) - int (length p)) + gain ps (drop (length p) s) \<le> gain ps s"
  using ps pw
proof (induction ps)
  case (Cons qv ps)
  obtain q v where qv: "qv = (q, v)" by force
  have hd: "int (count_from q (drop (length p) s)) * max 0 (int (length v) - int (length q))
      \<le> int (count_from q s) * max 0 (int (length v) - int (length q))"
    using count_from_drop [of q s] Cons.prems(1) qv by (intro mult_right_mono) auto
  have tl: "gain ps (drop (length p) s) \<le> gain ps s" using gain_drop Cons.prems(1) by auto
  show ?case
  proof (cases "(p, w) \<in> set ps")
    case True
    then show ?thesis using Cons hd qv by (auto simp: gain_def)
  next
    case False
    then have eq: "q = p" "v = w" using Cons.prems(2) qv by auto
    have "p \<noteq> []" using Cons.prems(1) qv eq by auto
    then have "count_from p s = 1 + count_from p (drop (length p) s)"
      using pre by (cases s) (auto simp: count_from.simps HasPrefix_def)
    then show ?thesis using tl qv eq by (simp add: gain_def algebra_simps)
  qed
qed simp

lemma replacer_length:
  assumes "\<forall>(p, w) \<in> set ps. p \<noteq> []"
  shows "int (length (replacer ps prev s)) \<le> int (length s) + gain (changes ps) s"
  using assms
proof (induction ps prev s rule: replacer.induct)
  case (1 ps prev s)
  have ne: "\<forall>(p, w) \<in> set (changes ps). p \<noteq> []" using 1(3) by (auto simp: changes_def)
  show ?case
  proof (cases "find_pair ps prev s")
    case None
    have zero: "gain qs [] = 0" for qs by (induction qs) (auto simp: gain_def)
    show ?thesis
    proof (cases s)
      case Nil
      then show ?thesis using None zero by (subst replacer.simps) simp
    next
      case (Cons c t)
      have "gain (changes ps) t \<le> gain (changes ps) s" using gain_drop [OF ne, of 1 s] Cons by simp
      then show ?thesis using 1(1) [OF None Cons 1(3)] None Cons by (subst replacer.simps) simp
    qed
  next
    case (Some pw)
    obtain p w where pw: "pw = (p, w)" by force
    have found: "(p, w) \<in> set ps" "HasPrefix s p" using find_pair_Some [of ps prev s p w] Some pw by auto
    have ih: "int (length (replacer ps (p = []) (drop (length p) s)))
        \<le> int (length (drop (length p) s)) + gain (changes ps) (drop (length p) s)"
      using 1(2) [OF Some pw [symmetric] 1(3)] by simp
    have len: "int (length (drop (length p) s)) = int (length s) - int (length p)"
      using HasPrefix_length [OF found(2)] by simp
    have "int (length w) - int (length p) + gain (changes ps) (drop (length p) s) \<le> gain (changes ps) s"
    proof (cases "w = p")
      case True
      then show ?thesis using gain_drop [OF ne] by simp
    next
      case False
      then have "(p, w) \<in> set (changes ps)" using found by (simp add: changes_def)
      from gain_match [OF ne this found(2)] show ?thesis by simp
    qed
    then show ?thesis using ih len Some pw by (simp add: replacer.simps [of ps prev s])
  qed
qed

text \<open>C23: what a rewrite reserves is enough. Where no placeholder is empty, the text the replacer writes is
  never longer than the size \<open>bound\<close> charged to the budget, however the placeholders overlap.\<close>

theorem rewrite_within_bound:
  assumes "\<forall>(p, w) \<in> set pairs. p \<noteq> []"
  shows "int (length (NewReplacer pairs s)) \<le> fst (bound pairs s)"
proof -
  have "gain (changes pairs) s = sum_list (map (\<lambda>(p, w). int (Count s p) * max 0 (int (length w) - int (length p))) (changes pairs))"
    unfolding gain_def using assms
    by (intro arg_cong [where f = sum_list] map_cong refl) (auto simp: Count_def changes_def)
  then show ?thesis using replacer_length [OF assms, of False s] by (simp add: NewReplacer_def bound_def)
qed

theorem rewrite_within_bound_witness:
  "int (length (NewReplacer [(''aba'', ''12345''), (''ab'', '''')] ''ababab'')) \<le> fst (bound [(''aba'', ''12345''), (''ab'', '''')] ''ababab'')
   \<and> fst (bound [(''aba'', ''12345''), (''ab'', '''')] ''ababab'') = 8"
  using rewrite_within_bound [of "[(''aba'', ''12345''), (''ab'', '''')]" "''ababab''"] by (simp, code_simp)

subsection \<open>The cached address map\<close>

text \<open>The repository promises that a generation names one set of records: \<open>recs\<close> is what a listing returns
  at each.\<close>

definition cache_ok :: "(nat \<Rightarrow> unit + sandbox list) \<Rightarrow> broker \<Rightarrow> bool" where
  "cache_ok recs b =
     (\<forall>m. br_byAddr b = Some m \<longrightarrow> (\<exists>sbs. recs (br_cachedGen b) = Inr sbs \<and> m = addresses sbs))"

definition fresh_sandbox :: "unit + sandbox list \<Rightarrow> addr \<Rightarrow> broker_error + sandbox" where
  "fresh_sandbox listing source =
     (case listing of Inl _ \<Rightarrow> Inl RecordsUnread | Inr sbs \<Rightarrow> lookup_addr source (addresses sbs))"

lemma broker_sandbox_cached:
  assumes "cache_ok recs b"
  shows "snd (broker_sandbox gen (recs gen) source b) = fresh_sandbox (recs gen) source
    \<and> cache_ok recs (fst (broker_sandbox gen (recs gen) source b))"
  using assms
  by (auto simp: broker_sandbox_def cache_ok_def fresh_sandbox_def split: option.splits sum.splits)

lemma broker_record_cache:
  "cache_ok recs (fst (broker_record now logged i req act r b)) = cache_ok recs b"
  by (simp add: broker_record_def cache_ok_def Let_def)

lemma broker_denied_cache: "cache_ok recs (fst (broker_denied now logged i req dec b)) = cache_ok recs b"
  by (simp add: broker_denied_def broker_record_def cache_ok_def Let_def)

lemma broker_judge_cache: "cache_ok recs (fst (broker_judge gw d owned now logged sb req a b)) = cache_ok recs b"
  by (simp add: broker_judge_def broker_record_def cache_ok_def Let_def split: sum.splits)

inductive broker_step :: "(nat \<Rightarrow> unit + sandbox list) \<Rightarrow> broker \<Rightarrow> broker \<Rightarrow> bool" for recs where
  decide: "broker_step recs b (fst (broker_Decide gw d owned lookup err_text gen (recs gen) now logged req b))"
| resolve: "broker_step recs b (fst (broker_Resolve gw d gen (recs gen) now logged source name b))"
| untrusted: "broker_step recs b (fst (Untrusted gen (recs gen) now logged req upstream reason b))"
| rewrite: "broker_step recs b (fst (Rewrite etld1 sd gen (recs gen) reserve req h body (budget :: int) b))"

lemma broker_Decide_cache:
  assumes "cache_ok recs b"
  shows "cache_ok recs (fst (broker_Decide gw d owned lookup err_text gen (recs gen) now logged req b))"
proof -
  obtain b1 r where one: "broker_sandbox gen (recs gen) (rq_Source req) b = (b1, r)" by force
  then have ok: "cache_ok recs b1" using broker_sandbox_cached [OF assms, of gen "rq_Source req"] by simp
  have rec: "cache_ok recs b2" if "broker_record now logged i req act q b1 = (b2, x)" for i act q b2 x
    using broker_record_cache [of recs now logged i req act q b1] that ok by simp
  show ?thesis
    using one ok broker_denied_cache broker_judge_cache
    by (auto simp: broker_Decide_def Let_def split: sum.splits option.splits prod.splits dest: rec)
qed

interpretation brokers: stepping "\<lambda>b. br_byAddr b = None" "broker_step recs" "cache_ok recs" for recs
proof unfold_locales
  fix b b' assume inv: "cache_ok recs b" and "broker_step recs b b'"
  note one = broker_sandbox_cached [OF inv]
  from \<open>broker_step recs b b'\<close> show "cache_ok recs b'"
  proof cases
    case decide
    then show ?thesis using broker_Decide_cache [OF inv] by simp
  next
    case (resolve gw d gen now logged source name)
    then show ?thesis using one [of gen source]
      by (cases "broker_sandbox gen (recs gen) source b") (auto simp: broker_Resolve_def cache_ok_def split: sum.splits)
  next
    case (untrusted gen now logged req upstream reason)
    then show ?thesis using one [of gen "rq_Source req"] broker_record_cache
      by (cases "broker_sandbox gen (recs gen) (rq_Source req) b") (auto simp: Untrusted_def split: sum.splits)
  next
    case (rewrite etld1 sd gen reserve req h body budget)
    then show ?thesis using one [of gen "rq_Source req"]
      by (cases "broker_sandbox gen (recs gen) (rq_Source req) b")
        (auto simp: Rewrite_def split: sum.splits option.splits)
  qed
qed (simp add: cache_ok_def)

text \<open>C14: the broker's cache of addresses never answers for a record that has changed. From an empty cache and
  after any requests, naming the sandbox behind an address gives what a fresh listing of the records
  would give, where a generation names one listing: the records do not change between two listings under
  the same generation, which a broker reads in one step with its listing.\<close>

theorem broker_cache_fresh:
  assumes "(broker_step recs)\<^sup>*\<^sup>* empty_broker b"
  shows "snd (broker_sandbox gen (recs gen) source b) = fresh_sandbox (recs gen) source"
proof -
  have "cache_ok recs b" using brokers.reach_inv [OF _ assms] by (simp add: empty_broker_def)
  then show ?thesis using broker_sandbox_cached by blast
qed

theorem broker_cache_fresh_witness:
  "snd (broker_sandbox 2 ((\<lambda>g. Inr (if g = 2 then [example_holder] else [])) 2) (V4 0x0a580002)
     (fst (broker_Resolve 0 [] 1 (Inr []) 7 True (V4 0x0a580002) ''a.io'' empty_broker))) = Inr example_holder"
proof -
  let ?recs = "\<lambda>g. (Inr (if g = (2::nat) then [example_holder] else []) :: unit + sandbox list)"
  let ?b = "fst (broker_Resolve 0 [] 1 (?recs 1) 7 True (V4 0x0a580002) ''a.io'' empty_broker)"
  have "(broker_step ?recs)\<^sup>*\<^sup>* empty_broker ?b" by (rule r_into_rtranclp, rule broker_step.resolve)
  from broker_cache_fresh [OF this, of 2 "V4 0x0a580002"]
  have "snd (broker_sandbox 2 (?recs 2) (V4 0x0a580002) ?b) = fresh_sandbox (?recs 2) (V4 0x0a580002)" .
  also have "\<dots> = Inr example_holder" by code_simp
  finally show ?thesis by simp
qed

subsection \<open>Every decision is in the log\<close>

lemma Decide_action: "Decide gw d owned sb host port a = Inr dec \<Longrightarrow> dec_Action dec \<in> {ActionAllow, ActionDeny}"
proof -
  assume dec: "Decide gw d owned sb host port a = Inr dec"
  have walk: "dec_Action (decide_walk sb (effective_rules gw p) (host, port, a)) \<in> {ActionAllow, ActionDeny}"
    if "policy_Get n d = Inr p" for n p
    by (rule dw.walk_all) (use policy_rule_actions [OF that] in auto)
  show ?thesis
  proof (cases "sb_Policy sb = []")
    case True
    then show ?thesis using dec by (auto simp: Decide_def split: if_splits)
  next
    case False
    then show ?thesis using dec walk [of "sb_Policy sb"]
      by (auto simp: Decide_def Effective_def split: if_splits sum.splits)
  qed
qed

lemma resolve_nonempty: "egress_Lookup lookup host = Inr addrs \<Longrightarrow> addrs \<noteq> []"
proof -
  have "sort_key addr4 ps \<noteq> []" if "ps \<noteq> []" for ps
  proof
    assume "sort_key addr4 ps = []"
    then have "length (sort_key addr4 ps) = 0" by (simp only: list.size)
    then show False using that by simp
  qed
  then show "egress_Lookup lookup host = Inr addrs \<Longrightarrow> addrs \<noteq> []"
    by (auto simp: egress_Lookup_def resolve_def Let_def split: sum.splits option.splits if_splits)
qed

text \<open>C15: no connection is let out unlogged, and none past the floor. A decision the proxy gets has put exactly
  one line in the log of the sandbox that holds the source address, with the verdict it returns; and
  where it allows, the address it dials is one the name resolved to, in no private range and not the
  host's own.\<close>

theorem broker_Decide_logged:
  assumes "broker_Decide gw d owned lookup err_text gen listing now logged req b = (b', Inr dec)"
  shows "\<exists>sb r. snd (broker_sandbox gen listing (rq_Source req) b) = Inr sb
    \<and> br_log b' = br_log b @ [(sb_ID sb, r)] \<and> (eg_Verdict r = ''allow'') = pd_Allowed dec
    \<and> (pd_Allowed dec \<longrightarrow> (\<exists>a addrs. egress_Lookup lookup (rq_Host req) = Inr addrs \<and> a \<in> set addrs
         \<and> pd_Upstream dec = Some (a, rq_Port req mod 65536)
         \<and> \<not> prefixes_contain Private a \<and> \<not> owned_Contains owned a))"
proof -
  obtain b1 sb where sb: "broker_sandbox gen listing (rq_Source req) b = (b1, Inr sb)"
    using assms by (auto simp: broker_Decide_def split: prod.splits sum.splits)
  have log1: "br_log b1 = br_log b"
    using sb by (auto simp: broker_sandbox_def split: option.splits if_splits sum.splits)
  obtain u where u: "Unresolved gw d sb (rq_Host req) (rq_Port req) = Inr u"
    using assms sb by (auto simp: broker_Decide_def split: sum.splits)
  show ?thesis
  proof (cases u)
    case (Some dec')
    have deny: "dec_Action dec' = ActionDeny" using Unresolved_deny u Some by simp
    show ?thesis
      using assms sb u Some deny log1
      by (auto simp: broker_Decide_def broker_denied_def broker_record_def action_text_def Let_def split: if_splits)
  next
    case None
    then obtain addrs where addrs: "egress_Lookup lookup (rq_Host req) = Inr addrs"
      using assms sb u by (auto simp: broker_Decide_def Let_def split: sum.splits prod.splits)
    then have judge: "broker_judge gw d owned now logged sb req (hd addrs) b1 = (b', Inr dec)"
      using assms sb u None by (simp add: broker_Decide_def)
    then obtain e where e: "Decide gw d owned sb (rq_Host req) (rq_Port req) (hd addrs) = Inr e"
      by (auto simp: broker_judge_def split: sum.splits)
    have act: "dec_Action e \<in> {ActionAllow, ActionDeny}" by (rule Decide_action [OF e])
    have floor: "\<not> prefixes_contain Private (hd addrs) \<and> \<not> owned_Contains owned (hd addrs)" if "dec_Action e = ActionAllow"
      using e that by (auto simp: Decide_def split: if_splits)
    show ?thesis
      using judge e act floor log1 sb addrs resolve_nonempty [OF addrs]
      by (auto simp: broker_judge_def broker_record_def action_text_def Let_def split: if_splits)
  qed
qed

theorem broker_Decide_logged_witness:
  "\<exists>b' dec. broker_Decide 0x0a580001 [] (Some []) (\<lambda>_. Some [V4 0x5db8d822]) (\<lambda>_. []) 1 (Inr [example_holder]) 7 True
     example_request empty_broker = (b', Inr dec) \<and> length (br_log b') = 1"
proof -
  let ?x = "broker_Decide 0x0a580001 [] (Some []) (\<lambda>_. Some [V4 0x5db8d822]) (\<lambda>_. []) 1 (Inr [example_holder]) 7 True
     example_request empty_broker"
  have x: "?x = (fst ?x, Inr (projr (snd ?x)))" by code_simp
  have "br_log empty_broker = []" by (simp add: empty_broker_def)
  with broker_Decide_logged [OF x] have "length (br_log (fst ?x)) = 1" by auto
  then show ?thesis using x by metis
qed

end
