(* ===== verification/Ids.thy ===== *)
theory Ids
  imports Models FileStore
begin

text \<open>
  \<open>services/sandboxstate/id.go\<close> and the checks of an id and of a name at the end of
  \<open>sandboxstate.go\<close>: the words an id is made of, the shape no name may take, and the one path
  component every id and name must be. A refusal keeps its reason as a value; the noun and the kind
  in its text are left out.
\<close>

subsection \<open>Generated ids\<close>

definition wordsPerList :: nat where
  "wordsPerList = 64"

definition adjectives :: "string list" where
  "adjectives = [
     ''amber'', ''ancient'', ''autumn'', ''bitter'', ''blue'', ''bold'', ''brave'', ''bright'',
     ''broken'', ''calm'', ''cold'', ''cool'', ''crimson'', ''curly'', ''damp'', ''dark'',
     ''dawn'', ''delicate'', ''divine'', ''dry'', ''empty'', ''falling'', ''fancy'', ''flat'',
     ''floral'', ''fragrant'', ''frosty'', ''gentle'', ''green'', ''hidden'', ''holy'', ''icy'',
     ''jolly'', ''late'', ''lively'', ''long'', ''lucky'', ''misty'', ''morning'', ''muddy'',
     ''nameless'', ''noisy'', ''odd'', ''old'', ''orange'', ''patient'', ''plain'', ''polished'',
     ''proud'', ''purple'', ''quiet'', ''rapid'', ''red'', ''restless'', ''rough'', ''royal'',
     ''shy'', ''silent'', ''small'', ''snowy'', ''solitary'', ''sparkling'', ''spring'', ''steep'']"

definition nouns :: "string list" where
  "nouns = [
     ''anchor'', ''badger'', ''beaver'', ''bird'', ''brook'', ''butterfly'', ''cherry'', ''cloud'',
     ''comet'', ''crater'', ''creek'', ''dawn'', ''dew'', ''dream'', ''dust'', ''ember'',
     ''falcon'', ''feather'', ''fern'', ''field'', ''fire'', ''firefly'', ''flower'', ''fog'',
     ''forest'', ''fox'', ''frog'', ''frost'', ''glade'', ''glitter'', ''grass'', ''hare'',
     ''haze'', ''heron'', ''hill'', ''lake'', ''leaf'', ''lion'', ''meadow'', ''moon'',
     ''morning'', ''mountain'', ''night'', ''otter'', ''owl'', ''paper'', ''pebble'', ''pine'',
     ''pond'', ''rain'', ''resonance'', ''river'', ''salad'', ''shadow'', ''shape'', ''silence'',
     ''sky'', ''smoke'', ''snow'', ''sound'', ''star'', ''sun'', ''surf'', ''thunder'']"

text \<open>Go's \<open>%02x\<close> of a byte.\<close>

definition hex_char :: "nat \<Rightarrow> char" where
  "hex_char d = (if d < 10 then char_of (48 + d) else char_of (87 + d))"

definition hex2 :: "8 word \<Rightarrow> string" where
  "hex2 b = [hex_char (unat b div 16), hex_char (unat b mod 16)]"

type_synonym seed = "8 word \<times> 8 word \<times> 8 word \<times> 8 word"

fun formatID :: "seed \<Rightarrow> string" where
  "formatID (b0, b1, b2, b3) =
     adjectives ! (unat b0 mod wordsPerList) @ ''-'' @ nouns ! (unat b1 mod wordsPerList) @ ''-''
       @ hex2 b2 @ hex2 b3"

definition longest :: "string list \<Rightarrow> nat" where
  "longest words = fold (\<lambda>w n. max n (length w)) words 0"

definition maxIDLength :: nat where
  "maxIDLength = longest adjectives + length ''-'' + longest nouns + length ''-'' + length ''ffff''"

subsection \<open>Ids and names\<close>

definition maxChars :: nat where
  "maxChars = 64"

datatype ref_error = RefEmpty | RefLong | RefUpper char | RefChar char | RefLikeID

fun plain_chars :: "string \<Rightarrow> ref_error + unit" where
  "plain_chars [] = Inr ()"
| "plain_chars (c # s) =
     (if is_upper c then Inl (RefUpper c)
      else if \<not> (is_lower c \<or> is_digit c) \<and> c \<noteq> CHR ''-'' \<and> c \<noteq> CHR ''_'' then Inl (RefChar c)
      else plain_chars s)"

definition plainComponent :: "string \<Rightarrow> ref_error + unit" where
  "plainComponent s =
     (if s = [] then Inl RefEmpty
      else if length s > maxChars then Inl RefLong
      else plain_chars s)"

definition ValidID :: "string \<Rightarrow> ref_error + unit" where
  "ValidID i = plainComponent i"

text \<open>The regular expression \<open>^[a-z]+-[a-z]+-[0-9a-f]{4}$\<close>.\<close>

definition is_hex :: "char \<Rightarrow> bool" where
  "is_hex c = (is_digit c \<or> (97 \<le> code c \<and> code c \<le> 102))"

definition generatedIDShape :: "string \<Rightarrow> bool" where
  "generatedIDShape s =
     (case Split s CHR ''-'' of
        [a, b, h] \<Rightarrow> a \<noteq> [] \<and> list_all is_lower a \<and> b \<noteq> [] \<and> list_all is_lower b
                    \<and> length h = 4 \<and> list_all is_hex h
      | _ \<Rightarrow> False)"

definition ref_ValidName :: "string \<Rightarrow> ref_error + unit" where
  "ref_ValidName name =
     (case plainComponent name of
        Inl e \<Rightarrow> Inl e
      | Inr _ \<Rightarrow> if generatedIDShape name then Inl RefLikeID else Inr ())"

subsection \<open>Their lemmas\<close>

lemma plain_chars_ok:
  "is_ok (plain_chars s) \<longleftrightarrow> list_all (\<lambda>c. is_lower c \<or> is_digit c \<or> c = CHR ''-'' \<or> c = CHR ''_'') s"
  by (induction s) (auto simp: char_class_defs)

lemma ValidID_ok:
  "is_ok (ValidID s) \<longleftrightarrow> s \<noteq> [] \<and> length s \<le> 64
     \<and> list_all (\<lambda>c. is_lower c \<or> is_digit c \<or> c = CHR ''-'' \<or> c = CHR ''_'') s"
  by (simp add: ValidID_def plainComponent_def maxChars_def plain_chars_ok)

lemma ref_ValidName_ok: "is_ok (ref_ValidName s) \<longleftrightarrow> is_ok (ValidID s) \<and> \<not> generatedIDShape s"
  by (auto simp: ref_ValidName_def ValidID_def split: sum.splits)

lemma ValidID_no: "is_ok (ValidID s) \<Longrightarrow> \<not> is_lower c \<Longrightarrow> \<not> is_digit c \<Longrightarrow> c \<noteq> CHR ''-'' \<Longrightarrow> c \<noteq> CHR ''_''
  \<Longrightarrow> c \<notin> set s"
  by (auto simp: ValidID_ok list_all_iff)

definition word_ok :: "string \<Rightarrow> bool" where
  "word_ok w = (w \<noteq> [] \<and> length w \<le> 9 \<and> list_all is_lower w)"

lemma adjectives_ok: "list_all word_ok adjectives" "length adjectives = 64"
  by code_simp+

lemma nouns_ok: "list_all word_ok nouns" "length nouns = 64"
  by code_simp+

lemma maxIDLength_eq: "maxIDLength = 24"
  by code_simp

lemma word_at: "list_all word_ok ws \<Longrightarrow> length ws = 64 \<Longrightarrow> word_ok (ws ! (n mod wordsPerList))"
  by (simp add: list_all_length wordsPerList_def)

lemma is_hex_char: "n < 16 \<Longrightarrow> is_hex (hex_char n)"
  by (auto simp: is_hex_def hex_char_def is_digit_def)

lemma hex2_ok: "length (hex2 b) = 2 \<and> list_all is_hex (hex2 b)"
proof -
  have "unat b < 256" using unsigned_less [of b] by simp
  then show ?thesis by (simp add: hex2_def is_hex_char)
qed

lemma formatID_parts:
  obtains a b h where "formatID s = a @ CHR ''-'' # b @ CHR ''-'' # h" "word_ok a" "word_ok b"
    "length h = 4" "list_all is_hex h"
proof -
  obtain b0 b1 b2 b3 where s: "s = (b0, b1, b2, b3)" by (cases s)
  show ?thesis
    by (rule that [of "adjectives ! (unat b0 mod wordsPerList)" "nouns ! (unat b1 mod wordsPerList)"
          "hex2 b2 @ hex2 b3"])
      (simp_all add: s word_at adjectives_ok nouns_ok hex2_ok)
qed

lemma lower_no_dash: "list_all is_lower w \<Longrightarrow> CHR ''-'' \<notin> set w"
  by (auto simp: list_all_iff is_lower_def)

lemma hex_no_dash: "list_all is_hex w \<Longrightarrow> CHR ''-'' \<notin> set w"
  by (auto simp: list_all_iff is_hex_def is_digit_def)

lemma shape_parts:
  "generatedIDShape s \<longleftrightarrow> (\<exists>a b h. s = a @ CHR ''-'' # b @ CHR ''-'' # h \<and> a \<noteq> [] \<and> list_all is_lower a
     \<and> b \<noteq> [] \<and> list_all is_lower b \<and> length h = 4 \<and> list_all is_hex h)" (is "_ \<longleftrightarrow> ?r")
proof
  assume sh: "generatedIDShape s"
  then obtain a b h where sp: "Split s CHR ''-'' = [a, b, h]"
    by (auto simp: generatedIDShape_def split: list.splits)
  then have "s = a @ CHR ''-'' # b @ CHR ''-'' # h"
    using Join_Split [of s "CHR ''-''"] by simp
  then show ?r using sh sp by (auto simp: generatedIDShape_def)
next
  assume ?r
  then obtain a b h where p: "s = a @ CHR ''-'' # b @ CHR ''-'' # h" "a \<noteq> []" "list_all is_lower a"
     "b \<noteq> []" "list_all is_lower b" "length h = 4" "list_all is_hex h" by blast
  have "Split s CHR ''-'' = [a, b, h]"
    unfolding p(1) using lower_no_dash [OF p(3)] lower_no_dash [OF p(5)] hex_no_dash [OF p(7)] by simp
  then show "generatedIDShape s" using p by (simp add: generatedIDShape_def)
qed

lemma formatID_shape: "generatedIDShape (formatID s)"
proof -
  obtain a b h where "formatID s = a @ CHR ''-'' # b @ CHR ''-'' # h" "word_ok a" "word_ok b"
    "length h = 4" "list_all is_hex h" by (rule formatID_parts)
  then show ?thesis unfolding shape_parts word_ok_def by blast
qed

lemma is_hex_plain: "list_all is_hex h \<Longrightarrow> list_all (\<lambda>c. is_lower c \<or> is_digit c \<or> c = CHR ''-'' \<or> c = CHR ''_'') h"
  by (auto simp: list_all_iff is_hex_def is_lower_def)

lemma is_lower_plain: "list_all is_lower h \<Longrightarrow> list_all (\<lambda>c. is_lower c \<or> is_digit c \<or> c = CHR ''-'' \<or> c = CHR ''_'') h"
  by (auto simp: list_all_iff)

lemma formatID_valid: "is_ok (ValidID (formatID s))" and formatID_length: "length (formatID s) \<le> 24"
proof -
  obtain a b h where "formatID s = a @ CHR ''-'' # b @ CHR ''-'' # h" "word_ok a" "word_ok b"
    "length h = 4" "list_all is_hex h" by (rule formatID_parts)
  then show "is_ok (ValidID (formatID s))" "length (formatID s) \<le> 24"
    by (simp_all add: ValidID_ok word_ok_def is_hex_plain is_lower_plain)
qed

lemma cut_unique:
  "c \<notin> set a \<Longrightarrow> c \<notin> set a' \<Longrightarrow> a @ c # r = a' @ c # r' \<Longrightarrow> a = a' \<and> r = r'"
  by (induction a arbitrary: a') (case_tac a'; auto)+

text \<open>No generated id starts another one, so a file that holds part of an id names no sandbox.\<close>

lemma id_prefix_free:
  assumes "generatedIDShape s" "generatedIDShape (s @ t)"
  shows "t = []"
proof -
  obtain a b h where s: "s = a @ CHR ''-'' # b @ CHR ''-'' # h" "list_all is_lower a" "list_all is_lower b"
    "length h = 4" using assms(1) unfolding shape_parts by blast
  obtain a' b' h' where st: "s @ t = a' @ CHR ''-'' # b' @ CHR ''-'' # h'" "list_all is_lower a'"
    "list_all is_lower b'" "length h' = 4" using assms(2) unfolding shape_parts by blast
  have "a @ CHR ''-'' # (b @ CHR ''-'' # h @ t) = a' @ CHR ''-'' # (b' @ CHR ''-'' # h')" using s(1) st(1) by simp
  then have "b @ CHR ''-'' # h @ t = b' @ CHR ''-'' # h'"
    using cut_unique [OF lower_no_dash [OF s(2)] lower_no_dash [OF st(2)]] by simp
  then have "h @ t = h'" using cut_unique [OF lower_no_dash [OF s(3)] lower_no_dash [OF st(3)]] by simp
  then have "length h + length t = length h'" by auto
  then show ?thesis using s(4) st(4) by simp
qed

text \<open>C25: every id the repository makes is a plain path component, at most as long as \<open>maxIDLength\<close> says
  and within the 64 characters of a reference, and no sandbox or snapshot may take it as its name.\<close>

theorem generated_id_valid:
  "is_ok (ValidID (formatID s)) \<and> length (formatID s) \<le> maxIDLength \<and> maxIDLength \<le> maxChars
   \<and> ref_ValidName (formatID s) = Inl RefLikeID"
  using formatID_valid [of s] formatID_length [of s] formatID_shape [of s]
  by (auto simp: maxIDLength_eq maxChars_def ref_ValidName_def ValidID_def is_ok_iff)

end
