(* ===== verification/Repo.thy ===== *)
theory Repo
  imports Ids
begin

text \<open>
  \<open>services/sandboxstate\<close>: the index of names (\<open>names.go\<close>) and the repository of the sandbox
  records (\<open>sandboxstate.go\<close>).

  A directory of records is an association list from entry names to entries: a directory with the
  files in it, or something that is no directory. The file \<open>sandbox.json\<close> holds what its JSON decodes
  to, or \<^term>\<open>None\<close>. A directory of names maps each name to a link and its target. \<open>fo\<close> is how the
  filesystem of the root folds a name: the identity where it tells cases apart. The system calls that
  fail, the random ids drawn and the outcome of each removal are arguments.
\<close>

subsection \<open>Records on disk\<close>

datatype 'r entry = RecordDir "'r option dir" | Stray

type_synonym 'r records = "(string \<times> 'r entry) list"

datatype link = Link string | NotALink

type_synonym names_dir = "(string \<times> link) list"

datatype claim_step = ClaimMkdir | ClaimSync
datatype name_step = NameSymlink | NameSync | NameReadlink | NameRemove | NameReadDir
datatype delete_step = DeleteCheckpoint | DeleteStaging | DeleteRename | DeleteTrash | DeleteSync nat

datatype repo_error =
    RefRefused ref_error | RecordNotFound | RecordUnreadable | IDCarried | StateUnknown
  | RandomFailed | ClaimFailed claim_step | NoFreeID | Refused string | RecordWrite write_step
  | NameTaken string string | NameFailed name_step | NameBroken string | IDChanged | NameChanged
  | DeleteFailed delete_step | DirectoryUnread | SweepFailed string | SnapshotFailed

text \<open>\<open>os.RemoveAll\<close> of a record's directory: gone, emptied of the record and then failed, or failed
  before it.\<close>

datatype removal = Removed | Emptied | Untouched

definition remove_all :: "removal \<Rightarrow> string \<Rightarrow> string \<Rightarrow> 'r records \<Rightarrow> 'r records" where
  "remove_all rm file i d =
     (case rm of
        Removed \<Rightarrow> AList.delete i d
      | Emptied \<Rightarrow> (case map_of d i of Some (RecordDir fs) \<Rightarrow> AList.update i (RecordDir (AList.delete file fs)) d
                                    | _ \<Rightarrow> d)
      | Untouched \<Rightarrow> d)"

definition read_record :: "string \<Rightarrow> string \<Rightarrow> 'r records \<Rightarrow> repo_error + 'r" where
  "read_record file i d =
     (case map_of d i of
        None \<Rightarrow> Inl RecordNotFound
      | Some Stray \<Rightarrow> Inl RecordUnreadable
      | Some (RecordDir fs) \<Rightarrow>
          (case map_of fs file of
             None \<Rightarrow> Inl RecordNotFound
           | Some (File (Some r)) \<Rightarrow> Inr r
           | Some _ \<Rightarrow> Inl RecordUnreadable))"

definition write_record ::
  "write_step option \<Rightarrow> string \<Rightarrow> string \<Rightarrow> 'r \<Rightarrow> 'r records \<Rightarrow> 'r records \<times> repo_error option" where
  "write_record fault file i r d =
     (case map_of d i of
        Some (RecordDir fs) \<Rightarrow>
          (case write_file fault file (Some r) fs of
             (fs', e) \<Rightarrow> (AList.update i (RecordDir fs') d, map_option RecordWrite e))
      | _ \<Rightarrow> (d, Some (RecordWrite CreateTemp)))"

subsection \<open>The index of names\<close>

definition entry_at :: "(string \<Rightarrow> string) \<Rightarrow> string \<Rightarrow> (string \<times> 'a) list \<Rightarrow> 'a option" where
  "entry_at fo name d = map_option snd (find (\<lambda>(k, _). fo k = fo name) d)"

definition remove_entry :: "(string \<Rightarrow> string) \<Rightarrow> string \<Rightarrow> (string \<times> 'a) list \<Rightarrow> (string \<times> 'a) list" where
  "remove_entry fo name d = filter (\<lambda>(k, _). fo k \<noteq> fo name) d"

text \<open>\<open>filepath.Join("..", records, id)\<close> of a plain component.\<close>

definition link_target :: "string \<Rightarrow> string \<Rightarrow> string" where
  "link_target records i = ''../'' @ records @ ''/'' @ i"

definition names_holder :: "(string \<Rightarrow> string) \<Rightarrow> string \<Rightarrow> string \<Rightarrow> names_dir \<Rightarrow> string" where
  "names_holder fo noun name d =
     (case entry_at fo name d of
        Some (Link target) \<Rightarrow> path_Base target
      | _ \<Rightarrow> ''another '' @ noun)"

definition names_claim ::
  "(string \<Rightarrow> string) \<Rightarrow> name_step option \<Rightarrow> string \<Rightarrow> string \<Rightarrow> string \<Rightarrow> string \<Rightarrow> names_dir
   \<Rightarrow> names_dir \<times> repo_error option" where
  "names_claim fo fault records noun name i d =
     (if name = [] then (d, None)
      else case ref_ValidName name of
        Inl e \<Rightarrow> (d, Some (RefRefused e))
      | Inr _ \<Rightarrow>
          if entry_at fo name d \<noteq> None then (d, Some (NameTaken name (names_holder fo noun name d)))
          else if fault = Some NameSymlink then (d, Some (NameFailed NameSymlink))
          else let d' = d @ [(name, Link (link_target records i))] in
            if fault = Some NameSync then (d', Some (NameFailed NameSync)) else (d', None))"

definition names_drop ::
  "(string \<Rightarrow> string) \<Rightarrow> name_step option \<Rightarrow> string \<Rightarrow> string \<Rightarrow> names_dir \<Rightarrow> names_dir \<times> repo_error option" where
  "names_drop fo fault name i d =
     (if name = [] then (d, None)
      else case entry_at fo name d of
        None \<Rightarrow> (d, None)
      | Some NotALink \<Rightarrow> (d, Some (NameFailed NameReadlink))
      | Some (Link target) \<Rightarrow>
          if fault = Some NameReadlink then (d, Some (NameFailed NameReadlink))
          else if path_Base target \<noteq> i then (d, None)
          else if fault = Some NameRemove then (d, Some (NameFailed NameRemove))
          else (remove_entry fo name d, None))"

definition names_exists :: "name_step option \<Rightarrow> string \<Rightarrow> names_dir \<Rightarrow> repo_error + bool" where
  "names_exists fault ref d =
     (if fault = Some NameReadDir then Inl (NameFailed NameReadDir) else Inr (ref \<in> fst ` set d))"

definition names_resolve ::
  "(string \<Rightarrow> string) \<Rightarrow> name_step option \<Rightarrow> string \<Rightarrow> names_dir \<Rightarrow> repo_error + string" where
  "names_resolve fo fault ref d =
     (case plainComponent ref of
        Inl e \<Rightarrow> Inl (RefRefused e)
      | Inr _ \<Rightarrow>
          (case entry_at fo ref d of
             None \<Rightarrow> Inr ref
           | Some NotALink \<Rightarrow> Inr ref
           | Some (Link target) \<Rightarrow>
               if fault = Some NameReadlink then Inl (NameFailed NameReadlink)
               else case names_exists fault ref d of
                 Inl e \<Rightarrow> Inl e
               | Inr False \<Rightarrow> Inr ref
               | Inr True \<Rightarrow>
                   (let i = path_Base target
                    in if is_ok (plainComponent i) then Inr i else Inl (NameBroken ref))))"

subsection \<open>The repository\<close>

record repo =
  rp_sandboxes :: "sandbox records"
  rp_names :: names_dir
  rp_checkpoints :: "string list"
  rp_gen :: "64 word"

definition empty_repo :: repo where
  "empty_repo = \<lparr>rp_sandboxes = [], rp_names = [], rp_checkpoints = [], rp_gen = 0\<rparr>"

definition sandboxesDir :: string where
  "sandboxesDir = ''sandboxes''"

definition recordFile :: string where
  "recordFile = ''sandbox.json''"

definition idAttempts :: nat where
  "idAttempts = 10"

definition bump :: "repo \<Rightarrow> repo" where
  "bump r = r\<lparr>rp_gen := rp_gen r + 1\<rparr>"

definition Generation :: "repo \<Rightarrow> 64 word" where
  "Generation r = rp_gen r"

text \<open>\<open>claimIn\<close>: \<open>draws\<close> are the random bytes of each attempt, \<open>faults\<close> the call of it that fails.\<close>

fun claimIn ::
  "nat \<Rightarrow> nat \<Rightarrow> (nat \<Rightarrow> seed option) \<Rightarrow> (nat \<Rightarrow> claim_step option) \<Rightarrow> 'r records
   \<Rightarrow> 'r records \<times> (repo_error + string)" where
  "claimIn 0 k draws faults d = (d, Inl NoFreeID)"
| "claimIn (Suc n) k draws faults d =
     (case draws k of
        None \<Rightarrow> (d, Inl RandomFailed)
      | Some b \<Rightarrow>
          (let i = formatID b in
           if i \<in> fst ` set d then claimIn n (Suc k) draws faults d
           else if faults k = Some ClaimMkdir then (d, Inl (ClaimFailed ClaimMkdir))
           else let d' = d @ [(i, RecordDir [])] in
             if faults k = Some ClaimSync then (d', Inl (ClaimFailed ClaimSync)) else (d', Inr i)))"

definition claimID ::
  "(nat \<Rightarrow> seed option) \<Rightarrow> (nat \<Rightarrow> claim_step option) \<Rightarrow> repo \<Rightarrow> repo \<times> (repo_error + string)" where
  "claimID draws faults r =
     (case claimIn idAttempts 0 draws faults (rp_sandboxes r) of (d, res) \<Rightarrow> (r\<lparr>rp_sandboxes := d\<rparr>, res))"

definition repo_Get :: "string \<Rightarrow> repo \<Rightarrow> repo_error + sandbox" where
  "repo_Get i r =
     (case ValidID i of Inl e \<Rightarrow> Inl (RefRefused e) | Inr _ \<Rightarrow> read_record recordFile i (rp_sandboxes r))"

definition repo_write :: "write_step option \<Rightarrow> sandbox \<Rightarrow> repo \<Rightarrow> repo \<times> repo_error option" where
  "repo_write fault sb r =
     (case write_record fault recordFile (sb_ID sb) sb (rp_sandboxes r) of
        (d, e) \<Rightarrow> (bump (r\<lparr>rp_sandboxes := d\<rparr>), e))"

text \<open>What the world answers a create: the bytes drawn, the calls that fail, what each admit check says
  of the directory, and how far a cleanup gets.\<close>

record create_env =
  cr_draws :: "nat \<Rightarrow> seed option"
  cr_claim :: "nat \<Rightarrow> claim_step option"
  cr_admit :: "(string \<Rightarrow> string option) list"
  cr_write :: "write_step option"
  cr_name :: "name_step option"
  cr_cleanup :: removal

fun run_admit :: "(string \<Rightarrow> string option) list \<Rightarrow> string \<Rightarrow> string option" where
  "run_admit [] i = None"
| "run_admit (c # cs) i = (case c i of Some e \<Rightarrow> Some e | None \<Rightarrow> run_admit cs i)"

definition undo_create :: "removal \<Rightarrow> string \<Rightarrow> repo \<Rightarrow> repo" where
  "undo_create rm i r = bump (r\<lparr>rp_sandboxes := remove_all rm recordFile i (rp_sandboxes r)\<rparr>)"

definition repo_Create ::
  "(string \<Rightarrow> string) \<Rightarrow> create_env \<Rightarrow> sandbox \<Rightarrow> repo \<Rightarrow> repo \<times> (repo_error + sandbox)" where
  "repo_Create fo env sb r =
     (if sb_ID sb \<noteq> [] then (r, Inl IDCarried)
      else if \<not> state_Valid (sb_State sb) then (r, Inl StateUnknown)
      else case claimID (cr_draws env) (cr_claim env) r of
        (r1, Inl e) \<Rightarrow> (r1, Inl e)
      | (r1, Inr i) \<Rightarrow>
          (case run_admit (cr_admit env) i of
             Some e \<Rightarrow> (r1\<lparr>rp_sandboxes := remove_all (cr_cleanup env) recordFile i (rp_sandboxes r1)\<rparr>, Inl (Refused e))
           | None \<Rightarrow>
               (let sb1 = sb\<lparr>sb_ID := i\<rparr> in
                case repo_write (cr_write env) sb1 r1 of
                  (r2, Some e) \<Rightarrow> (undo_create (cr_cleanup env) i r2, Inl e)
                | (r2, None) \<Rightarrow>
                    (case names_claim fo (cr_name env) sandboxesDir ''sandbox'' (sb_Name sb1) i (rp_names r2) of
                       (ns, Some e) \<Rightarrow> (undo_create (cr_cleanup env) i (r2\<lparr>rp_names := ns\<rparr>), Inl e)
                     | (ns, None) \<Rightarrow> (r2\<lparr>rp_names := ns\<rparr>, Inr sb1)))))"

definition repo_Resolve :: "(string \<Rightarrow> string) \<Rightarrow> name_step option \<Rightarrow> string \<Rightarrow> repo \<Rightarrow> repo_error + string" where
  "repo_Resolve fo fault ref r = names_resolve fo fault ref (rp_names r)"

definition repo_Update ::
  "write_step option \<Rightarrow> string \<Rightarrow> (sandbox \<Rightarrow> string + sandbox) \<Rightarrow> repo \<Rightarrow> repo \<times> repo_error option" where
  "repo_Update fault i mutate r =
     (case repo_Get i r of
        Inl e \<Rightarrow> (r, Some e)
      | Inr sb \<Rightarrow>
          (case mutate sb of
             Inl e \<Rightarrow> (r, Some (Refused e))
           | Inr sb' \<Rightarrow>
               if sb_ID sb' \<noteq> i then (r, Some IDChanged)
               else if sb_Name sb' \<noteq> sb_Name sb then (r, Some NameChanged)
               else if \<not> state_Valid (sb_State sb') then (r, Some StateUnknown)
               else repo_write fault sb' r))"

text \<open>\<open>removeTrash\<close> tries again, three times in all, while the directory is not empty.\<close>

datatype trash_try = TrashGone | TrashNotEmpty | TrashError

fun removeTrash :: "nat \<Rightarrow> nat \<Rightarrow> (nat \<Rightarrow> trash_try) \<Rightarrow> trash_try" where
  "removeTrash 0 k tries = TrashNotEmpty"
| "removeTrash (Suc n) k tries =
     (if tries k = TrashNotEmpty then removeTrash n (Suc k) tries else tries k)"

record delete_env =
  de_name :: "name_step option"
  de_step :: "delete_step option"
  de_suffix :: string
  de_trash :: "nat \<Rightarrow> trash_try"

definition sync_dirs :: "delete_step option \<Rightarrow> repo_error option" where
  "sync_dirs fault =
     (case fault of Some (DeleteSync k) \<Rightarrow> if k < 3 then Some (DeleteFailed (DeleteSync k)) else None | _ \<Rightarrow> None)"

definition delete_dir :: "delete_env \<Rightarrow> string \<Rightarrow> repo \<Rightarrow> repo \<times> repo_error option" where
  "delete_dir env i r =
     (let trash = ''.'' @ i @ ''.'' @ de_suffix env in
      case map_of (rp_sandboxes r) i of
        None \<Rightarrow> (r, Some (DeleteFailed DeleteRename))
      | Some en \<Rightarrow>
          if de_step env = Some DeleteRename \<or> trash \<in> fst ` set (rp_sandboxes r)
          then (r, Some (DeleteFailed DeleteRename))
          else let r1 = r\<lparr>rp_sandboxes := AList.delete i (rp_sandboxes r) @ [(trash, en)]\<rparr> in
            if removeTrash 3 0 (de_trash env) \<noteq> TrashGone then (r1, Some (DeleteFailed DeleteTrash))
            else (r\<lparr>rp_sandboxes := AList.delete i (rp_sandboxes r)\<rparr>, sync_dirs (de_step env)))"

definition repo_Delete ::
  "(string \<Rightarrow> string) \<Rightarrow> delete_env \<Rightarrow> string \<Rightarrow> repo \<Rightarrow> repo \<times> repo_error option" where
  "repo_Delete fo env i r =
     (case repo_Get i r of
        Inl e \<Rightarrow> (r, Some e)
      | Inr sb \<Rightarrow>
          (case names_drop fo (de_name env) (sb_Name sb) i (rp_names r) of
             (ns, Some e) \<Rightarrow> (bump (r\<lparr>rp_names := ns\<rparr>), Some e)
           | (ns, None) \<Rightarrow>
               (let r1 = r\<lparr>rp_names := ns\<rparr> in
                if de_step env = Some DeleteCheckpoint then (bump r1, Some (DeleteFailed DeleteCheckpoint))
                else let r2 = r1\<lparr>rp_checkpoints := removeAll i (rp_checkpoints r1)\<rparr> in
                if de_step env = Some DeleteStaging then (bump r2, Some (DeleteFailed DeleteStaging))
                else let r3 = r2\<lparr>rp_checkpoints := removeAll (i @ ''.tmp'') (rp_checkpoints r2)\<rparr> in
                case delete_dir env i r3 of (r4, e) \<Rightarrow> (bump r4, e))))"

subsection \<open>Listing, and the errors of a listing\<close>

text \<open>An error value: joined errors, one unreadable record with its text, a wrap, or any other.\<close>

datatype go_error = Joined "go_error list" | UnreadableError string string | Wrapped go_error | OtherError string

text \<open>\<open>errors.Join\<close> of what is collected so far and the next error.\<close>

definition join_error :: "go_error option \<Rightarrow> go_error \<Rightarrow> go_error option" where
  "join_error acc e = Some (Joined ((case acc of None \<Rightarrow> [] | Some a \<Rightarrow> [a]) @ [e]))"

text \<open>\<open>errors.As\<close> for an unreadable record: the first one in the tree.\<close>

fun as_unreadable :: "go_error \<Rightarrow> (string \<times> string) option"
  and as_unreadables :: "go_error list \<Rightarrow> (string \<times> string) option" where
  "as_unreadable (Joined es) = as_unreadables es"
| "as_unreadable (UnreadableError i t) = Some (i, t)"
| "as_unreadable (Wrapped e) = as_unreadable e"
| "as_unreadable (OtherError t) = None"
| "as_unreadables [] = None"
| "as_unreadables (e # es) = (case as_unreadable e of Some u \<Rightarrow> Some u | None \<Rightarrow> as_unreadables es)"

fun unreadableErrors :: "go_error \<Rightarrow> (string \<times> string) list" where
  "unreadableErrors (Joined es) = concat (map unreadableErrors es)"
| "unreadableErrors e = (case as_unreadable e of Some u \<Rightarrow> [u] | None \<Rightarrow> [])"

fun onlyUnreadable :: "go_error \<Rightarrow> bool" where
  "onlyUnreadable (Joined es) = (list_all onlyUnreadable es \<and> es \<noteq> [])"
| "onlyUnreadable e = (as_unreadable e \<noteq> None)"

definition UnreadableIDs :: "go_error option \<Rightarrow> string list" where
  "UnreadableIDs err =
     (case err of None \<Rightarrow> [] | Some e \<Rightarrow> if onlyUnreadable e then map fst (unreadableErrors e) else [])"

text \<open>The text of the error a record's read gives; \<open>text_of\<close> is the spelling of the decoder.\<close>

fun list_loop ::
  "(string \<Rightarrow> string) \<Rightarrow> repo \<Rightarrow> string list \<Rightarrow> sandbox list \<Rightarrow> go_error option \<Rightarrow> sandbox list \<times> go_error option" where
  "list_loop text_of r [] sbs err = (sbs, err)"
| "list_loop text_of r (n # ns) sbs err =
     (if map_of (rp_sandboxes r) n = Some Stray \<or> \<not> is_ok (ValidID n) then list_loop text_of r ns sbs err
      else case repo_Get n r of
        Inl e \<Rightarrow> if e = RecordNotFound then list_loop text_of r ns sbs err
                 else list_loop text_of r ns sbs (join_error err (UnreadableError n (text_of n)))
      | Inr sb \<Rightarrow> list_loop text_of r ns (sbs @ [sb]) err)"

definition repo_List :: "(string \<Rightarrow> string) \<Rightarrow> bool \<Rightarrow> repo \<Rightarrow> sandbox list \<times> go_error option" where
  "repo_List text_of readable r =
     (if \<not> readable then ([], Some (Wrapped (OtherError ''read'')))
      else case list_loop text_of r (sort (map fst (rp_sandboxes r))) [] None of
        (sbs, err) \<Rightarrow> (sort_key sb_ID sbs, err))"

fun provider_loop ::
  "(string \<Rightarrow> string) \<Rightarrow> repo \<Rightarrow> string list \<Rightarrow> string \<Rightarrow> go_error option \<Rightarrow> string \<times> go_error option" where
  "provider_loop text_of r [] provider err = (provider, err)"
| "provider_loop text_of r (n # ns) provider err =
     (if map_of (rp_sandboxes r) n = Some Stray \<or> \<not> is_ok (ValidID n) then provider_loop text_of r ns provider err
      else case repo_Get n r of
        Inl e \<Rightarrow> if e = RecordNotFound then provider_loop text_of r ns provider err
                 else provider_loop text_of r ns provider (join_error err (UnreadableError n (text_of n)))
      | Inr sb \<Rightarrow> provider_loop text_of r ns (if provider = [] \<and> sb_Provider sb \<noteq> [] then sb_Provider sb else provider) err)"

text \<open>\<open>RecordedProvider\<close>: a root with no directory of records holds none.\<close>

definition RecordedProvider :: "(string \<Rightarrow> string) \<Rightarrow> bool \<Rightarrow> bool \<Rightarrow> repo \<Rightarrow> string \<times> go_error option" where
  "RecordedProvider text_of there readable r =
     (if \<not> there then ([], None)
      else if \<not> readable then ([], Some (Wrapped (OtherError ''read'')))
      else provider_loop text_of r (sort (map fst (rp_sandboxes r))) [] None)"

text \<open>\<open>UnreadableLog\<close>: what was last logged of each record, and the lines logged.\<close>

record unreadable_log =
  ul_seen :: "(string \<times> string) list"
  ul_lines :: "(string \<times> string) list"

definition report_one :: "string \<times> string \<Rightarrow> unreadable_log \<Rightarrow> unreadable_log" where
  "report_one = (\<lambda>(i, t) u.
     if (case map_of (ul_seen u) i of None \<Rightarrow> [] | Some s \<Rightarrow> s) = t then u
     else u\<lparr>ul_seen := AList.update i t (ul_seen u), ul_lines := ul_lines u @ [(i, t)]\<rparr>)"

definition unreadable_report :: "go_error \<Rightarrow> unreadable_log \<Rightarrow> unreadable_log" where
  "unreadable_report err u = fold report_one (unreadableErrors err) u"

definition ListReadable ::
  "sandbox list \<times> go_error option \<Rightarrow> unreadable_log option
   \<Rightarrow> unreadable_log option \<times> (go_error + sandbox list)" where
  "ListReadable listing ulog =
     (case listing of
        (sbs, None) \<Rightarrow> (ulog, Inr sbs)
      | (sbs, Some err) \<Rightarrow>
          if \<not> onlyUnreadable err then (ulog, Inl err)
          else (map_option (unreadable_report err) ulog, Inr sbs))"

subsection \<open>The sweep at the start of the daemon\<close>

definition recordedTmp :: "string \<Rightarrow> repo \<Rightarrow> bool \<times> string" where
  "recordedTmp i r =
     (if \<not> is_ok (ValidID i) then (False, [])
      else case repo_Get i r of
        Inr _ \<Rightarrow> (True, [])
      | Inl e \<Rightarrow> if e = RecordNotFound then (False, []) else (True, ''kept '' @ i @ ''.tmp''))"

text \<open>\<open>removable\<close> says which entries \<open>os.RemoveAll\<close> takes; the result is what is left, how many went, the
  notes reported and the entry that failed.\<close>

fun sweep_loop ::
  "(string \<Rightarrow> bool) \<Rightarrow> repo \<Rightarrow> string list \<Rightarrow> string list \<Rightarrow> nat \<Rightarrow> string list
   \<Rightarrow> string list \<times> nat \<times> string list \<times> repo_error option" where
  "sweep_loop removable r [] cps swept notes = (cps, swept, notes, None)"
| "sweep_loop removable r (n # ns) cps swept notes =
     (if \<not> HasSuffix n ''.tmp'' then sweep_loop removable r ns cps swept notes
      else case recordedTmp (TrimSuffix n ''.tmp'') r of
        (keep, note) \<Rightarrow>
          (let notes' = notes @ (if note \<noteq> [] then [note] else []) in
           if keep then sweep_loop removable r ns cps swept notes'
           else if \<not> removable n then (cps, swept, notes', Some (SweepFailed n))
           else sweep_loop removable r ns (removeAll n cps) (Suc swept) notes'))"

definition SweepCheckpointTmp ::
  "(string \<Rightarrow> bool) \<Rightarrow> bool \<Rightarrow> bool \<Rightarrow> repo \<Rightarrow> repo \<times> string list \<times> repo_error option" where
  "SweepCheckpointTmp removable readable synced r =
     (if \<not> readable then (r, [], Some DirectoryUnread)
      else case sweep_loop removable r (sort (rp_checkpoints r)) (rp_checkpoints r) 0 [] of
        (cps, swept, notes, Some e) \<Rightarrow> (r\<lparr>rp_checkpoints := cps\<rparr>, notes, Some e)
      | (cps, swept, notes, None) \<Rightarrow>
          if swept = 0 then (r\<lparr>rp_checkpoints := cps\<rparr>, notes, None)
          else if \<not> synced then (r\<lparr>rp_checkpoints := cps\<rparr>, notes, Some (DeleteFailed (DeleteSync 1)))
          else (r\<lparr>rp_checkpoints := cps\<rparr>, notes @ [''swept '' @ itoa_nat swept], None))"

subsection \<open>What each step leaves of the records\<close>

lemma map_of_fresh: "i \<notin> fst ` set d \<Longrightarrow> map_of (d @ [(i, e)]) = (map_of d)(i \<mapsto> e)"
  using map_of_eq_None_iff [of d i] by (auto simp: map_add_def fun_eq_iff split: option.splits)

lemma claimIn_result:
  "claimIn n k draws faults d = (d', res) \<Longrightarrow>
     (d' = d \<and> \<not> is_ok res)
   \<or> (\<exists>i. i \<notin> fst ` set d \<and> d' = d @ [(i, RecordDir [])] \<and> generatedIDShape i \<and> is_ok (ValidID i)
        \<and> (res = Inr i \<or> res = Inl (ClaimFailed ClaimSync)))"
proof (induction n arbitrary: k)
  case (Suc n)
  show ?case
  proof (cases "draws k")
    case (Some b)
    show ?thesis
    proof (cases "formatID b \<in> fst ` set d")
      case True
      then show ?thesis using Suc.prems Suc.IH [of "Suc k"] Some by (simp add: Let_def)
    next
      case False
      then show ?thesis using Suc.prems Some formatID_shape [of b] formatID_valid [of b]
        by (auto simp: Let_def split: if_splits)
    qed
  qed (use Suc.prems in auto)
qed auto

lemma claimIn_cases:
  assumes "claimIn n k draws faults d = (d', res)"
  obtains (same) "d' = d" "\<not> is_ok res"
  | (claimed) i where "i \<notin> fst ` set d" "d' = d @ [(i, RecordDir [])]" "generatedIDShape i" "is_ok (ValidID i)"
      "res = Inr i \<or> res = Inl (ClaimFailed ClaimSync)"
  using claimIn_result [OF assms] by blast

text \<open>Each step on a directory of records, as a read of it sees it. The two repositories share these.\<close>

lemma read_claimIn:
  assumes "claimIn n k draws faults d = (d', res)"
  shows "read_record file j d' = read_record file j d"
  using assms
proof (cases rule: claimIn_cases)
  case (claimed i)
  then show ?thesis using map_of_fresh [OF claimed(1), of "RecordDir []"] map_of_eq_None_iff [of d i]
    by (auto simp: read_record_def simp del: map_of_append)
qed simp

lemma claimIn_ok:
  "claimIn n k draws faults d = (d', Inr i) \<Longrightarrow>
     map_of d' i = Some (RecordDir []) \<and> generatedIDShape i \<and> is_ok (ValidID i) \<and> read_record file i d = Inl RecordNotFound"
  using map_of_eq_None_iff [of d i]
  by (auto simp: map_of_fresh read_record_def simp del: map_of_append elim!: claimIn_cases)

lemma claimIn_distinct:
  "claimIn n k draws faults d = (d', res) \<Longrightarrow> distinct (map fst d) \<Longrightarrow> distinct (map fst d')"
  by (auto elim!: claimIn_cases)

lemma read_write_other:
  "write_record fault file i x d = (d', e) \<Longrightarrow> j \<noteq> i \<Longrightarrow> read_record file j d' = read_record file j d"
  by (auto simp: write_record_def read_record_def update_conv' split: prod.splits option.splits entry.splits)

lemma read_write_self:
  assumes w: "write_record fault file i x d = (d', e)" and d: "map_of d i = Some (RecordDir fs)"
  shows "read_record file i d' = read_record file i d \<or> read_record file i d' = Inr x"
    and "e = None \<Longrightarrow> read_record file i d' = Inr x"
proof -
  obtain fs' e' where wf: "write_file fault file (Some x) fs = (fs', e')" by force
  have d': "d' = AList.update i (RecordDir fs') d" "e = map_option RecordWrite e'"
    using w d wf by (auto simp: write_record_def)
  have fs': "map_of fs' file = map_of fs file \<or> map_of fs' file = Some (File (Some x))"
    "e' = None \<Longrightarrow> map_of fs' file = Some (File (Some x))"
    using wf write_file_landed [of fault "file" "Some x" fs] by (auto simp: write_file_def update_conv' split: if_splits)
  show "read_record file i d' = read_record file i d \<or> read_record file i d' = Inr x"
    using fs'(1) by (auto simp: read_record_def d' update_conv' d)
  show "e = None \<Longrightarrow> read_record file i d' = Inr x"
    using fs'(2) d'(2) by (auto simp: read_record_def d'(1) update_conv')
qed

lemma write_record_distinct:
  "write_record fault file i x d = (d', e) \<Longrightarrow> distinct (map fst d) \<Longrightarrow> distinct (map fst d')"
  by (auto simp: write_record_def distinct_update split: prod.splits option.splits entry.splits)

lemma read_remove_other: "j \<noteq> i \<Longrightarrow> read_record file j (remove_all rm file i d) = read_record file j d"
  by (auto simp: read_record_def remove_all_def delete_conv' update_conv' split: removal.splits option.splits entry.splits)

lemma read_remove_self:
  "read_record file i (remove_all rm file i d) \<in> {read_record file i d, Inl RecordNotFound}"
  "read_record file i (remove_all Removed file i d) = Inl RecordNotFound"
  by (auto simp: read_record_def remove_all_def delete_conv' update_conv' split: removal.splits option.splits entry.splits)

lemma remove_all_distinct: "distinct (map fst d) \<Longrightarrow> distinct (map fst (remove_all rm file i d))"
  by (auto simp: remove_all_def distinct_delete distinct_update split: removal.splits option.splits entry.splits)

text \<open>The same, for the repository of sandboxes.\<close>

lemma repo_Get_read: "is_ok (ValidID i) \<Longrightarrow> repo_Get i r = read_record recordFile i (rp_sandboxes r)"
  by (auto simp: repo_Get_def is_ok_iff)

lemma repo_Get_cong:
  "(is_ok (ValidID i) \<Longrightarrow> read_record recordFile i (rp_sandboxes r) = read_record recordFile i (rp_sandboxes r'))
   \<Longrightarrow> repo_Get i r = repo_Get i r'"
  by (auto simp: repo_Get_def split: sum.splits)

lemma repo_Get_eq: "map_of (rp_sandboxes r) i = map_of (rp_sandboxes r') i \<Longrightarrow> repo_Get i r = repo_Get i r'"
  by (simp add: repo_Get_def read_record_def split: sum.splits)

lemma repo_Get_bump [simp]: "repo_Get i (bump r) = repo_Get i r"
  by (rule repo_Get_eq) (simp add: bump_def)

lemma repo_Get_names [simp]: "repo_Get i (r\<lparr>rp_names := ns\<rparr>) = repo_Get i r"
  "repo_Get i (r\<lparr>rp_checkpoints := cs\<rparr>) = repo_Get i r"
  by (rule repo_Get_eq, simp)+

lemma bump_fields [simp]: "rp_names (bump r) = rp_names r" "rp_sandboxes (bump r) = rp_sandboxes r"
  "rp_checkpoints (bump r) = rp_checkpoints r" "rp_gen (bump r) = rp_gen r + 1"
  by (simp_all add: bump_def)

lemma repo_Get_valid: "repo_Get i r = Inr sb \<Longrightarrow> is_ok (ValidID i)"
  by (auto simp: repo_Get_def split: sum.splits)

lemma repo_Get_dir:
  "repo_Get i r = Inr sb \<Longrightarrow> \<exists>fs. map_of (rp_sandboxes r) i = Some (RecordDir fs) \<and> map_of fs recordFile = Some (File (Some sb))"
  by (auto simp: repo_Get_def read_record_def split: sum.splits option.splits entry.splits node.splits)

lemma claimID_claimIn:
  "claimID draws faults r = (r1, res) \<Longrightarrow> claimIn idAttempts 0 draws faults (rp_sandboxes r) = (rp_sandboxes r1, res)"
  by (auto simp: claimID_def split: prod.splits)

lemma claimID_Get: "claimID draws faults r = (r1, res) \<Longrightarrow> repo_Get j r1 = repo_Get j r"
  by (rule repo_Get_cong) (rule read_claimIn [OF claimID_claimIn])

lemma claimID_keeps:
  "claimID draws faults r = (r1, res) \<Longrightarrow>
     rp_names r1 = rp_names r \<and> rp_gen r1 = rp_gen r \<and> rp_checkpoints r1 = rp_checkpoints r"
  by (auto simp: claimID_def split: prod.splits)

lemma claimID_distinct:
  "claimID draws faults r = (r1, res) \<Longrightarrow> distinct (map fst (rp_sandboxes r)) \<Longrightarrow> distinct (map fst (rp_sandboxes r1))"
  by (rule claimIn_distinct [OF claimID_claimIn])

lemma claimID_ok:
  assumes "claimID draws faults r = (r1, Inr i)"
  shows "map_of (rp_sandboxes r1) i = Some (RecordDir [])" "generatedIDShape i" "is_ok (ValidID i)"
    "repo_Get i r = Inl RecordNotFound"
  using claimIn_ok [OF claimID_claimIn [OF assms], of recordFile] by (simp_all add: repo_Get_read)

lemma repo_write_keeps:
  "repo_write fault sb r = (r', e) \<Longrightarrow>
     rp_names r' = rp_names r \<and> rp_gen r' = rp_gen r + 1 \<and> rp_checkpoints r' = rp_checkpoints r"
  by (auto simp: repo_write_def split: prod.splits)

lemma repo_write_record:
  "repo_write fault sb r = (r', e) \<Longrightarrow>
     write_record fault recordFile (sb_ID sb) sb (rp_sandboxes r) = (rp_sandboxes r', e)"
  by (auto simp: repo_write_def split: prod.splits)

lemma repo_write_distinct:
  "repo_write fault sb r = (r', e) \<Longrightarrow> distinct (map fst (rp_sandboxes r)) \<Longrightarrow> distinct (map fst (rp_sandboxes r'))"
  by (rule write_record_distinct [OF repo_write_record])

lemma repo_write_other: "repo_write fault sb r = (r', e) \<Longrightarrow> j \<noteq> sb_ID sb \<Longrightarrow> repo_Get j r' = repo_Get j r"
  by (rule repo_Get_cong) (rule read_write_other [OF repo_write_record])

lemma repo_write_self:
  assumes w: "repo_write fault sb r = (r', e)" and v: "is_ok (ValidID (sb_ID sb))"
    and d: "map_of (rp_sandboxes r) (sb_ID sb) = Some (RecordDir fs)"
  shows "repo_Get (sb_ID sb) r' = repo_Get (sb_ID sb) r \<or> repo_Get (sb_ID sb) r' = Inr sb"
    and "e = None \<Longrightarrow> repo_Get (sb_ID sb) r' = Inr sb"
  using read_write_self [OF repo_write_record [OF w] d] by (simp_all add: repo_Get_read v)

lemma remove_all_Get:
  "j \<noteq> i \<Longrightarrow> repo_Get j (r\<lparr>rp_sandboxes := remove_all rm recordFile i (rp_sandboxes r)\<rparr>) = repo_Get j r"
  by (rule repo_Get_cong) (simp add: read_remove_other)

lemma remove_all_self:
  "is_ok (ValidID i) \<Longrightarrow>
     repo_Get i (r\<lparr>rp_sandboxes := remove_all rm recordFile i (rp_sandboxes r)\<rparr>) \<in> {repo_Get i r, Inl RecordNotFound}
   \<and> (rm = Removed \<longrightarrow> repo_Get i (r\<lparr>rp_sandboxes := remove_all rm recordFile i (rp_sandboxes r)\<rparr>) = Inl RecordNotFound)"
  using read_remove_self by (auto simp: repo_Get_read)

lemma path_Base_target: "is_ok (ValidID i) \<Longrightarrow> path_Base (link_target records i) = i"
proof -
  assume v: "is_ok (ValidID i)"
  have no: "CHR ''/'' \<notin> set i" using ValidID_no [OF v, of "CHR ''/''"] by (simp add: char_class_defs)
  have ne: "i \<noteq> []" using v by (simp add: ValidID_ok)
  then have "hd (rev i) \<noteq> CHR ''/''" using no by (metis hd_in_set rev_is_Nil_conv set_rev)
  then have "dropWhile (\<lambda>c. c = CHR ''/'') (rev i) = rev i" using ne by (cases "rev i") auto
  then have "dropWhile (\<lambda>c. c = CHR ''/'') (rev i @ s) = rev i @ s" for s
    using ne \<open>hd (rev i) \<noteq> CHR ''/''\<close> by (cases "rev i") auto
  then have t: "rev (dropWhile (\<lambda>c. c = CHR ''/'') (rev (link_target records i))) = (''../'' @ records) @ CHR ''/'' # i"
    by (simp add: link_target_def)
  have "last (Split ((''../'' @ records) @ CHR ''/'' # i) CHR ''/'') = i"
    unfolding Split_append_sep using no by simp
  then show ?thesis using t ne by (simp add: path_Base_def link_target_def)
qed

lemma entry_at_some: "distinct (map (fo \<circ> fst) d) \<Longrightarrow> (n, l) \<in> set d \<Longrightarrow> entry_at fo n d = Some l"
  by (induction d) (auto simp: entry_at_def rev_image_eqI split: if_splits)

lemma entry_at_none: "entry_at fo n d = None \<longleftrightarrow> fo n \<notin> (fo \<circ> fst) ` set d"
  by (induction d) (auto simp: entry_at_def)

lemma entry_at_in: "entry_at fo n d = Some l \<Longrightarrow> \<exists>k. (k, l) \<in> set d \<and> fo k = fo n"
  by (induction d) (auto simp: entry_at_def split: if_splits)

lemma remove_entry_set: "(k, l) \<in> set (remove_entry fo n d) \<longleftrightarrow> (k, l) \<in> set d \<and> fo k \<noteq> fo n"
  by (auto simp: remove_entry_def)

lemma remove_entry_distinct: "distinct (map (fo \<circ> fst) d) \<Longrightarrow> distinct (map (fo \<circ> fst) (remove_entry fo n d))"
  by (simp add: remove_entry_def distinct_map_filter)

lemma claimID_stray:
  assumes "claimID draws faults r = (r1, res)"
  shows "(map_of (rp_sandboxes r1) j = Some Stray) = (map_of (rp_sandboxes r) j = Some Stray)"
proof -
  note c = claimID_claimIn [OF assms]
  from c show ?thesis
  proof (cases rule: claimIn_cases)
    case (claimed i)
    have "map_of (rp_sandboxes r) i = None" using claimed(1) map_of_eq_None_iff [of "rp_sandboxes r" i] by simp
    then show ?thesis using map_of_fresh [OF claimed(1), of "RecordDir []"] claimed(2)
      by (auto simp del: map_of_append)
  qed simp
qed

lemma remove_all_stray:
  "map_of d i = Some (RecordDir fs) \<Longrightarrow> (map_of (remove_all rm file i d) j = Some Stray) = (map_of d j = Some Stray)"
  by (auto simp: remove_all_def delete_conv' update_conv' split: removal.splits)

subsection \<open>The invariant of the repository\<close>

definition records_ok :: "repo \<Rightarrow> bool" where
  "records_ok r = (distinct (map fst (rp_sandboxes r))
     \<and> (\<forall>i sb. repo_Get i r = Inr sb \<longrightarrow> sb_ID sb = i \<and> state_Valid (sb_State sb) \<and> generatedIDShape i))"

definition linked :: "repo \<Rightarrow> string \<Rightarrow> link \<Rightarrow> bool" where
  "linked r n l = (\<exists>i sb. l = Link (link_target sandboxesDir i) \<and> repo_Get i r = Inr sb \<and> sb_Name sb = n
     \<and> is_ok (ref_ValidName n))"

definition names_ok :: "(string \<Rightarrow> string) \<Rightarrow> repo \<Rightarrow> bool" where
  "names_ok fo r = (distinct (map (fo \<circ> fst) (rp_names r)) \<and> (\<forall>n l. (n, l) \<in> set (rp_names r) \<longrightarrow> linked r n l))"

definition repo_inv :: "(string \<Rightarrow> string) \<Rightarrow> repo \<Rightarrow> bool" where
  "repo_inv fo r = (records_ok r \<and> names_ok fo r)"

text \<open>The steps of the repository; \<open>synced\<close> says that no sync of a name just claimed fails.\<close>

inductive repo_step :: "bool \<Rightarrow> (string \<Rightarrow> string) \<Rightarrow> repo \<Rightarrow> repo \<Rightarrow> bool" for synced fo where
  create: "synced \<longrightarrow> cr_name env \<noteq> Some NameSync \<Longrightarrow> repo_step synced fo r (fst (repo_Create fo env sb r))"
| update: "repo_step synced fo r (fst (repo_Update fault i mutate r))"
| delete: "repo_step synced fo r (fst (repo_Delete fo env i r))"
| sweep: "repo_step synced fo r (fst (SweepCheckpointTmp removable readable durable r))"

text \<open>How a create ends: before the record, after a write that failed, after a name that was refused, or
  with the record and its name.\<close>

lemma repo_Create_cases:
  assumes "repo_Create fo env sb r = (r', res)"
  obtains (early) "\<not> is_ok res" "\<forall>j. repo_Get j r' = repo_Get j r" "rp_names r' = rp_names r" "rp_gen r' = rp_gen r"
      "\<forall>j. (map_of (rp_sandboxes r') j = Some Stray) = (map_of (rp_sandboxes r) j = Some Stray)"
      "distinct (map fst (rp_sandboxes r)) \<longrightarrow> distinct (map fst (rp_sandboxes r'))"
  | (undone) r1 r2 i e ns where "claimID (cr_draws env) (cr_claim env) r = (r1, Inr i)"
      "repo_write (cr_write env) (sb\<lparr>sb_ID := i\<rparr>) r1 = (r2, e)" "state_Valid (sb_State sb)"
      "r' = undo_create (cr_cleanup env) i (r2\<lparr>rp_names := ns\<rparr>)" "\<not> is_ok res"
      "ns = rp_names r \<or> cr_name env = Some NameSync \<and> ns = rp_names r @ [(sb_Name sb, Link (link_target sandboxesDir i))]"
  | (created) r1 r2 i ns where "claimID (cr_draws env) (cr_claim env) r = (r1, Inr i)"
      "repo_write (cr_write env) (sb\<lparr>sb_ID := i\<rparr>) r1 = (r2, None)" "state_Valid (sb_State sb)"
      "names_claim fo (cr_name env) sandboxesDir ''sandbox'' (sb_Name sb) i (rp_names r) = (ns, None)"
      "r' = r2\<lparr>rp_names := ns\<rparr>" "res = Inr (sb\<lparr>sb_ID := i\<rparr>)"
proof (cases "sb_ID sb \<noteq> [] \<or> \<not> state_Valid (sb_State sb)")
  case True
  then show ?thesis using assms by (intro early) (auto simp: repo_Create_def split: if_splits)
next
  case False
  obtain r1 c where cl: "claimID (cr_draws env) (cr_claim env) r = (r1, c)" by force
  show ?thesis
  proof (cases c)
    case (Inl e)
    then show ?thesis using assms False cl claimID_Get [OF cl] claimID_keeps [OF cl] claimID_distinct [OF cl] claimID_stray [OF cl]
      by (intro early) (auto simp: repo_Create_def)
  next
    case (Inr i)
    show ?thesis
    proof (cases "run_admit (cr_admit env) i")
      case (Some e)
      have v: "is_ok (ValidID i)" and nf: "repo_Get i r = Inl RecordNotFound"
        and dir: "map_of (rp_sandboxes r1) i = Some (RecordDir [])"
        using claimID_ok [of _ _ r r1 i] cl Inr by auto
      let ?r1 = "r1\<lparr>rp_sandboxes := remove_all (cr_cleanup env) recordFile i (rp_sandboxes r1)\<rparr>"
      have same: "repo_Get j ?r1 = repo_Get j r" for j
        using remove_all_Get [of j i "cr_cleanup env" r1] remove_all_self [OF v, of "cr_cleanup env" r1]
          claimID_Get [OF cl] nf by (cases "j = i") auto
      have r': "r' = ?r1" "\<not> is_ok res" using assms False cl Inr Some by (auto simp: repo_Create_def)
      show ?thesis
        by (rule early)
          (use r' same claimID_keeps [OF cl] claimID_distinct [OF cl] claimID_stray [OF cl] remove_all_stray [OF dir] remove_all_distinct in auto)
    next
      case None
      obtain r2 e where w: "repo_write (cr_write env) (sb\<lparr>sb_ID := i\<rparr>) r1 = (r2, e)" by force
      have ns: "rp_names r2 = rp_names r" using repo_write_keeps [OF w] claimID_keeps [OF cl] by simp
      obtain m e' where n: "names_claim fo (cr_name env) sandboxesDir ''sandbox'' (sb_Name sb) i (rp_names r) = (m, e')"
        by force
      have ns2: "r2\<lparr>rp_names := rp_names r\<rparr> = r2" using ns by simp
      show ?thesis
      proof (cases e)
        case (Some err)
        then show ?thesis using assms False cl Inr None w
          by (intro undone [of r1 i r2 e "rp_names r"]) (auto simp: repo_Create_def ns2)
      next
        case e: None
        have kept: "m = rp_names r \<or> cr_name env = Some NameSync \<and> m = rp_names r @ [(sb_Name sb, Link (link_target sandboxesDir i))]"
          if "e' \<noteq> None"
          using n that by (auto simp: names_claim_def Let_def split: if_splits sum.splits)
        show ?thesis
        proof (cases e')
          case (Some err)
          then show ?thesis using assms False cl Inr None w e n ns kept
            by (intro undone [of r1 i r2 e m]) (auto simp: repo_Create_def)
        next
          case e': None
          then show ?thesis using assms False cl Inr None w e n ns
            by (intro created [of r1 i r2 m]) (auto simp: repo_Create_def)
        qed
      qed
    qed
  qed
qed

lemma linked_same: "linked r n l \<Longrightarrow> (\<And>i sb. repo_Get i r = Inr sb \<Longrightarrow> l = Link (link_target sandboxesDir i)
    \<Longrightarrow> \<exists>sb'. repo_Get i r' = Inr sb' \<and> sb_Name sb' = sb_Name sb) \<Longrightarrow> linked r' n l"
  unfolding linked_def by metis

lemma undo_create_Get:
  assumes cl: "claimID draws faults r = (r1, Inr i)" and w: "repo_write fault (sb\<lparr>sb_ID := i\<rparr>) r1 = (r2, e)"
  shows "j \<noteq> i \<Longrightarrow> repo_Get j (undo_create rm i (r2\<lparr>rp_names := ns\<rparr>)) = repo_Get j r"
    and "repo_Get i (undo_create rm i (r2\<lparr>rp_names := ns\<rparr>)) \<in> {Inr (sb\<lparr>sb_ID := i\<rparr>), Inl RecordNotFound}"
    and "rm = Removed \<Longrightarrow> repo_Get i (undo_create rm i (r2\<lparr>rp_names := ns\<rparr>)) = Inl RecordNotFound"
    and "distinct (map fst (rp_sandboxes r)) \<Longrightarrow>
         distinct (map fst (rp_sandboxes (undo_create rm i (r2\<lparr>rp_names := ns\<rparr>))))"
proof -
  let ?r = "r2\<lparr>rp_names := ns\<rparr>"
  note ok = claimID_ok [OF cl]
  have self: "repo_Get i r2 \<in> {Inl RecordNotFound, Inr (sb\<lparr>sb_ID := i\<rparr>)}"
    using repo_write_self(1) [OF w, of "[]"] ok claimID_Get [OF cl, of i] by auto
  show "j \<noteq> i \<Longrightarrow> repo_Get j (undo_create rm i ?r) = repo_Get j r"
    using remove_all_Get [of j i rm ?r] repo_write_other [OF w, of j] claimID_Get [OF cl, of j]
    by (simp add: undo_create_def)
  show "repo_Get i (undo_create rm i ?r) \<in> {Inr (sb\<lparr>sb_ID := i\<rparr>), Inl RecordNotFound}"
    using remove_all_self [OF ok(3), of rm ?r] self by (auto simp: undo_create_def)
  show "rm = Removed \<Longrightarrow> repo_Get i (undo_create rm i ?r) = Inl RecordNotFound"
    using remove_all_self [OF ok(3), of rm ?r] by (simp add: undo_create_def)
  show "distinct (map fst (rp_sandboxes r)) \<Longrightarrow> distinct (map fst (rp_sandboxes (undo_create rm i ?r)))"
    using repo_write_distinct [OF w] claimID_distinct [OF cl] remove_all_distinct
    by (simp add: undo_create_def)
qed

lemma created_Get:
  assumes cl: "claimID draws faults r = (r1, Inr i)" and w: "repo_write fault (sb\<lparr>sb_ID := i\<rparr>) r1 = (r2, None)"
  shows "j \<noteq> i \<Longrightarrow> repo_Get j r2 = repo_Get j r" and "repo_Get i r2 = Inr (sb\<lparr>sb_ID := i\<rparr>)"
    and "distinct (map fst (rp_sandboxes r)) \<Longrightarrow> distinct (map fst (rp_sandboxes r2))"
proof -
  note ok = claimID_ok [OF cl]
  show "j \<noteq> i \<Longrightarrow> repo_Get j r2 = repo_Get j r"
    using repo_write_other [OF w, of j] claimID_Get [OF cl, of j] by simp
  show "repo_Get i r2 = Inr (sb\<lparr>sb_ID := i\<rparr>)"
    using repo_write_self(2) [OF w, of "[]"] ok by simp
  show "distinct (map fst (rp_sandboxes r)) \<Longrightarrow> distinct (map fst (rp_sandboxes r2))"
    using repo_write_distinct [OF w] claimID_distinct [OF cl] by simp
qed

lemma names_claim_ok:
  "names_claim fo fault records noun name i d = (ns, None) \<Longrightarrow>
     (name = [] \<and> ns = d)
   \<or> (name \<noteq> [] \<and> ns = d @ [(name, Link (link_target records i))] \<and> fo name \<notin> (fo \<circ> fst) ` set d
      \<and> is_ok (ref_ValidName name))"
  by (auto simp: names_claim_def entry_at_none Let_def split: if_splits sum.splits)

lemma repo_Create_inv:
  assumes inv: "repo_inv fo r" and ns: "cr_name env \<noteq> Some NameSync"
  shows "repo_inv fo (fst (repo_Create fo env sb r))"
proof -
  obtain r' res where c: "repo_Create fo env sb r = (r', res)" by force
  have rec: "records_ok r" and nm: "names_ok fo r" using inv by (auto simp: repo_inv_def)
  have fresh: "repo_Get i r = Inl RecordNotFound" if "claimID (cr_draws env) (cr_claim env) r = (r1, Inr i)" for r1 i
    using claimID_ok(4) [OF that] .
  from c have "repo_inv fo r'"
  proof (cases rule: repo_Create_cases)
    case early
    then have "linked r' n l" if "(n, l) \<in> set (rp_names r)" for n l
      using nm that by (simp add: names_ok_def linked_def)
    then show ?thesis using early rec nm by (simp add: repo_inv_def records_ok_def names_ok_def)
  next
    case (undone r1 r2 i e m)
    note g = undo_create_Get [OF undone(1,2)] and ok = claimID_ok [OF undone(1)]
    have m: "m = rp_names r" using undone(6) ns by simp
    have names: "rp_names r' = rp_names r" by (simp add: undone(4) undo_create_def m)
    have other: "repo_Get j r' = repo_Get j r" if "j \<noteq> i" for j using g(1) [OF that] by (simp add: undone(4))
    have linked': "linked r' n l" if "(n, l) \<in> set (rp_names r)" for n l
    proof -
      have "linked r n l" using nm that by (simp add: names_ok_def)
      then show ?thesis by (rule linked_same) (metis other ok(4) sum.distinct(1))
    qed
    have "sb_ID x = j \<and> state_Valid (sb_State x) \<and> generatedIDShape j" if "repo_Get j r' = Inr x" for j x
    proof (cases "j = i")
      case True
      then show ?thesis using g(2) [of "cr_cleanup env" m] that ok(2) undone(3) by (auto simp: undone(4))
    next
      case False
      then show ?thesis using other that rec by (simp add: records_ok_def)
    qed
    then have "records_ok r'" using rec g(4) [of "cr_cleanup env" m] by (simp add: records_ok_def undone(4))
    then show ?thesis using linked' nm names by (simp add: repo_inv_def names_ok_def)
  next
    case (created r1 r2 i m)
    note g = created_Get [OF created(1,2)] and ok = claimID_ok [OF created(1)]
    have other: "repo_Get j r' = repo_Get j r" if "j \<noteq> i" for j using g(1) [OF that] by (simp add: created(5))
    have self: "repo_Get i r' = Inr (sb\<lparr>sb_ID := i\<rparr>)" using g(2) by (simp add: created(5))
    have rec': "records_ok r'"
    proof -
      have "sb_ID x = j \<and> state_Valid (sb_State x) \<and> generatedIDShape j" if "repo_Get j r' = Inr x" for j x
      proof (cases "j = i")
        case True
        then show ?thesis using self that ok(2) created(3) by auto
      next
        case False
        then show ?thesis using other that rec by (simp add: records_ok_def)
      qed
      then show ?thesis using rec g(3) by (simp add: records_ok_def created(5))
    qed
    have old: "linked r' n l" if "(n, l) \<in> set (rp_names r)" for n l
    proof -
      have "linked r n l" using nm that by (simp add: names_ok_def)
      then show ?thesis by (rule linked_same) (metis other ok(4) sum.distinct(1))
    qed
    have "linked r' (sb_Name sb) (Link (link_target sandboxesDir i))" if "is_ok (ref_ValidName (sb_Name sb))"
      using self that by (auto simp: linked_def)
    then have "names_ok fo r'"
      using names_claim_ok [OF created(4)] nm old by (auto simp: names_ok_def created(5))
    then show ?thesis using rec' by (simp add: repo_inv_def)
  qed
  then show ?thesis by (simp add: c)
qed


lemma repo_Update_cases:
  assumes "repo_Update fault i mutate r = (r', e)"
  obtains (refused) "r' = r" "e \<noteq> None"
  | (written) sb sb' where "repo_Get i r = Inr sb" "mutate sb = Inr sb'" "sb_ID sb' = i" "sb_Name sb' = sb_Name sb"
      "state_Valid (sb_State sb')" "repo_write fault sb' r = (r', e)"
  using assms by (auto simp: repo_Update_def split: sum.splits if_splits)

lemma repo_Update_Get:
  assumes "repo_Get i r = Inr sb" "sb_ID sb' = i" "repo_write fault sb' r = (r', e)"
  shows "repo_Get i r' = Inr sb \<or> repo_Get i r' = Inr sb'" and "e = None \<Longrightarrow> repo_Get i r' = Inr sb'"
  using repo_write_self [OF assms(3)] assms repo_Get_valid [OF assms(1)] repo_Get_dir [OF assms(1)] by auto

lemma repo_Update_inv:
  assumes inv: "repo_inv fo r"
  shows "repo_inv fo (fst (repo_Update fault i mutate r))"
proof -
  obtain r' e where u: "repo_Update fault i mutate r = (r', e)" by force
  have rec: "records_ok r" and nm: "names_ok fo r" using inv by (auto simp: repo_inv_def)
  from u have "repo_inv fo r'"
  proof (cases rule: repo_Update_cases)
    case refused
    then show ?thesis using inv by simp
  next
    case (written sb sb')
    note w = written(6)
    have other: "repo_Get j r' = repo_Get j r" if "j \<noteq> i" for j using repo_write_other [OF w] that written(3) by simp
    have self: "\<exists>x. repo_Get i r' = Inr x \<and> sb_Name x = sb_Name sb \<and> sb_ID x = i \<and> state_Valid (sb_State x)"
      using repo_Update_Get(1) [OF written(1,3) w] written rec by (auto simp: records_ok_def)
    have "linked r' n l" if "(n, l) \<in> set (rp_names r)" for n l
    proof -
      have "linked r n l" using nm that by (simp add: names_ok_def)
      then show ?thesis by (rule linked_same) (metis other self written(1) sum.inject(2))
    qed
    moreover have "sb_ID x = j \<and> state_Valid (sb_State x) \<and> generatedIDShape j" if "repo_Get j r' = Inr x" for j x
    proof (cases "j = i")
      case True
      then show ?thesis using self that rec written(1) by (auto simp: records_ok_def)
    next
      case False
      then show ?thesis using other that rec by (simp add: records_ok_def)
    qed
    ultimately show ?thesis
      using repo_write_keeps [OF w] repo_write_distinct [OF w] rec nm
      by (simp add: repo_inv_def records_ok_def names_ok_def)
  qed
  then show ?thesis by (simp add: u)
qed

lemma trash_invalid: "\<not> is_ok (ValidID (CHR ''.'' # s))"
  by (simp add: ValidID_ok char_class_defs)

lemma delete_dir_Get:
  assumes "delete_dir env i r = (r', e)" "is_ok (ValidID i)"
  shows "j \<noteq> i \<Longrightarrow> repo_Get j r' = repo_Get j r"
    and "repo_Get i r' = repo_Get i r \<or> repo_Get i r' = Inl RecordNotFound"
    and "e = None \<Longrightarrow> repo_Get i r' = Inl RecordNotFound"
    and "rp_names r' = rp_names r" "rp_checkpoints r' = rp_checkpoints r" "rp_gen r' = rp_gen r"
    and "distinct (map fst (rp_sandboxes r)) \<Longrightarrow> distinct (map fst (rp_sandboxes r'))"
proof -
  let ?trash = "CHR ''.'' # i @ CHR ''.'' # de_suffix env"
  have cases: "r' = r \<and> e \<noteq> None
    \<or> (\<exists>en. r' = r\<lparr>rp_sandboxes := AList.delete i (rp_sandboxes r) @ [(?trash, en)]\<rparr>
         \<and> ?trash \<notin> fst ` set (rp_sandboxes r) \<and> e \<noteq> None)
    \<or> r' = r\<lparr>rp_sandboxes := AList.delete i (rp_sandboxes r)\<rparr>"
    using assms(1) by (auto simp: delete_dir_def Let_def split: option.splits if_splits)
  have t: "?trash \<notin> fst ` set (AList.delete i (rp_sandboxes r))" if "?trash \<notin> fst ` set (rp_sandboxes r)"
    using that by (auto simp: AList.delete_eq)
  have m: "map_of (AList.delete i (rp_sandboxes r) @ [(?trash, en)]) j =
      (if j = ?trash then Some en else if j = i then None else map_of (rp_sandboxes r) j)"
    if "?trash \<notin> fst ` set (rp_sandboxes r)" for en j
    using map_of_fresh [OF t [OF that]] by (auto simp: delete_conv' simp del: map_of_append)
  have it: "i \<noteq> ?trash" using trash_invalid assms(2) by metis
  show "repo_Get j r' = repo_Get j r" if "j \<noteq> i"
  proof (cases "j = ?trash")
    case True
    then show ?thesis using trash_invalid by (auto simp: repo_Get_def is_ok_iff split: sum.splits)
  next
    case False
    then show ?thesis using cases m that by (intro repo_Get_eq) (auto simp: delete_conv' simp del: map_of_append)
  qed
  show "repo_Get i r' = repo_Get i r \<or> repo_Get i r' = Inl RecordNotFound"
    using cases m it assms(2)
    by (auto simp: repo_Get_def read_record_def is_ok_iff delete_conv' simp del: map_of_append)
  show "e = None \<Longrightarrow> repo_Get i r' = Inl RecordNotFound"
    using cases assms(2) by (auto simp: repo_Get_def read_record_def is_ok_iff delete_conv')
  show "rp_names r' = rp_names r" "rp_checkpoints r' = rp_checkpoints r" "rp_gen r' = rp_gen r"
    using cases by auto
  show "distinct (map fst (rp_sandboxes r)) \<Longrightarrow> distinct (map fst (rp_sandboxes r'))"
    using cases t by (auto simp: distinct_delete)
qed

lemma names_drop_error: "names_drop fo fault name i d = (ns, Some e) \<Longrightarrow> ns = d"
  by (auto simp: names_drop_def split: if_splits option.splits link.splits)

lemma names_drop_subset: "names_drop fo fault name i d = (ns, e) \<Longrightarrow> set ns \<subseteq> set d"
  by (auto simp: names_drop_def remove_entry_def split: if_splits option.splits link.splits)

lemma names_drop_distinct:
  "names_drop fo fault name i d = (ns, e) \<Longrightarrow> distinct (map (fo \<circ> fst) d) \<Longrightarrow> distinct (map (fo \<circ> fst) ns)"
  by (auto simp: names_drop_def remove_entry_distinct split: if_splits option.splits link.splits)

lemma names_drop_gone:
  assumes "names_drop fo fault n i d = (ns, None)" "n \<noteq> []" "distinct (map (fo \<circ> fst) d)"
    "(n, Link t) \<in> set d" "path_Base t = i"
  shows "(n, Link t) \<notin> set ns"
  using assms entry_at_some [OF assms(3,4)] by (auto simp: names_drop_def remove_entry_set split: if_splits)

lemma repo_Delete_cases:
  assumes "repo_Delete fo env i r = (r', e)"
  obtains (absent) "r' = r" "e \<noteq> None"
  | (stuck) sb where "repo_Get i r = Inr sb" "rp_sandboxes r' = rp_sandboxes r" "rp_names r' = rp_names r"
      "rp_gen r' = rp_gen r + 1" "e \<noteq> None"
  | (dropped) sb ns where "repo_Get i r = Inr sb"
      "names_drop fo (de_name env) (sb_Name sb) i (rp_names r) = (ns, None)" "rp_names r' = ns"
      "rp_gen r' = rp_gen r + 1" "\<forall>j. j \<noteq> i \<longrightarrow> repo_Get j r' = repo_Get j r"
      "repo_Get i r' = repo_Get i r \<or> repo_Get i r' = Inl RecordNotFound"
      "e = None \<longrightarrow> repo_Get i r' = Inl RecordNotFound \<and> {i, i @ ''.tmp''} \<inter> set (rp_checkpoints r') = {}"
      "distinct (map fst (rp_sandboxes r)) \<longrightarrow> distinct (map fst (rp_sandboxes r'))"
proof (cases "repo_Get i r")
  case (Inl err)
  then show ?thesis using assms by (intro absent) (auto simp: repo_Delete_def)
next
  case (Inr sb)
  obtain ns e1 where d: "names_drop fo (de_name env) (sb_Name sb) i (rp_names r) = (ns, e1)" by force
  show ?thesis
  proof (cases e1)
    case (Some err)
    then show ?thesis using assms Inr d names_drop_error [of fo "de_name env" "sb_Name sb" i "rp_names r" ns err]
      by (intro stuck [of sb]) (auto simp: repo_Delete_def)
  next
    case None
    let ?r3 = "r\<lparr>rp_names := ns, rp_checkpoints := removeAll (i @ ''.tmp'') (removeAll i (rp_checkpoints r))\<rparr>"
    obtain r4 e4 where dd: "delete_dir env i ?r3 = (r4, e4)" by force
    note del = delete_dir_Get [OF dd repo_Get_valid [OF Inr]]
    have get3: "repo_Get j ?r3 = repo_Get j r" for j by (rule repo_Get_eq) simp
    have "(\<exists>cs. r' = bump (r\<lparr>rp_names := ns, rp_checkpoints := cs\<rparr>) \<and> e \<noteq> None) \<or> r' = bump r4 \<and> e = e4"
    proof (cases "de_step env = Some DeleteCheckpoint")
      case True
      then have "r' = bump (r\<lparr>rp_names := ns, rp_checkpoints := rp_checkpoints r\<rparr>)" "e \<noteq> None"
        using assms Inr d None by (auto simp: repo_Delete_def Let_def)
      then show ?thesis by blast
    qed (use assms Inr d None dd in \<open>auto simp: repo_Delete_def Let_def split: if_splits\<close>)
    then show ?thesis
    proof (elim disjE exE conjE)
      fix cs assume r': "r' = bump (r\<lparr>rp_names := ns, rp_checkpoints := cs\<rparr>)" "e \<noteq> None"
      have "repo_Get j r' = repo_Get j r" for j unfolding r' repo_Get_bump by (rule repo_Get_eq) simp
      then show ?thesis using r' Inr d None by (intro dropped [of sb ns]) auto
    next
      assume r': "r' = bump r4" "e = e4"
      then show ?thesis using Inr d None del get3 by (intro dropped [of sb ns]) auto
    qed
  qed
qed

lemma repo_Delete_inv:
  assumes inv: "repo_inv fo r"
  shows "repo_inv fo (fst (repo_Delete fo env i r))"
proof -
  obtain r' e where u: "repo_Delete fo env i r = (r', e)" by force
  have rec: "records_ok r" and nm: "names_ok fo r" using inv by (auto simp: repo_inv_def)
  from u have "repo_inv fo r'"
  proof (cases rule: repo_Delete_cases)
    case absent
    then show ?thesis using inv by simp
  next
    case (stuck sb)
    then have "repo_Get j r' = repo_Get j r" for j by (intro repo_Get_eq) simp
    then show ?thesis using stuck rec nm by (simp add: repo_inv_def records_ok_def names_ok_def linked_def)
  next
    case (dropped sb ns)
    have old: "(n, l) \<in> set (rp_names r)" if "(n, l) \<in> set ns" for n l
      using names_drop_subset [OF dropped(2)] that by blast
    have links: "linked r' n l" if nl: "(n, l) \<in> set ns" for n l
    proof -
      obtain k x where k: "l = Link (link_target sandboxesDir k)" "repo_Get k r = Inr x" "sb_Name x = n"
        "is_ok (ref_ValidName n)" using nm old [OF nl] unfolding names_ok_def linked_def by blast
      have "k \<noteq> i"
      proof
        assume "k = i"
        then have "sb_Name sb = n" "n \<noteq> []" "path_Base (link_target sandboxesDir k) = i"
          using k dropped(1) path_Base_target [OF repo_Get_valid [OF k(2)]]
          by (auto simp: ref_ValidName_ok ValidID_ok)
        then show False
          using names_drop_gone [of fo "de_name env" n i "rp_names r" ns] dropped(2) nm old [OF nl] nl k(1)
          by (auto simp: names_ok_def)
      qed
      then show ?thesis using k dropped(5) by (auto simp: linked_def)
    qed
    have "sb_ID x = j \<and> state_Valid (sb_State x) \<and> generatedIDShape j" if "repo_Get j r' = Inr x" for j x
    proof -
      have "repo_Get j r = Inr x" using that dropped(5,6) by (cases "j = i") auto
      then show ?thesis using rec by (simp add: records_ok_def)
    qed
    then show ?thesis
      using links dropped(3,8) rec nm names_drop_distinct [OF dropped(2)]
      by (simp add: repo_inv_def records_ok_def names_ok_def)
  qed
  then show ?thesis by (simp add: u)
qed

lemma SweepCheckpointTmp_keeps:
  "fst (SweepCheckpointTmp removable readable synced r) = r\<lparr>rp_checkpoints := rp_checkpoints (fst (SweepCheckpointTmp removable readable synced r))\<rparr>"
  by (auto simp: SweepCheckpointTmp_def split: prod.splits option.splits)

lemma SweepCheckpointTmp_inv:
  assumes "repo_inv fo r"
  shows "repo_inv fo (fst (SweepCheckpointTmp removable readable synced r))"
proof (subst SweepCheckpointTmp_keeps)
  fix cs
  show "repo_inv fo (r\<lparr>rp_checkpoints := cs\<rparr>)"
    using assms by (simp add: repo_inv_def records_ok_def names_ok_def linked_def)
qed

interpretation repository: stepping "\<lambda>r. r = empty_repo" "repo_step True fo" "repo_inv fo" for fo
proof unfold_locales
  fix r :: repo assume "r = empty_repo"
  then show "repo_inv fo r"
    by (simp add: repo_inv_def records_ok_def names_ok_def empty_repo_def repo_Get_def read_record_def split: sum.splits)
next
  fix r r' assume "repo_inv fo r" "repo_step True fo r r'"
  from this(2,1) show "repo_inv fo r'"
    by cases (simp_all add: repo_Create_inv repo_Update_inv repo_Delete_inv SweepCheckpointTmp_inv)
qed

subsection \<open>Properties of the repository\<close>

text \<open>C12: a name always leads to its sandbox. After any history of creates, updates, deletes and sweeps, with
  any call failing but the sync of a name just claimed, every link in the index of names resolves to the
  id of a record that reads whole and carries that very name; and a reference that is no entry of the
  index resolves to itself, however the filesystem folds the case of names.\<close>

theorem names_lead_to_records:
  assumes "(repo_step True fo)\<^sup>*\<^sup>* empty_repo r"
  shows "(n \<in> fst ` set (rp_names r) \<longrightarrow>
      (\<exists>sb. repo_Resolve fo None n r = Inr (sb_ID sb) \<and> repo_Get (sb_ID sb) r = Inr sb \<and> sb_Name sb = n))
    \<and> (is_ok (plainComponent n) \<and> n \<notin> fst ` set (rp_names r) \<longrightarrow> repo_Resolve fo None n r = Inr n)"
proof -
  have inv: "repo_inv fo r" by (rule repository.reach_inv [OF refl assms])
  have named: "\<exists>sb. repo_Resolve fo None n r = Inr (sb_ID sb) \<and> repo_Get (sb_ID sb) r = Inr sb \<and> sb_Name sb = n"
    if nl: "(n, l) \<in> set (rp_names r)" for l
  proof -
    obtain i sb where l: "l = Link (link_target sandboxesDir i)" "repo_Get i r = Inr sb" "sb_Name sb = n"
      "is_ok (ref_ValidName n)" using inv nl unfolding repo_inv_def names_ok_def linked_def by blast
    have "sb_ID sb = i" using inv l(2) by (simp add: repo_inv_def records_ok_def)
    have v: "is_ok (ValidID i)" by (rule repo_Get_valid [OF l(2)])
    have "entry_at fo n (rp_names r) = Some (Link (link_target sandboxesDir i))"
      using entry_at_some [of fo "rp_names r" n l] inv nl l(1) by (simp add: repo_inv_def names_ok_def)
    moreover have "is_ok (plainComponent n)" using l(4) by (simp add: ref_ValidName_ok ValidID_def)
    moreover have "n \<in> fst ` set (rp_names r)" using nl by force
    ultimately have "repo_Resolve fo None n r = Inr i"
      using path_Base_target [OF v] v
      by (auto simp: repo_Resolve_def names_resolve_def names_exists_def ValidID_def is_ok_iff Let_def)
    then show ?thesis using l \<open>sb_ID sb = i\<close> by auto
  qed
  moreover have "repo_Resolve fo None n r = Inr n" if "is_ok (plainComponent n)" "n \<notin> fst ` set (rp_names r)"
    using that by (auto simp: repo_Resolve_def names_resolve_def names_exists_def is_ok_iff split: option.splits link.splits)
  ultimately show ?thesis by force
qed

text \<open>C16: a create is all or nothing but for the link of its name. One that returns a sandbox has stored exactly that
  record under an id no record held, linked its name to it and touched no other record; one that fails
  with its cleanup done has changed no record, and no name either unless the failing call is the sync of the
  name it claimed, which leaves that one link, to an id without a record.\<close>

theorem repo_Create_atomic:
  assumes c: "repo_Create fo env sb r = (r', res)"
  shows "case res of
      Inr sb' \<Rightarrow> sb' = sb\<lparr>sb_ID := sb_ID sb'\<rparr> \<and> repo_Get (sb_ID sb') r = Inl RecordNotFound
        \<and> repo_Get (sb_ID sb') r' = Inr sb' \<and> generatedIDShape (sb_ID sb')
        \<and> (\<forall>j. j \<noteq> sb_ID sb' \<longrightarrow> repo_Get j r' = repo_Get j r)
        \<and> rp_names r' = rp_names r @
            (if sb_Name sb = [] then [] else [(sb_Name sb, Link (link_target sandboxesDir (sb_ID sb')))])
    | Inl _ \<Rightarrow> cr_cleanup env = Removed \<longrightarrow>
        (\<forall>j. repo_Get j r' = repo_Get j r)
        \<and> (rp_names r' = rp_names r
           \<or> cr_name env = Some NameSync
             \<and> (\<exists>i. rp_names r' = rp_names r @ [(sb_Name sb, Link (link_target sandboxesDir i))]
                   \<and> repo_Get i r' = Inl RecordNotFound))"
  using c
proof (cases rule: repo_Create_cases)
  case early
  then show ?thesis by (cases res) auto
next
  case (undone r1 r2 i e ns)
  obtain err where res: "res = Inl err" using undone(5) by (cases res) auto
  have same: "repo_Get j r' = repo_Get j r" if "cr_cleanup env = Removed" for j
    using undo_create_Get(1) [OF undone(1,2), of j] undo_create_Get(3) [OF undone(1,2) that] claimID_ok(4) [OF undone(1)]
    by (cases "j = i") (simp_all add: undone(4) that)
  have names: "rp_names r' = ns" by (simp add: undone(4) undo_create_def)
  have "repo_Get i r' = Inl RecordNotFound" if "cr_cleanup env = Removed"
    using same [OF that, of i] claimID_ok [OF undone(1)] by simp
  then show ?thesis using undone(6) res same names by auto
next
  case (created r1 r2 i ns)
  show ?thesis
    using created_Get [OF created(1,2)] claimID_ok [OF created(1)] names_claim_ok [OF created(4)]
    by (auto simp: created(5,6))
qed

definition example_draws :: "nat \<Rightarrow> seed option" where
  "example_draws k = Some (of_nat k, 1, 2, 3)"

definition example_env :: create_env where
  "example_env = \<lparr>cr_draws = example_draws, cr_claim = (\<lambda>_. None), cr_admit = [], cr_write = None,
     cr_name = None, cr_cleanup = Removed\<rparr>"

definition example_new :: sandbox where
  "example_new = zero_sandbox\<lparr>sb_Name := ''web'', sb_State := StatePending\<rparr>"

theorem names_lead_to_records_witness:
  "\<exists>r. repo_Resolve (\<lambda>n. n) None ''web'' r = Inr ''amber-badger-0203'' \<and> (\<exists>sb. repo_Get ''amber-badger-0203'' r = Inr sb)"
proof -
  let ?r = "fst (repo_Create (\<lambda>n. n) example_env example_new empty_repo)"
  have "(repo_step True (\<lambda>n. n))\<^sup>*\<^sup>* empty_repo ?r"
    by (rule r_into_rtranclp, rule repo_step.create) (simp add: example_env_def)
  from names_lead_to_records [OF this, of "''web''"] have
    "\<exists>sb. repo_Resolve (\<lambda>n. n) None ''web'' ?r = Inr (sb_ID sb) \<and> repo_Get (sb_ID sb) ?r = Inr sb" 
    if "''web'' \<in> fst ` set (rp_names ?r)" using that by blast
  moreover have "''web'' \<in> fst ` set (rp_names ?r)" by code_simp
  moreover have "repo_Resolve (\<lambda>n. n) None ''web'' ?r = Inr ''amber-badger-0203''" by code_simp
  ultimately show ?thesis by (metis sum.inject(2))
qed

theorem repo_Create_atomic_witness:
  "\<exists>r' sb'. repo_Create (\<lambda>n. n) example_env example_new empty_repo = (r', Inr sb') \<and> repo_Get (sb_ID sb') r' = Inr sb'"
proof -
  let ?c = "repo_Create (\<lambda>n. n) example_env example_new empty_repo"
  have "is_ok (snd ?c)" by code_simp
  then obtain sb' where "snd ?c = Inr sb'" unfolding is_ok_iff by (elim exE)
  then have c: "?c = (fst ?c, Inr sb')" by (simp add: prod_eq_iff)
  from repo_Create_atomic [OF c] have "repo_Get (sb_ID sb') (fst ?c) = Inr sb'" by (simp only: sum.case)
  then show ?thesis by (intro exI [of _ "fst ?c"] exI [of _ sb'] conjI c)
qed

text \<open>C17: an update never tears a record. Whatever call fails, the record reads afterwards as it was or as the
  mutation made it, and as the mutation made it when no error returns; its id, its name and every other
  record stay; an update the checks refuse changes nothing.\<close>

theorem repo_Update_atomic:
  assumes "repo_Update fault i mutate r = (r', e)"
  shows "(r' = r \<and> e \<noteq> None)
    \<or> (\<exists>sb sb'. repo_Get i r = Inr sb \<and> mutate sb = Inr sb' \<and> sb_ID sb' = i \<and> sb_Name sb' = sb_Name sb
        \<and> state_Valid (sb_State sb') \<and> repo_Get i r' \<in> {Inr sb, Inr sb'} \<and> (e = None \<longrightarrow> repo_Get i r' = Inr sb')
        \<and> (\<forall>j. j \<noteq> i \<longrightarrow> repo_Get j r' = repo_Get j r) \<and> rp_names r' = rp_names r)"
  using assms
proof (cases rule: repo_Update_cases)
  case (written sb sb')
  then show ?thesis
    using repo_Update_Get [OF written(1,3,6)] repo_write_other [OF written(6)] repo_write_keeps [OF written(6)]
    by (intro disjI2 exI [of _ sb] exI [of _ sb']) auto
qed simp

text \<open>C18: in a repository that keeps \<open>repo_inv\<close>, as every history whose claimed names were synced does, a delete that
  returns no error leaves nothing of the sandbox: no record, no checkpoint or staging
  directory, and no name that leads to it; whatever happens no other record changes, and the id of a
  half-done delete reads whole or not at all.\<close>

theorem repo_Delete_gone:
  assumes inv: "repo_inv fo r" and d: "repo_Delete fo env i r = (r', e)"
  shows "(\<forall>j. j \<noteq> i \<longrightarrow> repo_Get j r' = repo_Get j r)
    \<and> repo_Get i r' \<in> {repo_Get i r, Inl RecordNotFound}
    \<and> (e = None \<longrightarrow> repo_Get i r' = Inl RecordNotFound
        \<and> {i, i @ ''.tmp''} \<inter> set (rp_checkpoints r') = {}
        \<and> (\<forall>n. (n, Link (link_target sandboxesDir i)) \<notin> set (rp_names r')))"
proof -
  have inv': "repo_inv fo r'" using repo_Delete_inv [OF inv, of env i] d by simp
  have nolink: "(n, Link (link_target sandboxesDir i)) \<notin> set (rp_names r')"
    if gone: "repo_Get i r' = Inl RecordNotFound" and v: "is_ok (ValidID i)" for n
  proof
    assume "(n, Link (link_target sandboxesDir i)) \<in> set (rp_names r')"
    then obtain k sb where k: "link_target sandboxesDir i = link_target sandboxesDir k" "repo_Get k r' = Inr sb"
      using inv' unfolding repo_inv_def names_ok_def linked_def by blast
    then show False using gone by (simp add: link_target_def)
  qed
  from d show ?thesis
  proof (cases rule: repo_Delete_cases)
    case (stuck sb)
    then have "repo_Get j r' = repo_Get j r" for j by (intro repo_Get_eq) simp
    then show ?thesis using stuck(5) by auto
  next
    case (dropped sb ns)
    then show ?thesis using nolink repo_Get_valid [OF dropped(1)] by auto
  qed auto
qed

subsection \<open>The generation never misses a change\<close>

definition row :: "repo \<Rightarrow> string \<Rightarrow> (unit + sandbox) option" where
  "row r n =
     (if map_of (rp_sandboxes r) n = Some Stray \<or> \<not> is_ok (ValidID n) then None
      else case repo_Get n r of
        Inl e \<Rightarrow> if e = RecordNotFound then None else Some (Inl ())
      | Inr sb \<Rightarrow> Some (Inr sb))"

lemma list_loop_Cons_row:
  "list_loop text_of r (n # ns) sbs err =
     (case row r n of
        None \<Rightarrow> list_loop text_of r ns sbs err
      | Some (Inl _) \<Rightarrow> list_loop text_of r ns sbs (join_error err (UnreadableError n (text_of n)))
      | Some (Inr sb) \<Rightarrow> list_loop text_of r ns (sbs @ [sb]) err)"
  by (auto simp: row_def split: sum.splits)

lemmas list_loop_rows = list_loop.simps(1) list_loop_Cons_row

lemma list_loop_row: "row r = row r' \<Longrightarrow> list_loop text_of r ns sbs err = list_loop text_of r' ns sbs err"
  by (induction ns arbitrary: sbs err) (simp_all add: list_loop_rows del: list_loop.simps(2) split: option.splits sum.splits)

lemma list_loop_filter: "list_loop text_of r (filter (\<lambda>n. row r n \<noteq> None) ns) sbs err = list_loop text_of r ns sbs err"
  by (induction ns arbitrary: sbs err)
    (auto simp: list_loop_rows simp del: list_loop.simps(2) split: option.splits sum.splits)

lemma row_key: "row r n \<noteq> None \<Longrightarrow> n \<in> fst ` set (rp_sandboxes r)"
proof (rule ccontr)
  assume "row r n \<noteq> None" "n \<notin> fst ` set (rp_sandboxes r)"
  then show False using map_of_eq_None_iff [of "rp_sandboxes r" n]
    by (auto simp: row_def repo_Get_def read_record_def split: if_splits sum.splits)
qed

lemma repo_List_row:
  assumes "\<And>n. row r n = row r' n" "distinct (map fst (rp_sandboxes r))" "distinct (map fst (rp_sandboxes r'))"
  shows "repo_List text_of readable r = repo_List text_of readable r'"
proof -
  let ?f = "\<lambda>r. filter (\<lambda>n. row r n \<noteq> None) (sort (map fst (rp_sandboxes r)))"
  have eq: "row r = row r'" using assms(1) by blast
  have "set (?f r) = set (?f r')" using row_key [of r] row_key [of r'] unfolding eq by auto
  then have f: "?f r = ?f r'"
    using assms(2,3) by (intro sorted_distinct_set_unique) (auto intro: sorted_wrt_filter)
  have "list_loop text_of r (sort (map fst (rp_sandboxes r))) [] None = list_loop text_of r (?f r) [] None"
    by (simp only: list_loop_filter)
  also have "\<dots> = list_loop text_of r' (?f r) [] None"
    by (rule list_loop_row [OF eq])
  also have "\<dots> = list_loop text_of r' (sort (map fst (rp_sandboxes r'))) [] None" unfolding f by (simp only: list_loop_filter)
  finally show ?thesis by (simp add: repo_List_def)
qed

interpretation repo_keys: stepping "\<lambda>r. r = empty_repo" "repo_step synced fo" "\<lambda>r. distinct (map fst (rp_sandboxes r))"
  for synced fo
proof unfold_locales
  fix r r' assume keys: "distinct (map fst (rp_sandboxes r))" and "repo_step synced fo r r'"
  from this(2) show "distinct (map fst (rp_sandboxes r'))"
  proof cases
    case (create env sb)
    obtain q res where c: "repo_Create fo env sb r = (q, res)" by force
    then have "distinct (map fst (rp_sandboxes q))"
      by (cases rule: repo_Create_cases) (use keys undo_create_Get(4) created_Get(3) in auto)
    then show ?thesis using create c by simp
  next
    case (update fault i mutate)
    obtain q e where c: "repo_Update fault i mutate r = (q, e)" by force
    then have "distinct (map fst (rp_sandboxes q))"
      by (cases rule: repo_Update_cases) (use keys repo_write_distinct in auto)
    then show ?thesis using update c by simp
  next
    case (delete env i)
    obtain q e where c: "repo_Delete fo env i r = (q, e)" by force
    then have "distinct (map fst (rp_sandboxes q))" by (cases rule: repo_Delete_cases) (use keys in auto)
    then show ?thesis using delete c by simp
  next
    case (sweep removable readable durable)
    then show ?thesis using keys SweepCheckpointTmp_keeps [of removable readable durable r] by (metis repo.select_convs(1) repo.surjective repo.update_convs(3))
  qed
qed (simp add: empty_repo_def)

lemma word64_moves: "g + 1 \<noteq> (g :: 64 word)" "g + 1 + 1 \<noteq> (g :: 64 word)"
  by (simp_all add: add.assoc)

lemma rp_gen_moves:
  assumes reach: "(repo_step synced fo)\<^sup>*\<^sup>* empty_repo r" and step: "repo_step synced fo r r'"
  shows "repo_List text_of readable r' = repo_List text_of readable r \<or> rp_gen r' \<noteq> rp_gen r"
proof -
  have keys: "distinct (map fst (rp_sandboxes r))" by (rule repo_keys.reach_inv [OF refl reach])
  have keys': "distinct (map fst (rp_sandboxes r'))" by (rule repo_keys.step_inv [OF keys step])
  have same: ?thesis if "\<And>j. repo_Get j r' = repo_Get j r"
      "\<And>j. (map_of (rp_sandboxes r') j = Some Stray) = (map_of (rp_sandboxes r) j = Some Stray)"
    using repo_List_row [OF _ keys' keys, of text_of readable] that by (simp add: row_def)
  from step show ?thesis
  proof cases
    case (create env sb)
    obtain res where c: "repo_Create fo env sb r = (r', res)" using create by (metis prod.collapse)
    then show ?thesis
    proof (cases rule: repo_Create_cases)
      case early
      then show ?thesis by (intro same) auto
    next
      case (undone r1 r2 i e ns)
      have "rp_gen r' = rp_gen r + 1 + 1"
        using repo_write_keeps [OF undone(2)] claimID_keeps [OF undone(1)] by (simp add: undone(4) undo_create_def)
      then show ?thesis using word64_moves by simp
    next
      case (created r1 r2 i ns)
      have "rp_gen r' = rp_gen r + 1"
        using repo_write_keeps [OF created(2)] claimID_keeps [OF created(1)] by (simp add: created(5))
      then show ?thesis using word64_moves by simp
    qed
  next
    case (update fault i mutate)
    obtain e where c: "repo_Update fault i mutate r = (r', e)" using update by (metis prod.collapse)
    then show ?thesis
    proof (cases rule: repo_Update_cases)
      case (written sb sb')
      then show ?thesis using repo_write_keeps [OF written(6)] word64_moves by simp
    qed simp
  next
    case (delete env i)
    obtain e where c: "repo_Delete fo env i r = (r', e)" using delete by (metis prod.collapse)
    then show ?thesis by (cases rule: repo_Delete_cases) (use word64_moves in auto)
  next
    case (sweep removable wanted durable)
    have "rp_sandboxes r' = rp_sandboxes r"
      using sweep SweepCheckpointTmp_keeps [of removable wanted durable r]
      by (metis repo.select_convs(1) repo.surjective repo.update_convs(3))
    then show ?thesis by (intro same repo_Get_eq) auto
  qed
qed

text \<open>C13: the generation never misses a change. Whatever verb runs and whatever call of it fails, either every
  listing of the records answers as before or the counter has moved, so a reader that caches by the
  counter never serves a record that is gone or a secret that was revoked.\<close>

theorem Generation_moves:
  assumes "(repo_step synced fo)\<^sup>*\<^sup>* empty_repo r" and "repo_step synced fo r r'"
  shows "repo_List text_of readable r' = repo_List text_of readable r \<or> Generation r' \<noteq> Generation r"
  unfolding Generation_def using assms by (rule rp_gen_moves)

definition example_repo :: repo where
  "example_repo = fst (repo_Create (\<lambda>n. n) example_env example_new empty_repo)"

lemma example_reach: "(repo_step True (\<lambda>n. n))\<^sup>*\<^sup>* empty_repo example_repo"
  unfolding example_repo_def by (rule r_into_rtranclp, rule repo_step.create) (simp add: example_env_def)

definition example_delete :: delete_env where
  "example_delete = \<lparr>de_name = None, de_step = None, de_suffix = ''X'', de_trash = (\<lambda>k. if k = 0 then TrashNotEmpty else TrashGone)\<rparr>"

theorem repo_Update_atomic_witness:
  "\<exists>r' e. repo_Update (Some FsyncDir) ''amber-badger-0203'' (\<lambda>sb. Inr (sb\<lparr>sb_State := StateRunning\<rparr>)) example_repo = (r', e)
     \<and> e \<noteq> None \<and> r' \<noteq> example_repo \<and> is_ok (repo_Get ''amber-badger-0203'' r')"
proof -
  let ?u = "repo_Update (Some FsyncDir) ''amber-badger-0203'' (\<lambda>sb. Inr (sb\<lparr>sb_State := StateRunning\<rparr>)) example_repo"
  have moved: "rp_gen (fst ?u) \<noteq> rp_gen example_repo" by code_simp
  have err: "snd ?u \<noteq> None" by code_simp
  have u: "?u = (fst ?u, snd ?u)" by simp
  have "is_ok (repo_Get ''amber-badger-0203'' (fst ?u))"
    using repo_Update_atomic [OF u] moved by (auto simp: is_ok_iff)
  then show ?thesis using u moved err by metis
qed

theorem repo_Delete_gone_witness:
  "\<exists>r'. repo_Delete (\<lambda>n. n) example_delete ''amber-badger-0203'' example_repo = (r', None)
     \<and> repo_Get ''amber-badger-0203'' r' = Inl RecordNotFound"
proof -
  let ?d = "repo_Delete (\<lambda>n. n) example_delete ''amber-badger-0203'' example_repo"
  have inv: "repo_inv (\<lambda>n. n) example_repo" by (rule repository.reach_inv [OF refl example_reach])
  have none: "snd ?d = None" by code_simp
  have d: "?d = (fst ?d, snd ?d)" by simp
  have "repo_Get ''amber-badger-0203'' (fst ?d) = Inl RecordNotFound" using repo_Delete_gone [OF inv d] none by simp
  then show ?thesis using none by (metis prod.collapse)
qed

theorem Generation_moves_witness:
  "Generation (fst (repo_Delete (\<lambda>n. n) example_delete ''amber-badger-0203'' example_repo)) \<noteq> Generation example_repo"
proof -
  let ?r = "fst (repo_Delete (\<lambda>n. n) example_delete ''amber-badger-0203'' example_repo)"
  have "repo_List (\<lambda>_. []) True ?r \<noteq> repo_List (\<lambda>_. []) True example_repo" by code_simp
  then show ?thesis using Generation_moves [OF example_reach repo_step.delete] by metis
qed

subsection \<open>The listing\<close>

definition rows_ok :: "repo \<Rightarrow> string list \<Rightarrow> sandbox list" where
  "rows_ok r ns = concat (map (\<lambda>n. case row r n of Some (Inr sb) \<Rightarrow> [sb] | _ \<Rightarrow> []) ns)"

definition rows_bad :: "(string \<Rightarrow> string) \<Rightarrow> repo \<Rightarrow> string list \<Rightarrow> (string \<times> string) list" where
  "rows_bad text_of r ns = concat (map (\<lambda>n. case row r n of Some (Inl _) \<Rightarrow> [(n, text_of n)] | _ \<Rightarrow> []) ns)"

definition error_rows :: "go_error option \<Rightarrow> (string \<times> string) list \<Rightarrow> bool" where
  "error_rows err us = (case err of None \<Rightarrow> us = [] | Some e \<Rightarrow> onlyUnreadable e \<and> unreadableErrors e = us)"

lemma error_rows_join: "error_rows err us \<Longrightarrow> error_rows (join_error err (UnreadableError n t)) (us @ [(n, t)])"
  by (auto simp: error_rows_def join_error_def split: option.splits)

lemma list_loop_result:
  "error_rows err us \<Longrightarrow> fst (list_loop text_of r ns sbs err) = sbs @ rows_ok r ns
     \<and> error_rows (snd (list_loop text_of r ns sbs err)) (us @ rows_bad text_of r ns)"
proof (induction ns arbitrary: sbs err us)
  case (Cons n ns)
  show ?case
    using Cons.IH [OF Cons.prems, of sbs] Cons.IH [OF Cons.prems, of "sbs @ _"]
      Cons.IH [OF error_rows_join [OF Cons.prems, of n "text_of n"], of sbs]
    by (auto simp: list_loop_Cons_row rows_ok_def rows_bad_def simp del: list_loop.simps(2) split: option.splits sum.splits)
qed (simp add: rows_ok_def rows_bad_def)

lemma rows_ok_set: "set (rows_ok r ns) = {sb. \<exists>n \<in> set ns. row r n = Some (Inr sb)}"
  by (auto simp: rows_ok_def split: option.splits sum.splits)

lemma row_Inr: "row r n = Some (Inr sb) \<longleftrightarrow> repo_Get n r = Inr sb"
  using repo_Get_valid [of n r sb] repo_Get_dir [of n r sb] by (auto simp: row_def split: if_splits sum.splits)

lemma rows_ok_distinct: "records_ok r \<Longrightarrow> distinct ns \<Longrightarrow> distinct (map sb_ID (rows_ok r ns))"
proof (induction ns)
  case (Cons n ns)
  have ids: "sb_ID sb \<in> set ns" if "sb \<in> set (rows_ok r ns)" for sb
    using that Cons.prems(1) by (auto simp: rows_ok_set row_Inr records_ok_def)
  have n: "sb_ID sb = n" if "row r n = Some (Inr sb)" for sb using that Cons.prems(1) by (simp add: row_Inr records_ok_def)
  have "rows_ok r (n # ns) = (case row r n of Some (Inr sb) \<Rightarrow> [sb] | _ \<Rightarrow> []) @ rows_ok r ns" by (simp add: rows_ok_def)
  then show ?case using Cons ids n by (auto split: option.splits sum.splits)
qed (simp add: rows_ok_def)

text \<open>C19: one bad record hides no other, and a listing that failed hides nothing. A listing of the directory
  returns every record that reads, once each and in the order of the ids, and names exactly the records
  that do not read; only when the directory itself cannot be read does the caller get an error instead.\<close>

theorem ListReadable_complete:
  assumes "records_ok r"
  shows "(\<exists>sbs. snd (ListReadable (repo_List text_of True r) ulog) = Inr sbs
      \<and> set sbs = {sb. \<exists>i. repo_Get i r = Inr sb} \<and> sorted (map sb_ID sbs) \<and> distinct (map sb_ID sbs))
    \<and> set (UnreadableIDs (snd (repo_List text_of True r))) = {i. row r i = Some (Inl ())}
    \<and> \<not> is_ok (snd (ListReadable (repo_List text_of False r) ulog))"
proof -
  let ?ns = "sort (map fst (rp_sandboxes r))"
  obtain sbs err where l: "list_loop text_of r ?ns [] None = (sbs, err)" by force
  have res: "sbs = rows_ok r ?ns" "error_rows err (rows_bad text_of r ?ns)"
    using list_loop_result [of None "[]" text_of r ?ns "[]"] l by (auto simp: error_rows_def)
  have key: "n \<in> set ?ns" if "row r n \<noteq> None" for n using row_key [OF that] by simp
  have list: "repo_List text_of True r = (sort_key sb_ID sbs, err)" by (simp add: repo_List_def l)
  have "snd (ListReadable (repo_List text_of True r) ulog) = Inr (sort_key sb_ID sbs)"
    using res(2) by (auto simp: list ListReadable_def error_rows_def split: option.splits)
  moreover have "set sbs = {sb. \<exists>i. repo_Get i r = Inr sb}"
  proof -
    have "\<exists>n \<in> set ?ns. repo_Get n r = Inr sb" if "repo_Get n r = Inr sb" for n sb
      by (rule bexI [of _ n]) (use key [of n] row_Inr [of r n sb] that in auto)
    then show ?thesis unfolding res(1) rows_ok_set row_Inr by blast
  qed
  moreover have "distinct (map sb_ID (sort_key sb_ID sbs))"
  proof -
    have "distinct (map sb_ID sbs)" using rows_ok_distinct [OF assms, of ?ns] assms by (simp add: res(1) records_ok_def)
    then show ?thesis by (simp add: distinct_map)
  qed
  moreover have "set (UnreadableIDs err) = {i. row r i = Some (Inl ())}"
  proof -
    have "UnreadableIDs err = map fst (rows_bad text_of r ?ns)"
      using res(2) by (auto simp: UnreadableIDs_def error_rows_def split: option.splits)
    moreover have "set (map fst (rows_bad text_of r ?ns)) = {n \<in> set ?ns. row r n = Some (Inl ())}"
      by (force simp: rows_bad_def split: option.splits sum.splits)
    ultimately show ?thesis using key by auto
  qed
  moreover have "\<not> is_ok (snd (ListReadable (repo_List text_of False r) ulog))"
    by (simp add: ListReadable_def repo_List_def)
  ultimately show ?thesis by (simp add: list)
qed

theorem ListReadable_complete_witness:
  "\<exists>sbs. snd (ListReadable (repo_List (\<lambda>_. []) True example_repo) None) = Inr sbs \<and> map sb_ID sbs = [''amber-badger-0203'']"
proof -
  have "records_ok example_repo" using repository.reach_inv [OF refl example_reach] by (simp add: repo_inv_def)
  from ListReadable_complete [OF this, of "\<lambda>_. []" None]
  obtain sbs where sbs: "snd (ListReadable (repo_List (\<lambda>_. []) True example_repo) None) = Inr sbs" by (elim conjE exE)
  moreover have "map sb_ID (projr (snd (ListReadable (repo_List (\<lambda>_. []) True example_repo) None))) = [''amber-badger-0203'']"
    by code_simp
  ultimately show ?thesis by simp
qed

subsection \<open>The sweep\<close>

definition orphan :: "repo \<Rightarrow> string \<Rightarrow> bool" where
  "orphan r n = (HasSuffix n ''.tmp'' \<and> \<not> fst (recordedTmp (TrimSuffix n ''.tmp'') r))"

lemma sweep_loop_result:
  "sweep_loop removable r ns cps swept said = (cps', swept', said', e) \<Longrightarrow>
     set cps' \<subseteq> set cps \<and> set cps - set cps' \<subseteq> {n. orphan r n}
   \<and> (e = None \<longrightarrow> (\<forall>n \<in> set ns. orphan r n \<longrightarrow> n \<notin> set cps'))"
proof (induction ns arbitrary: cps swept said)
  case (Cons n ns)
  obtain keep line where k: "recordedTmp (TrimSuffix n ''.tmp'') r = (keep, line)" by force
  let ?said = "said @ (if line \<noteq> [] then [line] else [])"
  show ?case
  proof (cases "orphan r n")
    case True
    then have "sweep_loop removable r (n # ns) cps swept said =
        (if removable n then sweep_loop removable r ns (removeAll n cps) (Suc swept) ?said
         else (cps, swept, ?said, Some (SweepFailed n)))"
      using k by (simp add: orphan_def Let_def)
    then show ?thesis
      using Cons.prems Cons.IH [of "removeAll n cps" "Suc swept" ?said] True by (auto split: if_splits)
  next
    case False
    then have "sweep_loop removable r (n # ns) cps swept said =
        sweep_loop removable r ns cps swept (if HasSuffix n ''.tmp'' then ?said else said)"
      using k by (simp add: orphan_def Let_def)
    then have "sweep_loop removable r ns cps swept (if HasSuffix n ''.tmp'' then ?said else said) = (cps', swept', said', e)"
      using Cons.prems by simp
    from Cons.IH [OF this] show ?thesis using False by simp
  qed
qed auto

text \<open>C24: the sweep at the start of the daemon takes staging directories and nothing else. It never removes a
  checkpoint, nor the staging directory of a sandbox whose record exists or does not read; and one that
  returns no error leaves no staging directory that no record reaches.\<close>

theorem SweepCheckpointTmp_exact:
  assumes "SweepCheckpointTmp removable readable synced r = (r', said, e)"
  shows "set (rp_checkpoints r') \<subseteq> set (rp_checkpoints r)
    \<and> (\<forall>n \<in> set (rp_checkpoints r) - set (rp_checkpoints r'). \<exists>i. n = i @ ''.tmp''
         \<and> (is_ok (ValidID i) \<longrightarrow> repo_Get i r = Inl RecordNotFound))
    \<and> (e = None \<longrightarrow> (\<forall>i. i @ ''.tmp'' \<in> set (rp_checkpoints r') \<longrightarrow>
         is_ok (ValidID i) \<and> repo_Get i r \<noteq> Inl RecordNotFound))"
proof -
  obtain cps swept ns er where l:
    "sweep_loop removable r (sort (rp_checkpoints r)) (rp_checkpoints r) 0 [] = (cps, swept, ns, er)"
    using prod_cases4 by blast
  note res = sweep_loop_result [OF l]
  have o: "\<exists>i. n = i @ ''.tmp'' \<and> (is_ok (ValidID i) \<longrightarrow> repo_Get i r = Inl RecordNotFound)" if "orphan r n" for n
    using that by (auto simp: orphan_def HasSuffix_iff TrimSuffix_def recordedTmp_def split: if_splits sum.splits)
  have t: "orphan r (i @ ''.tmp'') \<longleftrightarrow> \<not> (is_ok (ValidID i) \<and> repo_Get i r \<noteq> Inl RecordNotFound)" for i
    by (auto simp: orphan_def HasSuffix_def TrimSuffix_def recordedTmp_def split: sum.splits)
  have "r' = r \<and> e \<noteq> None \<or> rp_checkpoints r' = cps \<and> (e = None \<longrightarrow> er = None)"
    using assms l by (auto simp: SweepCheckpointTmp_def split: if_splits option.splits)
  then show ?thesis
  proof (elim disjE conjE)
    assume cps: "rp_checkpoints r' = cps" "e = None \<longrightarrow> er = None"
    have "is_ok (ValidID i) \<and> repo_Get i r \<noteq> Inl RecordNotFound"
      if "e = None" "i @ ''.tmp'' \<in> set (rp_checkpoints r')" for i
    proof -
      have "\<not> orphan r (i @ ''.tmp'')" using res cps that by auto
      then show ?thesis using t by blast
    qed
    then show ?thesis using res o cps by auto
  qed auto
qed

theorem SweepCheckpointTmp_exact_witness:
  "set (rp_checkpoints (fst (SweepCheckpointTmp (\<lambda>_. True) True True (example_repo\<lparr>rp_checkpoints := [''gone.tmp'']\<rparr>))))
   \<subseteq> {''gone.tmp''}"
proof -
  let ?s = "SweepCheckpointTmp (\<lambda>_. True) True True (example_repo\<lparr>rp_checkpoints := [''gone.tmp'']\<rparr>)"
  have "?s = (fst ?s, fst (snd ?s), snd (snd ?s))" by simp
  from SweepCheckpointTmp_exact [OF this] show ?thesis by simp
qed

subsection \<open>A name that leaks\<close>

lemma claimIn_error: "claimIn n k draws faults d = (d', Inl e) \<Longrightarrow> e \<noteq> NameFailed s"
  by (induction n arbitrary: k) (auto simp: Let_def split: option.splits if_splits)

lemma claimID_error: "claimID draws faults r = (r1, Inl e) \<Longrightarrow> e \<noteq> NameFailed s"
  by (rule claimIn_error [OF claimID_claimIn])

lemma repo_write_error: "repo_write fault sb r = (r', Some e) \<Longrightarrow> e \<noteq> NameFailed s"
  by (auto simp: repo_write_def write_record_def split: prod.splits option.splits entry.splits)

lemma repo_Create_unsynced:
  assumes "repo_Create fo env sb r = (r', Inl (NameFailed NameSync))"
  obtains r1 r2 i ns where "claimID (cr_draws env) (cr_claim env) r = (r1, Inr i)"
    "repo_write (cr_write env) (sb\<lparr>sb_ID := i\<rparr>) r1 = (r2, None)"
    "names_claim fo (cr_name env) sandboxesDir ''sandbox'' (sb_Name sb) i (rp_names r2) = (ns, Some (NameFailed NameSync))"
    "r' = undo_create (cr_cleanup env) i (r2\<lparr>rp_names := ns\<rparr>)"
proof -
  obtain r1 c where cl: "claimID (cr_draws env) (cr_claim env) r = (r1, c)" by force
  then obtain i where c: "c = Inr i"
    using assms claimID_error [of "cr_draws env" "cr_claim env" r r1] by (cases c) (auto simp: repo_Create_def split: if_splits)
  have adm: "run_admit (cr_admit env) i = None"
    using assms cl c by (cases "run_admit (cr_admit env) i") (auto simp: repo_Create_def split: if_splits)
  obtain r2 e where w: "repo_write (cr_write env) (sb\<lparr>sb_ID := i\<rparr>) r1 = (r2, e)" by force
  have e: "e = None"
    using assms cl c adm w repo_write_error [of "cr_write env" "sb\<lparr>sb_ID := i\<rparr>" r1 r2]
    by (cases e) (auto simp: repo_Create_def split: if_splits)
  obtain ns e' where n: "names_claim fo (cr_name env) sandboxesDir ''sandbox'' (sb_Name sb) i (rp_names r2) = (ns, e')"
    by force
  show ?thesis
    by (rule that [OF cl [unfolded c] w [unfolded e], of ns])
      (use assms cl c adm w e n in \<open>auto simp: repo_Create_def split: if_splits prod.splits option.splits\<close>)
qed

text \<open>C26: a create whose sync of the names directory fails removes the record and keeps the link. The name
  then leads to an id that no record holds, and every later create under that name is refused.\<close>

theorem create_sync_failure_leaks_name:
  assumes c: "repo_Create fo env sb r = (r', Inl (NameFailed NameSync))" and rm: "cr_cleanup env = Removed"
  shows "\<exists>i. (sb_Name sb, Link (link_target sandboxesDir i)) \<in> set (rp_names r') \<and> repo_Get i r' = Inl RecordNotFound
    \<and> (\<forall>env' sb' r2 sb2. sb_Name sb' = sb_Name sb \<longrightarrow> repo_Create fo env' sb' r' \<noteq> (r2, Inr sb2))"
proof -
  obtain r1 r2 i ns where u: "claimID (cr_draws env) (cr_claim env) r = (r1, Inr i)"
    "repo_write (cr_write env) (sb\<lparr>sb_ID := i\<rparr>) r1 = (r2, None)"
    "names_claim fo (cr_name env) sandboxesDir ''sandbox'' (sb_Name sb) i (rp_names r2) = (ns, Some (NameFailed NameSync))"
    "r' = undo_create (cr_cleanup env) i (r2\<lparr>rp_names := ns\<rparr>)"
    using c by (rule repo_Create_unsynced)
  have m: "ns = rp_names r2 @ [(sb_Name sb, Link (link_target sandboxesDir i))]" "sb_Name sb \<noteq> []"
    using u(3) by (auto simp: names_claim_def Let_def split: if_splits sum.splits)
  then have link: "(sb_Name sb, Link (link_target sandboxesDir i)) \<in> set (rp_names r')"
    by (simp add: u(4) undo_create_def)
  have gone: "repo_Get i r' = Inl RecordNotFound"
    using undo_create_Get(3) [OF u(1,2) rm] u(4) rm by simp
  have "repo_Create fo env' sb' r' \<noteq> (r3, Inr sb2)" if "sb_Name sb' = sb_Name sb" for env' sb' r3 sb2
  proof
    assume "repo_Create fo env' sb' r' = (r3, Inr sb2)"
    then show False
    proof (cases rule: repo_Create_cases)
      case (created q1 q2 j ns')
      then show False using names_claim_ok [OF created(4)] that m(2) link by force
    qed auto
  qed
  then show ?thesis using link gone by blast
qed

theorem create_sync_failure_leaks_name_witness:
  "\<exists>i. (''web'', Link (link_target sandboxesDir i))
     \<in> set (rp_names (fst (repo_Create (\<lambda>n. n) (example_env\<lparr>cr_name := Some NameSync\<rparr>) example_new empty_repo)))"
proof -
  let ?c = "repo_Create (\<lambda>n. n) (example_env\<lparr>cr_name := Some NameSync\<rparr>) example_new empty_repo"
  have "snd ?c = Inl (NameFailed NameSync)" by code_simp
  then have c: "?c = (fst ?c, Inl (NameFailed NameSync))" by (simp add: prod_eq_iff)
  have n: "sb_Name example_new = ''web''" by (simp add: example_new_def)
  have "cr_cleanup (example_env\<lparr>cr_name := Some NameSync\<rparr>) = Removed" by (simp add: example_env_def)
  from create_sync_failure_leaks_name [OF c this] show ?thesis unfolding n by blast
qed

end
