(* ===== verification/Snapshots.thy ===== *)
theory Snapshots
  imports Repo
begin

text \<open>
  \<open>services/sandboxstate/snapshots.go\<close>: the repository of snapshots, beside the one of sandboxes and
  over the same directories of records and index of names. A record is written once. A snapshot's
  directory holds the record and the directory \<open>files\<close> a provider filled; what is in the latter is what
  a walk of it returns, an inode and a count of blocks per entry.
\<close>

record snaps =
  sp_snapshots :: "snapshot records"
  sp_names :: names_dir

definition empty_snaps :: snaps where
  "empty_snaps = \<lparr>sp_snapshots = [], sp_names = []\<rparr>"

definition snapshotsDir :: string where
  "snapshotsDir = ''snapshots''"

definition snapshotFile :: string where
  "snapshotFile = ''snapshot.json''"

definition filesDir :: string where
  "filesDir = ''files''"

definition ValidSnapshotName :: "string \<Rightarrow> ref_error + unit" where
  "ValidSnapshotName name = ref_ValidName name"

definition ValidSnapshotID :: "string \<Rightarrow> ref_error + unit" where
  "ValidSnapshotID i = plainComponent i"

subsection \<open>What a tree holds on the host\<close>

text \<open>\<open>allocated\<close>: a walk that fails is \<^term>\<open>None\<close>; an inode seen before counts for nothing.\<close>

fun allocated_loop :: "nat list \<Rightarrow> int \<Rightarrow> (nat \<times> int) list \<Rightarrow> int" where
  "allocated_loop seen acc [] = acc"
| "allocated_loop seen acc ((ino, blocks) # es) =
     (if ino \<in> set seen then allocated_loop seen acc es
      else allocated_loop (ino # seen) (acc + blocks * 512) es)"

definition allocated :: "(nat \<times> int) list option \<Rightarrow> int option" where
  "allocated walk = map_option (allocated_loop [] 0) walk"

subsection \<open>Create\<close>

record snap_env =
  sc_exists :: "name_step option"
  sc_draws :: "nat \<Rightarrow> seed option"
  sc_claim :: "nat \<Rightarrow> claim_step option"
  sc_mkdir :: bool
  sc_fill :: "string option"
  sc_walk :: "(nat \<times> int) list option"
  sc_write :: "write_step option"
  sc_name :: "name_step option"
  sc_cleanup :: removal

definition abandon :: "removal \<Rightarrow> string \<Rightarrow> snaps \<Rightarrow> snaps" where
  "abandon rm i s = s\<lparr>sp_snapshots := remove_all rm snapshotFile i (sp_snapshots s)\<rparr>"

definition snap_write :: "write_step option \<Rightarrow> snapshot \<Rightarrow> snaps \<Rightarrow> snaps \<times> repo_error option" where
  "snap_write fault snap s =
     (case write_record fault snapshotFile (sn_ID snap) snap (sp_snapshots s) of
        (d, e) \<Rightarrow> (s\<lparr>sp_snapshots := d\<rparr>, e))"

definition mkdir_files :: "string \<Rightarrow> snaps \<Rightarrow> snaps" where
  "mkdir_files i s = s\<lparr>sp_snapshots := AList.update i (RecordDir [(filesDir, Directory)]) (sp_snapshots s)\<rparr>"

text \<open>The name is checked before the copy, which can take minutes.\<close>

definition snap_name_free ::
  "(string \<Rightarrow> string) \<Rightarrow> name_step option \<Rightarrow> string \<Rightarrow> snaps \<Rightarrow> repo_error option" where
  "snap_name_free fo fault name s =
     (if name = [] then None
      else case ValidSnapshotName name of
        Inl e \<Rightarrow> Some (RefRefused e)
      | Inr _ \<Rightarrow>
          (case names_exists fault name (sp_names s) of
             Inl e \<Rightarrow> Some e
           | Inr True \<Rightarrow> Some (NameTaken name (names_holder fo ''snapshot'' name (sp_names s)))
           | Inr False \<Rightarrow> None))"

definition snap_record ::
  "(string \<Rightarrow> string) \<Rightarrow> snap_env \<Rightarrow> snapshot \<Rightarrow> string \<Rightarrow> snaps \<Rightarrow> snaps \<times> (repo_error + snapshot)" where
  "snap_record fo env snap i s =
     (if \<not> sc_mkdir env then (abandon (sc_cleanup env) i s, Inl SnapshotFailed)
      else let s1 = mkdir_files i s in
      case sc_fill env of
        Some e \<Rightarrow> (abandon (sc_cleanup env) i s1, Inl (Refused e))
      | None \<Rightarrow>
          (case allocated (sc_walk env) of
             None \<Rightarrow> (abandon (sc_cleanup env) i s1, Inl SnapshotFailed)
           | Some used \<Rightarrow>
               (let snap1 = snap\<lparr>sn_ID := i, sn_Size := used\<rparr> in
                case snap_write (sc_write env) snap1 s1 of
                  (s2, Some e) \<Rightarrow> (abandon (sc_cleanup env) i s2, Inl e)
                | (s2, None) \<Rightarrow>
                    (case names_claim fo (sc_name env) snapshotsDir ''snapshot'' (sn_Name snap1) i (sp_names s2) of
                       (ns, Some e) \<Rightarrow> (abandon (sc_cleanup env) i (s2\<lparr>sp_names := ns\<rparr>), Inl e)
                     | (ns, None) \<Rightarrow> (s2\<lparr>sp_names := ns\<rparr>, Inr snap1)))))"

definition snap_Create ::
  "(string \<Rightarrow> string) \<Rightarrow> snap_env \<Rightarrow> snapshot \<Rightarrow> snaps \<Rightarrow> snaps \<times> (repo_error + snapshot)" where
  "snap_Create fo env snap s =
     (if sn_ID snap \<noteq> [] then (s, Inl IDCarried)
      else case snap_name_free fo (sc_exists env) (sn_Name snap) s of
        Some e \<Rightarrow> (s, Inl e)
      | None \<Rightarrow>
          (case claimIn idAttempts 0 (sc_draws env) (sc_claim env) (sp_snapshots s) of
             (d, Inl e) \<Rightarrow> (s\<lparr>sp_snapshots := d\<rparr>, Inl e)
           | (d, Inr i) \<Rightarrow> snap_record fo env snap i (s\<lparr>sp_snapshots := d\<rparr>)))"

subsection \<open>Read, list and delete\<close>

definition snap_Resolve :: "(string \<Rightarrow> string) \<Rightarrow> name_step option \<Rightarrow> string \<Rightarrow> snaps \<Rightarrow> repo_error + string" where
  "snap_Resolve fo fault ref s = names_resolve fo fault ref (sp_names s)"

definition snap_Get :: "string \<Rightarrow> snaps \<Rightarrow> repo_error + snapshot" where
  "snap_Get i s =
     (case ValidSnapshotID i of
        Inl e \<Rightarrow> Inl (RefRefused e)
      | Inr _ \<Rightarrow> read_record snapshotFile i (sp_snapshots s))"

text \<open>\<open>Files\<close>: the path of a snapshot's files, below the root.\<close>

definition snap_Files :: "string \<Rightarrow> string \<Rightarrow> ref_error + string" where
  "snap_Files root i =
     (case ValidSnapshotID i of
        Inl e \<Rightarrow> Inl e
      | Inr _ \<Rightarrow> Inr (root @ ''/'' @ snapshotsDir @ ''/'' @ i @ ''/'' @ filesDir))"

fun snap_loop ::
  "(string \<Rightarrow> string) \<Rightarrow> snaps \<Rightarrow> string list \<Rightarrow> snapshot list \<Rightarrow> go_error option \<Rightarrow> snapshot list \<times> go_error option" where
  "snap_loop text_of s [] acc err = (acc, err)"
| "snap_loop text_of s (n # ns) acc err =
     (if map_of (sp_snapshots s) n = Some Stray \<or> \<not> is_ok (ValidSnapshotID n) then snap_loop text_of s ns acc err
      else case snap_Get n s of
        Inl e \<Rightarrow> if e = RecordNotFound then snap_loop text_of s ns acc err
                 else snap_loop text_of s ns acc (join_error err (UnreadableError n (text_of n)))
      | Inr snap \<Rightarrow> snap_loop text_of s ns (acc @ [snap]) err)"

definition snap_List :: "(string \<Rightarrow> string) \<Rightarrow> bool \<Rightarrow> snaps \<Rightarrow> snapshot list \<times> go_error option" where
  "snap_List text_of readable s =
     (if \<not> readable then ([], Some (Wrapped (OtherError ''read'')))
      else case snap_loop text_of s (sort (map fst (sp_snapshots s))) [] None of
        (acc, err) \<Rightarrow> (sort_key sn_ID acc, err))"

text \<open>\<open>Delete\<close>: \<open>rm\<close> is how far \<open>os.RemoveAll\<close> gets, \<open>unsynced\<close> the first of the two syncs that fails.\<close>

definition snap_Delete ::
  "(string \<Rightarrow> string) \<Rightarrow> name_step option \<Rightarrow> removal \<Rightarrow> nat option \<Rightarrow> string \<Rightarrow> snaps \<Rightarrow> snaps \<times> repo_error option" where
  "snap_Delete fo fault rm unsynced i s =
     (case snap_Get i s of
        Inl e \<Rightarrow> (s, Some e)
      | Inr snap \<Rightarrow>
          (case names_drop fo fault (sn_Name snap) i (sp_names s) of
             (ns, Some e) \<Rightarrow> (s\<lparr>sp_names := ns\<rparr>, Some e)
           | (ns, None) \<Rightarrow>
               (let s1 = (s\<lparr>sp_names := ns\<rparr>)\<lparr>sp_snapshots := remove_all rm snapshotFile i (sp_snapshots s)\<rparr> in
                if rm \<noteq> Removed then (s1, Some SnapshotFailed)
                else case unsynced of
                  Some k \<Rightarrow> if k < 2 then (s1, Some (DeleteFailed (DeleteSync k))) else (s1, None)
                | None \<Rightarrow> (s1, None))))"

subsection \<open>The sweep\<close>

text \<open>\<open>stat\<close> is what \<open>Lstat\<close> says of the record of an entry: it fails with another error for the entries in
  \<open>blind\<close>.\<close>

definition has_record :: "string \<Rightarrow> snaps \<Rightarrow> bool" where
  "has_record n s = (case map_of (sp_snapshots s) n of Some (RecordDir fs) \<Rightarrow> map_of fs snapshotFile \<noteq> None | _ \<Rightarrow> False)"

fun snap_sweep_loop ::
  "(string \<Rightarrow> bool) \<Rightarrow> (string \<Rightarrow> removal) \<Rightarrow> string list \<Rightarrow> nat \<Rightarrow> snaps \<Rightarrow> snaps \<times> nat \<times> repo_error option" where
  "snap_sweep_loop blind rm [] swept s = (s, swept, None)"
| "snap_sweep_loop blind rm (n # ns) swept s =
     (if map_of (sp_snapshots s) n = Some Stray \<or> \<not> is_ok (ValidSnapshotID n) then snap_sweep_loop blind rm ns swept s
      else if blind n then (s, swept, Some RecordUnreadable)
      else if has_record n s then snap_sweep_loop blind rm ns swept s
      else let s1 = s\<lparr>sp_snapshots := remove_all (rm n) snapshotFile n (sp_snapshots s)\<rparr> in
        if rm n \<noteq> Removed then (s1, swept, Some (SweepFailed n)) else snap_sweep_loop blind rm ns (Suc swept) s1)"

definition snap_Sweep ::
  "(string \<Rightarrow> bool) \<Rightarrow> (string \<Rightarrow> removal) \<Rightarrow> bool \<Rightarrow> bool \<Rightarrow> snaps \<Rightarrow> snaps \<times> string list \<times> repo_error option" where
  "snap_Sweep blind rm readable synced s =
     (if \<not> readable then (s, [], Some DirectoryUnread)
      else case snap_sweep_loop blind rm (sort (map fst (sp_snapshots s))) 0 s of
        (s1, swept, Some e) \<Rightarrow> (s1, [], Some e)
      | (s1, swept, None) \<Rightarrow>
          if swept = 0 then (s1, [], None)
          else if \<not> synced then (s1, [], Some (DeleteFailed (DeleteSync 1)))
          else (s1, [''swept '' @ itoa_nat swept], None))"

subsection \<open>Lemmas\<close>

text \<open>A hard link counts once: the sum over the inodes of the tree.\<close>

lemma allocated_loop_sum:
  assumes "\<And>i b. (i, b) \<in> set es \<Longrightarrow> b = blocks i"
  shows "allocated_loop seen acc es = acc + 512 * (\<Sum>i \<in> fst ` set es - set seen. blocks i)"
  using assms
proof (induction es arbitrary: seen acc)
  case (Cons e es)
  obtain i b where e: "e = (i, b)" by force
  have b: "b = blocks i" using Cons.prems [of i b] e by simp
  have IH: "allocated_loop s a es = a + 512 * (\<Sum>i \<in> fst ` set es - set s. blocks i)" for s a
    by (rule Cons.IH) (use Cons.prems in auto)
  have fin: "finite (fst ` set es - insert i (set seen))" by simp
  show ?case
  proof (cases "i \<in> set seen")
    case True
    then have "fst ` set (e # es) - set seen = fst ` set es - set seen" by (auto simp: e)
    then show ?thesis using True IH by (simp add: e)
  next
    case False
    have "fst ` set (e # es) - set seen = insert i (fst ` set es - insert i (set seen))" using False by (auto simp: e)
    then have "(\<Sum>i \<in> fst ` set (e # es) - set seen. blocks i) = blocks i + (\<Sum>i \<in> fst ` set es - insert i (set seen). blocks i)"
      using sum.insert [OF fin, of i blocks] by simp
    then show ?thesis using False IH [of "i # seen"] by (simp add: e b algebra_simps)
  qed
qed simp

lemma snap_Get_read: "is_ok (ValidID i) \<Longrightarrow> snap_Get i s = read_record snapshotFile i (sp_snapshots s)"
  by (auto simp: snap_Get_def ValidSnapshotID_def ValidID_def is_ok_iff)

lemma snap_Get_cong:
  "(is_ok (ValidID i) \<Longrightarrow> read_record snapshotFile i (sp_snapshots s) = read_record snapshotFile i (sp_snapshots s'))
   \<Longrightarrow> snap_Get i s = snap_Get i s'"
  by (auto simp: snap_Get_def ValidSnapshotID_def ValidID_def split: sum.splits)

lemma snap_Get_names [simp]: "snap_Get i (s\<lparr>sp_names := ns\<rparr>) = snap_Get i s"
  by (rule snap_Get_cong) simp

lemma mkdir_files_Get:
  "map_of (sp_snapshots s) i = Some (RecordDir []) \<Longrightarrow> snap_Get j (mkdir_files i s) = snap_Get j s"
  by (rule snap_Get_cong) (auto simp: mkdir_files_def read_record_def update_conv' snapshotFile_def filesDir_def)

lemma abandon_Get:
  assumes "is_ok (ValidID i)"
  shows "j \<noteq> i \<Longrightarrow> snap_Get j (abandon rm i s) = snap_Get j s"
    and "snap_Get i (abandon Removed i s) = Inl RecordNotFound"
    and "sp_names (abandon rm i s) = sp_names s"
proof -
  show "j \<noteq> i \<Longrightarrow> snap_Get j (abandon rm i s) = snap_Get j s"
    by (rule snap_Get_cong) (simp add: abandon_def read_remove_other)
  show "snap_Get i (abandon Removed i s) = Inl RecordNotFound"
    using read_remove_self(2) by (simp add: snap_Get_read assms abandon_def)
qed (simp add: abandon_def)

lemma snap_write_record:
  "snap_write fault snap s = (s', e) \<Longrightarrow>
     write_record fault snapshotFile (sn_ID snap) snap (sp_snapshots s) = (sp_snapshots s', e) \<and> sp_names s' = sp_names s"
  by (auto simp: snap_write_def split: prod.splits)

text \<open>How the part of a create past the claim of the id ends.\<close>

lemma snap_record_cases:
  assumes rec: "snap_record fo env snap i s = (s', res)" and dir: "map_of (sp_snapshots s) i = Some (RecordDir [])"
    and v: "is_ok (ValidID i)"
  obtains (undone) q where "s' = abandon (sc_cleanup env) i q" "\<not> is_ok res" "\<forall>j. j \<noteq> i \<longrightarrow> snap_Get j q = snap_Get j s"
      "sp_names q = sp_names s \<or> sc_name env = Some NameSync \<and> sp_names q = sp_names s @ [(sn_Name snap, Link (link_target snapshotsDir i))]"
  | (taken) ns where "res = Inr (snap\<lparr>sn_ID := i, sn_Size := the (allocated (sc_walk env))\<rparr>)" "sp_names s' = ns"
      "snap_Get i s' = res" "\<forall>j. j \<noteq> i \<longrightarrow> snap_Get j s' = snap_Get j s"
      "names_claim fo (sc_name env) snapshotsDir ''snapshot'' (sn_Name snap) i (sp_names s) = (ns, None)"
proof (cases "sc_mkdir env \<and> sc_fill env = None \<and> allocated (sc_walk env) \<noteq> None")
  case False
  let ?q = "if sc_mkdir env then mkdir_files i s else s"
  show ?thesis
    by (rule undone [of ?q])
      (use rec False mkdir_files_Get [OF dir] in \<open>auto simp: snap_record_def mkdir_files_def Let_def split: if_splits option.splits\<close>)
next
  case True
  then obtain used where used: "allocated (sc_walk env) = Some used" by auto
  let ?s1 = "mkdir_files i s" and ?snap = "snap\<lparr>sn_ID := i, sn_Size := used\<rparr>"
  obtain s2 e where w: "snap_write (sc_write env) ?snap ?s1 = (s2, e)" by force
  note wr = snap_write_record [OF w]
  have names2: "sp_names s2 = sp_names s" using wr by (simp add: mkdir_files_def)
  have other2: "snap_Get j s2 = snap_Get j s" if "j \<noteq> i" for j
    using mkdir_files_Get [OF dir, of j] snap_Get_cong [of j s2 ?s1] read_write_other [OF conjunct1 [OF wr], of j] that by simp
  have "map_of (sp_snapshots ?s1) i = Some (RecordDir [(filesDir, Directory)])" by (simp add: mkdir_files_def update_conv')
  then have self2: "e = None \<Longrightarrow> snap_Get i s2 = Inr ?snap"
    using read_write_self(2) [OF conjunct1 [OF wr]] v by (simp add: snap_Get_read)
  obtain ns e' where n: "names_claim fo (sc_name env) snapshotsDir ''snapshot'' (sn_Name snap) i (sp_names s) = (ns, e')" by force
  have kept: "ns = sp_names s \<or> sc_name env = Some NameSync \<and> ns = sp_names s @ [(sn_Name snap, Link (link_target snapshotsDir i))]" if "e' \<noteq> None"
    using n that by (auto simp: names_claim_def Let_def split: if_splits sum.splits)
  show ?thesis
  proof (cases e)
    case (Some x)
    then show ?thesis using rec True used w other2 names2 by (intro undone [of s2]) (auto simp: snap_record_def)
  next
    case e: None
    show ?thesis
    proof (cases e')
      case (Some x)
      then show ?thesis using rec True used w e n names2 other2 kept
        by (intro undone [of "s2\<lparr>sp_names := ns\<rparr>"]) (auto simp: snap_record_def)
    next
      case None
      then show ?thesis using rec True used w e n names2 other2 self2 by (intro taken [of ns]) (auto simp: snap_record_def)
    qed
  qed
qed

lemma snap_Create_cases:
  assumes c: "snap_Create fo env snap s = (s', res)"
  obtains (early) "\<not> is_ok res" "\<forall>j. snap_Get j s' = snap_Get j s" "sp_names s' = sp_names s"
  | (claimed) d i where "claimIn idAttempts 0 (sc_draws env) (sc_claim env) (sp_snapshots s) = (d, Inr i)"
      "snap_record fo env snap i (s\<lparr>sp_snapshots := d\<rparr>) = (s', res)"
      "\<forall>j. snap_Get j (s\<lparr>sp_snapshots := d\<rparr>) = snap_Get j s"
proof (cases "sn_ID snap \<noteq> [] \<or> snap_name_free fo (sc_exists env) (sn_Name snap) s \<noteq> None")
  case True
  then show ?thesis using c by (intro early) (auto simp: snap_Create_def split: if_splits)
next
  case False
  obtain d r where cl: "claimIn idAttempts 0 (sc_draws env) (sc_claim env) (sp_snapshots s) = (d, r)" by force
  have get: "snap_Get j (s\<lparr>sp_snapshots := d\<rparr>) = snap_Get j s" for j by (rule snap_Get_cong) (simp add: read_claimIn [OF cl])
  show ?thesis
  proof (cases r)
    case (Inl e)
    then show ?thesis using c cl False get by (intro early) (auto simp: snap_Create_def)
  next
    case (Inr i)
    then show ?thesis using c cl False get by (intro claimed [of d i]) (auto simp: snap_Create_def)
  qed
qed

text \<open>C27: a snapshot is taken whole or not at all. A create that returns one has stored exactly that record under
  a fresh id, with the size of what the copy left on the host, and linked its name to it; one that fails,
  at any call, with its cleanup done has changed no record, and no name either unless the failing call is
  the sync of the name it claimed, which leaves that one link, to an id without a record.\<close>

theorem snap_Create_atomic:
  assumes c: "snap_Create fo env snap s = (s', res)"
  shows "case res of
      Inr snap' \<Rightarrow> snap' = snap\<lparr>sn_ID := sn_ID snap', sn_Size := the (allocated (sc_walk env))\<rparr>
        \<and> snap_Get (sn_ID snap') s = Inl RecordNotFound \<and> snap_Get (sn_ID snap') s' = Inr snap'
        \<and> (\<forall>j. j \<noteq> sn_ID snap' \<longrightarrow> snap_Get j s' = snap_Get j s)
        \<and> sp_names s' = sp_names s @
            (if sn_Name snap = [] then [] else [(sn_Name snap, Link (link_target snapshotsDir (sn_ID snap')))])
    | Inl _ \<Rightarrow> sc_cleanup env = Removed \<longrightarrow>
        (\<forall>j. snap_Get j s' = snap_Get j s)
        \<and> (sp_names s' = sp_names s
           \<or> sc_name env = Some NameSync
             \<and> (\<exists>i. sp_names s' = sp_names s @ [(sn_Name snap, Link (link_target snapshotsDir i))]
                   \<and> snap_Get i s' = Inl RecordNotFound))"
  using c
proof (cases rule: snap_Create_cases)
  case early
  then show ?thesis by (cases res) auto
next
  case (claimed d i)
  note ok = claimIn_ok [OF claimed(1), of snapshotFile]
  have fresh: "snap_Get i s = Inl RecordNotFound" using ok by (simp add: snap_Get_read)
  from claimed(2) show ?thesis
  proof (rule snap_record_cases)
    fix q assume q: "s' = abandon (sc_cleanup env) i q" "\<not> is_ok res"
      "\<forall>j. j \<noteq> i \<longrightarrow> snap_Get j q = snap_Get j (s\<lparr>sp_snapshots := d\<rparr>)"
      "sp_names q = sp_names (s\<lparr>sp_snapshots := d\<rparr>) \<or> sc_name env = Some NameSync
        \<and> sp_names q = sp_names (s\<lparr>sp_snapshots := d\<rparr>) @ [(sn_Name snap, Link (link_target snapshotsDir i))]"
    have same: "snap_Get j s' = snap_Get j s" if "sc_cleanup env = Removed" for j
      using abandon_Get(1,2) [of i] ok fresh claimed(3) q(1,3) that by (cases "j = i") auto
    have "snap_Get i s' = Inl RecordNotFound" if "sc_cleanup env = Removed" using same [OF that, of i] fresh by simp
    then show ?thesis using q abandon_Get(3) ok same by (cases res) auto
  next
    fix ns assume t: "res = Inr (snap\<lparr>sn_ID := i, sn_Size := the (allocated (sc_walk env))\<rparr>)" "sp_names s' = ns"
      "snap_Get i s' = res" "\<forall>j. j \<noteq> i \<longrightarrow> snap_Get j s' = snap_Get j (s\<lparr>sp_snapshots := d\<rparr>)"
      "names_claim fo (sc_name env) snapshotsDir ''snapshot'' (sn_Name snap) i (sp_names (s\<lparr>sp_snapshots := d\<rparr>)) = (ns, None)"
    show ?thesis using t(2-4) fresh claimed(3) names_claim_ok [OF t(5)] by (auto simp: t(1))
  qed (use ok in auto)
qed

definition example_snap_env :: snap_env where
  "example_snap_env = \<lparr>sc_exists = None, sc_draws = example_draws, sc_claim = (\<lambda>_. None), sc_mkdir = True, sc_fill = None,
     sc_walk = Some [(1, 8), (2, 4), (1, 8)], sc_write = None, sc_name = None, sc_cleanup = Removed\<rparr>"

definition example_snapshot :: snapshot where
  "example_snapshot = \<lparr>sn_ID = [], sn_Name = ''base'', sn_Source = ''amber-badger-0203'', sn_SourceName = ''web'',
     sn_Image = [], sn_Digest = [], sn_Provider = [], sn_DiskMiB = 0, sn_MemoryMiB = 0, sn_Size = 0, sn_CreatedAt = 0\<rparr>"

theorem snap_Create_atomic_witness:
  "\<exists>s' snap. snap_Create (\<lambda>n. n) example_snap_env example_snapshot empty_snaps = (s', Inr snap)
     \<and> snap_Get (sn_ID snap) s' = Inr snap \<and> sn_Size snap = 6144"
proof -
  let ?c = "snap_Create (\<lambda>n. n) example_snap_env example_snapshot empty_snaps"
  have "is_ok (snd ?c)" by code_simp
  then obtain snap where "snd ?c = Inr snap" unfolding is_ok_iff by (elim exE)
  then have c: "?c = (fst ?c, Inr snap)" by (simp add: prod_eq_iff)
  have "the (allocated (sc_walk example_snap_env)) = 6144" by code_simp
  moreover from snap_Create_atomic [OF c] have
    "snap = example_snapshot\<lparr>sn_ID := sn_ID snap, sn_Size := the (allocated (sc_walk example_snap_env))\<rparr>"
    "snap_Get (sn_ID snap) (fst ?c) = Inr snap" by (simp_all only: sum.case)
  moreover from this(1) have "sn_Size snap = the (allocated (sc_walk example_snap_env))"
    by (metis snapshot.select_convs(10) snapshot.surjective snapshot.update_convs(10))
  ultimately show ?thesis by (intro exI [of _ "fst ?c"] exI [of _ snap] conjI c) simp_all
qed

definition cut :: "snaps \<Rightarrow> string \<Rightarrow> bool" where
  "cut s n = (is_ok (ValidSnapshotID n) \<and> (\<exists>fs. map_of (sp_snapshots s) n = Some (RecordDir fs)) \<and> \<not> has_record n s)"

lemma sweep_one:
  assumes "map_of (sp_snapshots s) n \<noteq> Some Stray" "\<not> has_record n s"
  shows "snap_Get j (s\<lparr>sp_snapshots := remove_all rm snapshotFile n (sp_snapshots s)\<rparr>) = snap_Get j s"
proof (rule snap_Get_cong)
  have nf: "read_record snapshotFile n (sp_snapshots s) = Inl RecordNotFound"
    using assms by (auto simp: read_record_def has_record_def split: option.splits entry.splits)
  show "read_record snapshotFile j (sp_snapshots (s\<lparr>sp_snapshots := remove_all rm snapshotFile n (sp_snapshots s)\<rparr>))
      = read_record snapshotFile j (sp_snapshots s)"
    using read_remove_other [of j n snapshotFile rm "sp_snapshots s"] read_remove_self(1) [of snapshotFile n rm "sp_snapshots s"] nf
    by (cases "j = n") auto
qed

lemma cut_removed:
  "cut (s\<lparr>sp_snapshots := remove_all Removed snapshotFile n (sp_snapshots s)\<rparr>) m \<longleftrightarrow> cut s m \<and> m \<noteq> n"
  by (auto simp: cut_def has_record_def remove_all_def delete_conv')

lemma snap_sweep_loop_result:
  "snap_sweep_loop blind rm ns k s = (s', k', e) \<Longrightarrow>
     (\<forall>j. snap_Get j s' = snap_Get j s) \<and> sp_names s' = sp_names s
   \<and> (e = None \<longrightarrow> (\<forall>n. cut s' n \<longrightarrow> cut s n \<and> n \<notin> set ns))"
proof (induction ns arbitrary: k s)
  case (Cons n ns)
  consider (skip) "map_of (sp_snapshots s) n = Some Stray \<or> \<not> is_ok (ValidSnapshotID n) \<or> (\<not> blind n \<and> has_record n s)"
    | (blind) "blind n" "map_of (sp_snapshots s) n \<noteq> Some Stray" "is_ok (ValidSnapshotID n)"
    | (take) "\<not> blind n" "map_of (sp_snapshots s) n \<noteq> Some Stray" "is_ok (ValidSnapshotID n)" "\<not> has_record n s"
    by blast
  then show ?case
  proof cases
    case skip
    then have rest: "snap_sweep_loop blind rm ns k s = (s', k', e) \<or> blind n \<and> s' = s \<and> e \<noteq> None"
      using Cons.prems by (auto split: if_splits)
    have "\<not> cut s n" using skip by (auto simp: cut_def)
    then show ?thesis using rest Cons.IH [of k s] by auto
  next
    case blind
    then show ?thesis using Cons.prems by auto
  next
    case take
    let ?s1 = "s\<lparr>sp_snapshots := remove_all (rm n) snapshotFile n (sp_snapshots s)\<rparr>"
    note one = sweep_one [OF take(2,4), of _ "rm n"]
    show ?thesis
    proof (cases "rm n = Removed")
      case True
      then have "snap_sweep_loop blind rm ns (Suc k) ?s1 = (s', k', e)" using Cons.prems take by simp
      from Cons.IH [OF this] show ?thesis using one cut_removed [of n s] True by auto
    next
      case False
      then have "s' = ?s1 \<and> e \<noteq> None" using Cons.prems take by (auto simp: Let_def)
      then show ?thesis using one by auto
    qed
  qed
qed auto

text \<open>The sweep of the snapshots loses none. Whatever fails, every read of a snapshot answers as before and
  every name stays; and a sweep that returns no error leaves no directory of a create that was cut off.\<close>

lemma snap_Sweep_exact:
  assumes "snap_Sweep blind rm readable synced s = (s', said, e)"
  shows "(\<forall>j. snap_Get j s' = snap_Get j s) \<and> sp_names s' = sp_names s \<and> (e = None \<longrightarrow> (\<forall>n. \<not> cut s' n))"
proof -
  obtain s1 k e1 where l: "snap_sweep_loop blind rm (sort (map fst (sp_snapshots s))) 0 s = (s1, k, e1)"
    using prod_cases3 by blast
  note res = snap_sweep_loop_result [OF l]
  have key: "n \<in> fst ` set (sp_snapshots s)" if "cut s n" for n
    using that by (auto simp: cut_def dest: map_of_SomeD intro: rev_image_eqI)
  have "s' = s \<and> e \<noteq> None \<or> s' = s1 \<and> (e = None \<longrightarrow> e1 = None)"
    using assms l by (auto simp: snap_Sweep_def split: if_splits option.splits)
  then show ?thesis using res key by auto
qed

end
