(* ===== verification/Slices.thy ===== *)
theory Slices
  imports Models
begin

text \<open>
  What the lifecycle and the guest supervisor use of Go's \<open>slices\<close> and of its 64-bit integers:
  \<open>IndexFunc\<close>, \<open>Delete\<close> of one element, an update in place, and the product of two \<open>int64\<close>, which
  wraps.
\<close>

subsection \<open>The slices package\<close>

fun IndexFunc :: "('a \<Rightarrow> bool) \<Rightarrow> 'a list \<Rightarrow> nat option" where
  "IndexFunc f [] = None"
| "IndexFunc f (x # xs) = (if f x then Some 0 else map_option Suc (IndexFunc f xs))"

definition delete_at :: "nat \<Rightarrow> 'a list \<Rightarrow> 'a list" where
  "delete_at i xs = take i xs @ drop (Suc i) xs"

definition update_at :: "nat \<Rightarrow> ('a \<Rightarrow> 'a) \<Rightarrow> 'a list \<Rightarrow> 'a list" where
  "update_at i f xs = (if i < length xs then xs[i := f (xs ! i)] else xs)"

lemma IndexFunc_Some:
  "IndexFunc f xs = Some i \<Longrightarrow> i < length xs \<and> f (xs ! i) \<and> (\<forall>j < i. \<not> f (xs ! j))"
proof (induction xs arbitrary: i)
  case (Cons x xs)
  show ?case
  proof (cases "f x")
    case False
    with Cons.prems obtain k where k: "IndexFunc f xs = Some k" "i = Suc k" by auto
    then show ?thesis using Cons.IH [OF k(1)] False by (auto simp: less_Suc_eq_0_disj)
  qed (use Cons.prems in auto)
qed simp

lemma IndexFunc_None: "IndexFunc f xs = None \<longleftrightarrow> (\<forall>x \<in> set xs. \<not> f x)"
  by (induction xs) auto

lemma IndexFunc_distinct:
  "distinct (map k xs) \<Longrightarrow> i < length xs \<Longrightarrow> IndexFunc (\<lambda>x. k x = k (xs ! i)) xs = Some i"
proof (induction xs arbitrary: i)
  case (Cons x xs)
  show ?case
  proof (cases i)
    case (Suc j)
    then have "k x \<noteq> k (xs ! j)" using Cons.prems by force
    then show ?thesis using Cons.IH [of j] Cons.prems Suc by simp
  qed simp
qed simp

lemma set_delete_at: "set (delete_at i xs) \<subseteq> set xs"
  unfolding delete_at_def using set_take_subset set_drop_subset by fastforce

lemma length_delete_at: "i < length xs \<Longrightarrow> length (delete_at i xs) = length xs - 1"
  unfolding delete_at_def by simp

lemma map_delete_at: "map f (delete_at i xs) = delete_at i (map f xs)"
  unfolding delete_at_def by (simp add: take_map drop_map)

lemma distinct_delete_at: "distinct xs \<Longrightarrow> distinct (delete_at i xs)"
  unfolding delete_at_def using set_take_disj_set_drop_if_distinct [of xs i "Suc i"] by simp

lemma delete_at_absent: "distinct xs \<Longrightarrow> i < length xs \<Longrightarrow> xs ! i \<notin> set (delete_at i xs)"
  unfolding delete_at_def
  by (auto simp: in_set_conv_nth nth_eq_iff_index_eq)

lemma length_update_at [simp]: "length (update_at i f xs) = length xs"
  unfolding update_at_def by simp

lemma update_at_mem:
  "y \<in> set (update_at i f xs) \<Longrightarrow> y \<in> set xs \<or> (i < length xs \<and> y = f (xs ! i))"
  unfolding update_at_def using set_update_subset_insert [of xs i "f (xs ! i)"]
  by (auto split: if_splits)

lemma nth_update_at [simp]:
  "j < length xs \<Longrightarrow> update_at i f xs ! j = (if i = j then f (xs ! j) else xs ! j)"
  unfolding update_at_def by simp

lemma map_update_at: "(\<And>x. k (f x) = k x) \<Longrightarrow> map k (update_at i f xs) = map k xs"
  unfolding update_at_def by (simp add: map_update list_update_same_conv)

lemma update_at_twice: "update_at i f (update_at i g xs) = update_at i (\<lambda>x. f (g x)) xs"
  unfolding update_at_def by simp

subsection \<open>Integers of 64 bits\<close>

definition int64 :: "int \<Rightarrow> int" where
  "int64 x = (x + 2 ^ 63) mod 2 ^ 64 - 2 ^ 63"

lemma int64_id [simp]: "- (2 ^ 63) \<le> x \<Longrightarrow> x < 2 ^ 63 \<Longrightarrow> int64 x = x"
  unfolding int64_def by simp

lemma int64_range: "- (2 ^ 63) \<le> int64 x" "int64 x < 2 ^ 63"
  unfolding int64_def by simp_all

subsection \<open>A wait that doubles up to a cap\<close>

text \<open>The reference of both backoffs of the program, the guest's and the daemon's: the first wait
  doubled once per start again, never past the cap.\<close>

definition doubled :: "int \<Rightarrow> int \<Rightarrow> nat \<Rightarrow> int" where
  "doubled cap first n = min (first * 2 ^ n) cap"

lemma doubled_0: "doubled cap first 0 = min first cap"
  unfolding doubled_def by simp

lemma doubled_Suc: "0 < first \<Longrightarrow> 0 < cap \<Longrightarrow> doubled cap first (Suc n) = min (doubled cap first n * 2) cap"
  unfolding doubled_def by (auto simp: min_def)

lemma doubled_mono: "0 \<le> first \<Longrightarrow> m \<le> n \<Longrightarrow> doubled cap first m \<le> doubled cap first n"
  unfolding doubled_def by (simp add: min.coboundedI1 mult_left_mono power_increasing min_le_iff_disj)

lemma doubled_cap: "doubled cap first n \<le> cap"
  unfolding doubled_def by simp

lemma doubled_pos: "0 < first \<Longrightarrow> 0 < cap \<Longrightarrow> 0 < doubled cap first n"
  unfolding doubled_def by simp

lemma doubled_reaches: "0 < first \<Longrightarrow> cap \<le> 2 ^ n \<Longrightarrow> doubled cap first n = cap"
  unfolding doubled_def
  by (intro min_absorb2) (smt (verit) mult_le_cancel_right1 zero_less_power)

end
