(* ===== verification/Guest.thy ===== *)
theory Guest
  imports Slices
begin

text \<open>
  \<open>cmd/shard-init\<close>, the supervisor that is PID 1 of every sandbox: the restart policies
  (\<open>restart.go\<close>), the table of named processes and its timers (\<open>process.go\<close>), and the loop that owns
  them (\<open>main.go\<close>: \<open>supervise\<close>, \<open>collect\<close>, \<open>stop\<close>).

  One goroutine owns the state, so the guest is a transition system whose events are what that
  goroutine receives: a request, a batch of dead children, a timer that came due, a stop signal. A
  timer is armed, then fired into the channel \<open>due\<close>, then received; stopping it takes it back only
  before it fires, as \<open>time.Timer.Stop\<close> does. A pointer to a process is its index in the table. The
  clock, the pid of a fork or its failure, and the answer of the memory probe are part of the event.
  The counters \<open>seq\<close> and \<open>gens\<close> are natural numbers: both count one status or one timer each and
  stay far below the 64 bits they have.
\<close>

subsection \<open>restart.go\<close>

definition defaultBackoff :: int where
  "defaultBackoff = second"

definition defaultReset :: int where
  "defaultReset = 10 * second"

definition backoffCap :: int where
  "backoffCap = RestartBackoffCap * second"

record restartPolicy =
  rpol_policy :: restart_policy
  rpol_retries :: int
  rpol_backoff :: int
  rpol_reset :: int

datatype run_error =
    PolicyUnknown restart_policy | RetriesNegative int | BackoffNotPositive int
  | NameMalformed string | NoCommand string | CredentialRefused | HomeUnread
  | GuestStopping | GuestOOM | ErrTaken string | TableFull | OutputFailed | HeldFrozen string | StartFailed string

definition parseRestart :: "restart_policy \<Rightarrow> int \<Rightarrow> int \<Rightarrow> int \<Rightarrow> run_error + restartPolicy" where
  "parseRestart pol retries backoff reset =
     (let parsed = \<lparr>rpol_policy = pol, rpol_retries = retries, rpol_backoff = backoff, rpol_reset = reset\<rparr> in
      if pol = RestartNo then Inr parsed
      else if pol \<notin> {RestartOnFailure, RestartAlways, RestartUnlessStopped} then Inl (PolicyUnknown pol)
      else if retries < 0 then Inl (RetriesNegative retries)
      else if backoff \<le> 0 then Inl (BackoffNotPositive backoff)
      else Inr parsed)"

definition limited :: "restartPolicy \<Rightarrow> bool" where
  "limited r = (rpol_policy r = RestartOnFailure \<and> 0 < rpol_retries r)"

definition applies :: "restartPolicy \<Rightarrow> exit_status \<Rightarrow> bool" where
  "applies r ex =
     (case rpol_policy r of
        RestartAlways \<Rightarrow> True
      | RestartUnlessStopped \<Rightarrow> True
      | RestartOnFailure \<Rightarrow> es_Code ex \<noteq> 0 \<or> es_Signal ex \<noteq> 0
      | _ \<Rightarrow> False)"

text \<open>\<open>for range started\<close> with its break; the doubling is of an \<open>int64\<close>.\<close>

fun wait_loop :: "nat \<Rightarrow> int \<Rightarrow> int" where
  "wait_loop 0 w = w"
| "wait_loop (Suc n) w = (if backoffCap \<le> w then w else wait_loop n (int64 (w * 2)))"

definition restart_wait :: "restartPolicy \<Rightarrow> int \<Rightarrow> int" where
  "restart_wait r started = min (wait_loop (nat started) (rpol_backoff r)) backoffCap"

definition restart_next :: "restartPolicy \<Rightarrow> exit_status \<Rightarrow> int \<Rightarrow> int \<times> process_state" where
  "restart_next r ex started =
     (if \<not> applies r ex then (0, ProcessExited)
      else if limited r \<and> rpol_retries r \<le> started then (0, ProcessGaveUp)
      else (restart_wait r started, ProcessRestarting))"

lemma backoffCap_value: "backoffCap = 60000000000"
  unfolding backoffCap_def RestartBackoffCap_def second_def by simp

lemma wait_loop_doubled:
  "0 < w \<Longrightarrow> min (wait_loop n w) backoffCap = doubled backoffCap w n"
proof (induction n arbitrary: w)
  case (Suc n)
  show ?case
  proof (cases "backoffCap \<le> w")
    case True
    have "w * 1 \<le> w * 2 ^ Suc n" using Suc.prems by (intro mult_left_mono) (simp_all add: one_le_power del: power_Suc)
    with True have "backoffCap \<le> w * 2 ^ Suc n" by linarith
    with True show ?thesis by (simp add: doubled_def del: power_Suc)
  next
    case False
    then have "w * 2 < 2 ^ 63" by (simp add: backoffCap_value)
    with Suc.prems have "int64 (w * 2) = w * 2" by (intro int64_id) auto
    with False Suc.IH [of "w * 2"] Suc.prems show ?thesis by (simp add: doubled_def mult.assoc)
  qed
qed (simp add: doubled_def)

subsection \<open>The state\<close>

record timer_due =
  td_name :: string
  td_gen :: nat
  td_kill :: bool

record spawn_spec =
  sp_argv :: "string list"
  sp_env :: "string list"
  sp_dir :: string
  sp_credential :: "(nat \<times> nat \<times> nat list) option"

record proc =
  p_name :: string
  p_spec :: spawn_spec
  p_restart :: restartPolicy
  p_pid :: int
  p_runStartedAt :: time
  p_count :: int
  p_status :: process_status
  p_seq :: nat
  p_gen :: nat
  p_timer :: "timer_due option"
  p_stopping :: bool
  p_reaped :: "nat list"

record death =
  de_pid :: int
  de_exit :: exit_status

text \<open>\<open>g_armed\<close> are the timers that run, each with its wait, and \<open>g_due\<close> the ones that fired and were
  not received. \<open>g_table\<close> is the table last handed to the reporter, \<open>g_outputs\<close> the names whose logs
  it keeps open, \<open>g_sent\<close> the signals sent to process groups, \<open>g_exits\<close> what the exec sessions were
  told, and \<open>g_closed\<close> the stop requests whose channel is closed.\<close>

record guest =
  g_procs :: "proc list"
  g_nseq :: nat
  g_gens :: nat
  g_stopping :: bool
  g_oom :: bool
  g_probed :: bool
  g_frozen :: "string option"
  g_waiters :: "int list"
  g_armed :: "(timer_due \<times> int) list"
  g_due :: "timer_due list"
  g_table :: "process_report list"
  g_outputs :: "string list"
  g_sent :: "(int \<times> int) list"
  g_exits :: "(int \<times> exit_status) list"
  g_closed :: "nat list"

definition new_guest :: "bool \<Rightarrow> guest" where
  "new_guest probed = \<lparr>g_procs = [], g_nseq = 0, g_gens = 0, g_stopping = False, g_oom = False,
     g_probed = probed, g_frozen = None, g_waiters = [], g_armed = [], g_due = [], g_table = [],
     g_outputs = [], g_sent = [], g_exits = [], g_closed = []\<rparr>"

definition SIGTERM :: int where "SIGTERM = 15"
definition SIGKILL :: int where "SIGKILL = 9"

definition frozenRetry :: int where
  "frozenRetry = 100000000"

subsection \<open>Timers, statuses and signals\<close>

definition on_proc :: "nat \<Rightarrow> (proc \<Rightarrow> proc) \<Rightarrow> guest \<Rightarrow> guest" where
  "on_proc i f g = g\<lparr>g_procs := update_at i f (g_procs g)\<rparr>"

definition proc_report :: "proc \<Rightarrow> process_report" where
  "proc_report p = \<lparr>rep_Name = p_name p, rep_Status = p_status p, rep_Seq = p_seq p\<rparr>"

definition g_report_table :: "guest \<Rightarrow> process_report list" where
  "g_report_table g = map proc_report (g_procs g)"

definition changed :: "nat \<Rightarrow> guest \<Rightarrow> guest" where
  "changed i g =
     (let g1 = g\<lparr>g_nseq := Suc (g_nseq g)\<rparr>;
          g2 = on_proc i (\<lambda>p. p\<lparr>p_seq := g_nseq g1\<rparr>) g1
      in g2\<lparr>g_table := g_report_table g2\<rparr>)"

definition set_state :: "process_state \<Rightarrow> proc \<Rightarrow> proc" where
  "set_state s p = p\<lparr>p_status := (p_status p)\<lparr>ps_State := s\<rparr>\<rparr>"

definition arm :: "nat \<Rightarrow> int \<Rightarrow> bool \<Rightarrow> guest \<Rightarrow> guest" where
  "arm i w kill g =
     (let p = g_procs g ! i; due = \<lparr>td_name = p_name p, td_gen = p_gen p, td_kill = kill\<rparr>
      in on_proc i (\<lambda>p. p\<lparr>p_timer := Some due\<rparr>) (g\<lparr>g_armed := (due, w) # g_armed g\<rparr>))"

text \<open>\<open>stopTimer\<close>: a timer that has fired is no longer armed, and stays on its way.\<close>

definition disarm :: "timer_due option \<Rightarrow> (timer_due \<times> int) list \<Rightarrow> (timer_due \<times> int) list" where
  "disarm t armed = (case t of None \<Rightarrow> armed | Some d \<Rightarrow> filter (\<lambda>(e, _). e \<noteq> d) armed)"

definition stopTimer :: "nat \<Rightarrow> guest \<Rightarrow> guest" where
  "stopTimer i g =
     (let n = Suc (g_gens g) in
      on_proc i (\<lambda>p. p\<lparr>p_timer := None, p_gen := n\<rparr>)
        (g\<lparr>g_armed := disarm (p_timer (g_procs g ! i)) (g_armed g), g_gens := n\<rparr>))"

definition release :: "nat \<Rightarrow> guest \<Rightarrow> guest" where
  "release i g =
     on_proc i (\<lambda>p. p\<lparr>p_reaped := []\<rparr>) (g\<lparr>g_closed := p_reaped (g_procs g ! i) @ g_closed g\<rparr>)"

definition signalGroup :: "int \<Rightarrow> int \<Rightarrow> guest \<Rightarrow> guest" where
  "signalGroup leader sig g = g\<lparr>g_sent := (leader, sig) # g_sent g\<rparr>"

definition killGroup :: "int \<Rightarrow> guest \<Rightarrow> guest" where
  "killGroup leader g = signalGroup leader SIGKILL g"

definition keep_outputs :: "guest \<Rightarrow> guest" where
  "keep_outputs g = g\<lparr>g_outputs := filter (\<lambda>n. n \<in> p_name ` set (g_procs g)) (g_outputs g)\<rparr>"

definition g_named :: "string \<Rightarrow> guest \<Rightarrow> nat option" where
  "g_named name g = IndexFunc (\<lambda>p. p_name p = name) (g_procs g)"

definition byPID :: "int \<Rightarrow> guest \<Rightarrow> nat option" where
  "byPID pid g = IndexFunc (\<lambda>p. p_pid p = pid) (g_procs g)"

definition p_ended :: "proc \<Rightarrow> bool" where
  "p_ended p = Ended (ps_State (p_status p))"

definition oldestEnded :: "guest \<Rightarrow> nat option" where
  "oldestEnded g = IndexFunc p_ended (g_procs g)"

definition g_running :: "guest \<Rightarrow> bool" where
  "g_running g = list_ex (\<lambda>p. p_pid p \<noteq> 0) (g_procs g)"

subsection \<open>A run\<close>

text \<open>What the world answers a start: the clock, whether the work directory and the log open, and
  the pid of the fork or why it failed.\<close>

record run_env =
  re_now :: time
  re_workdir :: bool
  re_output :: bool
  re_fork :: "string + int"

definition guest_start :: "run_env \<Rightarrow> guest \<Rightarrow> run_error + int" where
  "guest_start env g =
     (case g_frozen g of
        Some verb \<Rightarrow> Inl (HeldFrozen verb)
      | None \<Rightarrow> (case re_fork env of Inl e \<Rightarrow> Inl (StartFailed e) | Inr pid \<Rightarrow> Inr pid))"

definition new_proc :: "string \<Rightarrow> spawn_spec \<Rightarrow> restartPolicy \<Rightarrow> int \<Rightarrow> time \<Rightarrow> nat \<Rightarrow> proc" where
  "new_proc name spec restart pid at gen =
     \<lparr>p_name = name, p_spec = spec, p_restart = restart, p_pid = pid, p_runStartedAt = at, p_count = 0,
      p_status = \<lparr>ps_State = ProcessRunning, ps_Restarts = 0, ps_Exit = None, ps_StartedAt = at\<rparr>,
      p_seq = 0, p_gen = gen, p_timer = None, p_stopping = False, p_reaped = []\<rparr>"

definition admit_run :: "string \<Rightarrow> guest \<Rightarrow> run_error + unit" where
  "admit_run name g =
     (if g_stopping g then Inl GuestStopping
      else if g_oom g then Inl GuestOOM
      else case g_named name g of
        Some i \<Rightarrow> if p_ended (g_procs g ! i) then Inr () else Inl (ErrTaken name)
      | None \<Rightarrow> if MaxProcesses \<le> length (g_procs g) \<and> oldestEnded g = None then Inl TableFull else Inr ())"

definition evicted :: "string \<Rightarrow> guest \<Rightarrow> nat option" where
  "evicted name g =
     (case g_named name g of
        Some i \<Rightarrow> Some i
      | None \<Rightarrow> if MaxProcesses \<le> length (g_procs g) then oldestEnded g else None)"

definition runProcess ::
  "run_env \<Rightarrow> string \<Rightarrow> spawn_spec \<Rightarrow> restartPolicy \<Rightarrow> guest \<Rightarrow> guest \<times> run_error option" where
  "runProcess env name spec restart g =
     (case admit_run name g of
        Inl e \<Rightarrow> (g, Some e)
      | Inr _ \<Rightarrow>
          if \<not> re_output env then (g, Some OutputFailed)
          else let g1 = g\<lparr>g_outputs := List.insert name (g_outputs g)\<rparr> in
            case guest_start env g1 of
              Inl e \<Rightarrow> (keep_outputs g1, Some e)
            | Inr pid \<Rightarrow>
                (let g2 = (case evicted name g1 of
                             Some i \<Rightarrow> g1\<lparr>g_procs := delete_at i (g_procs g1)\<rparr>
                           | None \<Rightarrow> g1);
                     n = Suc (g_gens g2);
                     g3 = g2\<lparr>g_gens := n, g_procs := g_procs g2 @ [new_proc name spec restart pid (re_now env) n]\<rparr>
                 in (changed (length (g_procs g2)) (keep_outputs g3), None)))"

record run_spec =
  run_Name :: string
  run_Argv :: "string list"
  run_WorkDir :: string
  run_Restart :: restart_policy
  run_Retries :: int
  run_Backoff :: int
  run_Reset :: int

definition nonEmpty :: "'a \<Rightarrow> 'a \<Rightarrow> 'a \<Rightarrow> 'a" where
  "nonEmpty zero val fallback = (if val = zero then fallback else val)"

text \<open>\<open>runSpec\<close>; \<open>cred\<close> and \<open>home\<close> are what \<open>execCredential\<close> and \<open>withHome\<close> read of the guest's users.\<close>

definition runSpec ::
  "run_env \<Rightarrow> (nat \<times> nat \<times> nat list) option option \<Rightarrow> string list option \<Rightarrow> run_spec \<Rightarrow> guest
   \<Rightarrow> guest \<times> run_error option" where
  "runSpec env cred home spec g =
     (if \<not> ValidProcessName (run_Name spec) then (g, Some (NameMalformed (run_Name spec)))
      else if run_Argv spec = [] then (g, Some (NoCommand (run_Name spec)))
      else case cred of None \<Rightarrow> (g, Some CredentialRefused)
      | Some c \<Rightarrow>
          (case home of None \<Rightarrow> (g, Some HomeUnread)
           | Some e \<Rightarrow>
               (case parseRestart (nonEmpty RestartUnset (run_Restart spec) RestartNo) (run_Retries spec)
                       (nonEmpty 0 (run_Backoff spec) defaultBackoff) (nonEmpty 0 (run_Reset spec) defaultReset) of
                  Inl err \<Rightarrow> (g, Some err)
                | Inr restart \<Rightarrow>
                    runProcess env (run_Name spec)
                      \<lparr>sp_argv = run_Argv spec, sp_env = e, sp_dir = run_WorkDir spec, sp_credential = c\<rparr>
                      restart g)))"

subsection \<open>Exits, timers and stops\<close>

text \<open>A run that lasted the reset window starts the count over.\<close>

definition exit_count :: "time \<Rightarrow> proc \<Rightarrow> int" where
  "exit_count now p = (if rpol_reset (p_restart p) \<le> now - p_runStartedAt p then 0 else p_count p)"

definition exited :: "time \<Rightarrow> nat \<Rightarrow> int \<Rightarrow> exit_status \<Rightarrow> guest \<Rightarrow> guest" where
  "exited now i pid ex g =
     (let g1 = on_proc i (\<lambda>p. p\<lparr>p_status := (p_status p)\<lparr>ps_Exit := Some ex\<rparr>\<rparr>) (stopTimer i g) in
      release i
        (if g_stopping g1 then changed i (on_proc i (set_state ProcessStopped) g1)
         else
           let g2 = killGroup pid g1; p = g_procs g2 ! i in
           if p_stopping p
           then changed i (on_proc i (\<lambda>p. set_state ProcessKilled (p\<lparr>p_stopping := False\<rparr>)) g2)
           else
             let count = exit_count now p in
             case restart_next (p_restart p) ex count of
               (w, s) \<Rightarrow>
                 (let g3 = on_proc i (\<lambda>p. set_state s (p\<lparr>p_count := count\<rparr>)) g2
                  in changed i (if s = ProcessRestarting then arm i w False g3 else g3))))"

definition wake :: "run_env \<Rightarrow> timer_due \<Rightarrow> guest \<Rightarrow> guest" where
  "wake env due g =
     (case g_named (td_name due) g of
        None \<Rightarrow> g
      | Some i \<Rightarrow>
          if p_gen (g_procs g ! i) \<noteq> td_gen due \<or> g_stopping g \<or> g_oom g then g
          else
            let g1 = on_proc i (\<lambda>p. p\<lparr>p_timer := None\<rparr>) g; pid = p_pid (g_procs g1 ! i) in
            if td_kill due then (if pid \<noteq> 0 then killGroup pid g1 else g1)
            else if g_frozen g1 \<noteq> None then arm i frozenRetry False g1
            else
              let g2 = on_proc i (\<lambda>p. p\<lparr>p_runStartedAt := re_now env\<rparr>) g1 in
              case (if re_workdir env then guest_start env g2 else Inl (StartFailed ''workdir'')) of
                Inl e \<Rightarrow> changed i (on_proc i (set_state ProcessGaveUp) g2)
              | Inr child \<Rightarrow>
                  changed i (on_proc i (\<lambda>p. p\<lparr>p_pid := child, p_count := p_count p + 1,
                      p_status := (p_status p)\<lparr>ps_State := ProcessRunning, ps_Restarts := ps_Restarts (p_status p) + 1,
                        ps_StartedAt := p_runStartedAt p\<rparr>\<rparr>) g2))"

text \<open>\<open>stopProcess\<close>; \<open>req\<close> names the channel it returns.\<close>

definition stopProcess :: "nat \<Rightarrow> string \<Rightarrow> int \<Rightarrow> guest \<Rightarrow> guest" where
  "stopProcess req name grace g =
     (case g_named name g of
        None \<Rightarrow> g\<lparr>g_closed := req # g_closed g\<rparr>
      | Some i \<Rightarrow>
          if p_ended (g_procs g ! i) then g\<lparr>g_closed := req # g_closed g\<rparr>
          else
            let g1 = stopTimer i g; pid = p_pid (g_procs g1 ! i) in
            if pid = 0
            then let g2 = changed i (on_proc i (set_state ProcessKilled) g1)
                 in g2\<lparr>g_closed := req # g_closed g2\<rparr>
            else
              let g2 = on_proc i (\<lambda>p. p\<lparr>p_stopping := True, p_reaped := p_reaped p @ [req]\<rparr>) g1;
                  g3 = signalGroup pid (if grace \<le> 0 then SIGKILL else SIGTERM) g2
              in if 0 < grace then arm i grace True g3 else g3)"

text \<open>The loop of \<open>collect\<close> over the dead children, with whether the memory bound was hit and whether a
  process was reaped.\<close>

fun collect_loop ::
  "(nat \<Rightarrow> bool) \<Rightarrow> time \<Rightarrow> nat \<Rightarrow> death list \<Rightarrow> bool \<times> bool \<times> guest \<Rightarrow> bool \<times> bool \<times> guest" where
  "collect_loop probe now k [] s = s"
| "collect_loop probe now k (d # ds) (oom, reaped, g) =
     (let oom' = (if es_Signal (de_exit d) = SIGKILL \<and> g_probed g \<and> \<not> oom then probe k else oom) in
      collect_loop probe now (Suc k) ds
        (if de_pid d \<in> set (g_waiters g)
         then (oom', reaped, g\<lparr>g_waiters := removeAll (de_pid d) (g_waiters g),
                               g_exits := (de_pid d, de_exit d) # g_exits g\<rparr>)
         else case byPID (de_pid d) g of
           None \<Rightarrow> (oom', reaped, g)
         | Some i \<Rightarrow>
             (let g1 = on_proc i (\<lambda>p. p\<lparr>p_pid := 0\<rparr>) g in
              if oom' then (oom', True, release i (killGroup (de_pid d) g1))
              else (oom', True, exited now i (de_pid d) (de_exit d) g1))))"

definition stop_timers :: "guest \<Rightarrow> guest" where
  "stop_timers g = fold stopTimer [0..<length (g_procs g)] g"

definition collect :: "(nat \<Rightarrow> bool) \<Rightarrow> time \<Rightarrow> death list \<Rightarrow> guest \<Rightarrow> guest \<times> bool" where
  "collect probe now ds g =
     (case collect_loop probe now 0 ds (False, False, g) of
        (oom, reaped, g1) \<Rightarrow>
          if \<not> oom then (g1, reaped \<and> g_stopping g1 \<and> \<not> g_running g1)
          else ((stop_timers g1)\<lparr>g_oom := True\<rparr>, False))"

text \<open>\<open>stop\<close>; \<open>fails\<close> says of which leaders the signal fails. The second component is whether the
  supervisor returns.\<close>

definition signal_all :: "int \<Rightarrow> guest \<Rightarrow> guest" where
  "signal_all sig g =
     fold (\<lambda>i h. let h1 = stopTimer i h; pid = p_pid (g_procs h1 ! i)
                 in if pid \<noteq> 0 then signalGroup pid sig h1 else h1)
       [0..<length (g_procs g)] g"

definition guest_stop :: "(int \<Rightarrow> bool) \<Rightarrow> int \<Rightarrow> guest \<Rightarrow> guest \<times> bool" where
  "guest_stop fails sig g =
     (let g1 = signal_all sig (g\<lparr>g_stopping := True\<rparr>) in
      (g1, list_ex (\<lambda>p. p_pid p \<noteq> 0 \<and> fails (p_pid p)) (g_procs g1) \<or> \<not> g_running g1))"

definition spawn :: "run_env \<Rightarrow> guest \<Rightarrow> guest \<times> (run_error + int)" where
  "spawn env g =
     (case guest_start env g of
        Inl e \<Rightarrow> (g, Inl e)
      | Inr pid \<Rightarrow> (g\<lparr>g_waiters := pid # g_waiters g\<rparr>, Inr pid))"

subsection \<open>The loop\<close>

datatype guest_event =
    GRun run_env "(nat \<times> nat \<times> nat list) option option" "string list option" run_spec
  | GSpawn run_env
  | GCollect "nat \<Rightarrow> bool" time "death list"
  | GFire timer_due int
  | GWake run_env timer_due
  | GStopProcess nat string int
  | GStop "int \<Rightarrow> bool" int
  | GFreeze string
  | GThaw

definition guest_apply :: "guest_event \<Rightarrow> guest \<Rightarrow> guest" where
  "guest_apply e g =
     (case e of
        GRun env cred home spec \<Rightarrow> fst (runSpec env cred home spec g)
      | GSpawn env \<Rightarrow> fst (spawn env g)
      | GCollect probe now ds \<Rightarrow> fst (collect probe now ds g)
      | GFire d w \<Rightarrow> g\<lparr>g_armed := remove1 (d, w) (g_armed g), g_due := g_due g @ [d]\<rparr>
      | GWake env d \<Rightarrow> wake env d (g\<lparr>g_due := remove1 d (g_due g)\<rparr>)
      | GStopProcess req name grace \<Rightarrow> stopProcess req name grace g
      | GStop fails sig \<Rightarrow> fst (guest_stop fails sig g)
      | GFreeze verb \<Rightarrow> g\<lparr>g_frozen := Some verb\<rparr>
      | GThaw \<Rightarrow> g\<lparr>g_frozen := None\<rparr>)"

text \<open>What the kernel and the runtime guarantee of an event: a fork answers a pid no child of the guest
  has, a batch of deaths names each child once, and only a timer that runs can fire.\<close>

definition child_pids :: "guest \<Rightarrow> int list" where
  "child_pids g = filter (\<lambda>n. n \<noteq> 0) (map p_pid (g_procs g)) @ g_waiters g"

definition fork_fresh :: "run_env \<Rightarrow> guest \<Rightarrow> bool" where
  "fork_fresh env g = (case re_fork env of Inl _ \<Rightarrow> True | Inr pid \<Rightarrow> 0 < pid \<and> pid \<notin> set (child_pids g))"

definition guest_allows :: "guest_event \<Rightarrow> guest \<Rightarrow> bool" where
  "guest_allows e g =
     (case e of
        GRun env cred home spec \<Rightarrow> fork_fresh env g
      | GSpawn env \<Rightarrow> fork_fresh env g
      | GCollect probe now ds \<Rightarrow> distinct (map de_pid ds) \<and> list_all (\<lambda>d. 0 < de_pid d) ds
      | GFire d w \<Rightarrow> (d, w) \<in> set (g_armed g)
      | GWake env d \<Rightarrow> d \<in> set (g_due g) \<and> fork_fresh env g
      | _ \<Rightarrow> True)"

inductive guest_step :: "guest \<Rightarrow> guest \<Rightarrow> bool" where
  event: "guest_allows e g \<Longrightarrow> guest_step g (guest_apply e g)"

subsection \<open>The invariant of the timers and the pids\<close>

definition pending :: "(timer_due \<times> int) list \<Rightarrow> timer_due list \<Rightarrow> timer_due list" where
  "pending armed due = map fst armed @ due"

text \<open>The timer of a process: any firing that carries its name and its generation is the timer it
  holds, and the timer it holds is on its way, unless the guest stops or ran out of memory, when a firing
  is dropped.\<close>

definition timer_ok :: "bool \<Rightarrow> timer_due set \<Rightarrow> nat \<Rightarrow> proc \<Rightarrow> bool" where
  "timer_ok quiet pend gens p =
     (p_gen p \<le> gens
      \<and> (\<forall>d \<in> pend. td_name d = p_name p \<and> td_gen d = p_gen p \<longrightarrow> p_timer p = Some d)
      \<and> (\<forall>d. p_timer p = Some d \<longrightarrow> (quiet \<or> d \<in> pend) \<and> td_name d = p_name p \<and> td_gen d = p_gen p))"

lemma timer_ok_gen: "timer_ok quiet S n p \<Longrightarrow> p_gen p \<le> n"
  unfolding timer_ok_def by blast

lemma timer_ok_match:
  "timer_ok quiet S n p \<Longrightarrow> d \<in> S \<Longrightarrow> td_name d = p_name p \<Longrightarrow> td_gen d = p_gen p \<Longrightarrow> p_timer p = Some d"
  unfolding timer_ok_def by blast

lemma timer_ok_held:
  "timer_ok quiet S n p \<Longrightarrow> p_timer p = Some d \<Longrightarrow> (quiet \<or> d \<in> S) \<and> td_name d = p_name p \<and> td_gen d = p_gen p"
  unfolding timer_ok_def by blast

lemma timer_okI:
  assumes "p_gen p \<le> n"
    and "\<And>d. d \<in> S \<Longrightarrow> td_name d = p_name p \<Longrightarrow> td_gen d = p_gen p \<Longrightarrow> p_timer p = Some d"
    and "\<And>d. p_timer p = Some d \<Longrightarrow> (quiet \<or> d \<in> S) \<and> td_name d = p_name p \<and> td_gen d = p_gen p"
  shows "timer_ok quiet S n p"
  unfolding timer_ok_def using assms by blast

lemma timer_ok_cong:
  "p_name q = p_name p \<Longrightarrow> p_gen q = p_gen p \<Longrightarrow> p_timer q = p_timer p \<Longrightarrow> timer_ok quiet S n q = timer_ok quiet S n p"
  unfolding timer_ok_def by (simp (no_asm_simp))

lemma timer_ok_change:
  assumes q: "timer_ok quiet S n q" and "n \<le> m" and "\<And>e. td_name e = p_name q \<Longrightarrow> p_timer q = Some e \<or> e \<in> S' \<Longrightarrow> e \<in> S' \<longleftrightarrow> e \<in> S"
  shows "timer_ok quiet S' m q"
proof (rule timer_okI)
  show "p_gen q \<le> m" using timer_ok_gen [OF q] assms(2) by linarith
  show "p_timer q = Some e" if "e \<in> S'" "td_name e = p_name q" "td_gen e = p_gen q" for e
    using timer_ok_match [OF q] assms(3) that by blast
  show "(quiet \<or> e \<in> S') \<and> td_name e = p_name q \<and> td_gen e = p_gen q" if "p_timer q = Some e" for e
    using timer_ok_held [OF q that] assms(3) that by blast
qed

definition pids_ok :: "proc list \<Rightarrow> int list \<Rightarrow> bool" where
  "pids_ok ps ws =
     ((\<forall>i < length ps. \<forall>j < length ps. p_pid (ps ! i) \<noteq> 0 \<longrightarrow> p_pid (ps ! i) = p_pid (ps ! j) \<longrightarrow> i = j)
      \<and> (\<forall>p \<in> set ps. p_pid p \<noteq> 0 \<longrightarrow> 0 < p_pid p \<and> p_pid p \<notin> set ws)
      \<and> distinct ws \<and> (\<forall>w \<in> set ws. 0 < w))"

definition base_ok ::
  "proc list \<Rightarrow> (timer_due \<times> int) list \<Rightarrow> timer_due list \<Rightarrow> nat \<Rightarrow> int list \<Rightarrow> bool \<Rightarrow> bool" where
  "base_ok ps armed due gens ws quiet =
     (distinct (map p_name ps) \<and> length ps \<le> MaxProcesses
      \<and> list_all (\<lambda>p. ValidProcessName (p_name p)) ps
      \<and> pids_ok ps ws
      \<and> distinct (pending armed due) \<and> (\<forall>d \<in> set (pending armed due). td_gen d \<le> gens)
      \<and> (\<forall>p \<in> set ps. timer_ok quiet (set (pending armed due)) gens p))"

abbreviation guest_base :: "guest \<Rightarrow> bool" where
  "guest_base g \<equiv> base_ok (g_procs g) (g_armed g) (g_due g) (g_gens g) (g_waiters g) (g_stopping g \<or> g_oom g)"

text \<open>What the status of a process says of it: it runs exactly while it has a pid, a process waiting to
  start again holds the timer of that start, a stop request waits only for a live process, and the
  starts again never pass the retries of the policy.\<close>

definition status_ok :: "bool \<Rightarrow> bool \<Rightarrow> proc \<Rightarrow> bool" where
  "status_ok stopping oom p =
     (let s = ps_State (p_status p); r = p_restart p in
      (p_pid p \<noteq> 0 \<longrightarrow> s = ProcessRunning)
      \<and> (s = ProcessRunning \<longrightarrow> p_pid p \<noteq> 0 \<or> oom)
      \<and> (\<forall>d. p_timer p = Some d \<longrightarrow> (if td_kill d then p_stopping p \<and> s = ProcessRunning else s = ProcessRestarting))
      \<and> (s = ProcessRestarting \<longrightarrow> p_timer p \<noteq> None \<or> stopping \<or> oom)
      \<and> (p_reaped p \<noteq> [] \<longrightarrow> p_pid p \<noteq> 0 \<and> p_stopping p)
      \<and> s \<in> {ProcessRunning, ProcessRestarting, ProcessExited, ProcessKilled, ProcessGaveUp, ProcessStopped}
      \<and> 0 \<le> p_count p
      \<and> (limited r \<longrightarrow> p_count p \<le> rpol_retries r \<and> (s = ProcessRestarting \<longrightarrow> p_count p < rpol_retries r))
      \<and> (rpol_policy r = RestartNo \<or> 0 < rpol_backoff r))"

definition guest_inv :: "guest \<Rightarrow> bool" where
  "guest_inv g =
     (guest_base g \<and> (\<forall>p \<in> set (g_procs g). status_ok (g_stopping g) (g_oom g) p)
      \<and> g_table g = g_report_table g)"

subsection \<open>What each micro-step keeps\<close>

lemma base_quiet: "base_ok ps armed due gens ws quiet \<Longrightarrow> base_ok ps armed due gens ws (quiet \<or> quiet')"
  unfolding base_ok_def timer_ok_def by blast

definition tame :: "(proc \<Rightarrow> proc) \<Rightarrow> bool" where
  "tame f = (\<forall>p. p_name (f p) = p_name p \<and> p_gen (f p) = p_gen p \<and> p_timer (f p) = p_timer p \<and> p_pid (f p) = p_pid p)"

lemma update_at_names: "(\<And>p. p_name (f p) = p_name p) \<Longrightarrow> map p_name (update_at i f ps) = map p_name ps"
  by (rule map_update_at)

lemma valid_names_update:
  "(\<And>p. p_name (f p) = p_name p) \<Longrightarrow>
   list_all (\<lambda>p. ValidProcessName (p_name p)) (update_at i f ps) = list_all (\<lambda>p. ValidProcessName (p_name p)) ps"
  using update_at_names [of f i ps] by (metis (mono_tags, lifting) list.pred_map comp_apply list_all_cong)

lemma pids_ok_same:
  assumes "map p_pid qs = map p_pid ps" "pids_ok ps ws"
  shows "pids_ok qs ws"
proof -
  have len: "length qs = length ps" using assms(1) map_eq_imp_length_eq by blast
  have nth: "\<And>i. i < length ps \<Longrightarrow> p_pid (qs ! i) = p_pid (ps ! i)"
    using assms(1) len by (metis nth_map)
  have "p_pid ` set qs = p_pid ` set ps" using assms(1) by (metis set_map)
  then have "\<forall>p \<in> set qs. \<exists>q \<in> set ps. p_pid p = p_pid q" by (metis imageE imageI)
  with assms(2) show ?thesis unfolding pids_ok_def using len nth by (auto; metis)
qed

lemma base_tame:
  assumes f: "tame f" and base: "base_ok ps armed due gens ws quiet"
  shows "base_ok (update_at i f ps) armed due gens ws quiet"
proof -
  have name: "\<And>p. p_name (f p) = p_name p" and rest: "\<And>p. p_gen (f p) = p_gen p"
    "\<And>p. p_timer (f p) = p_timer p" "\<And>p. p_pid (f p) = p_pid p" using f unfolding tame_def by auto
  have "pids_ok (update_at i f ps) ws"
    by (rule pids_ok_same [OF map_update_at [where k = p_pid, OF rest(3)]]) (use base in \<open>simp add: base_ok_def\<close>)
  moreover have "\<forall>p \<in> set (update_at i f ps). timer_ok quiet (set (pending armed due)) gens p"
  proof
    fix p assume "p \<in> set (update_at i f ps)"
    from update_at_mem [OF this] show "timer_ok quiet (set (pending armed due)) gens p"
    proof (elim disjE conjE)
      assume i: "i < length ps" and p: "p = f (ps ! i)"
      have "timer_ok quiet (set (pending armed due)) gens (ps ! i)" using base nth_mem [OF i] by (simp add: base_ok_def)
      then show ?thesis using timer_ok_cong [of "f (ps ! i)" "ps ! i"] p name rest by blast
    qed (use base in \<open>simp add: base_ok_def\<close>)
  qed
  ultimately show ?thesis using base by (simp add: base_ok_def update_at_names name valid_names_update)
qed

lemma pids_update:
  assumes "pids_ok ps ws" "pid = 0 \<or> (0 < pid \<and> pid \<notin> set ws \<and> (\<forall>p \<in> set ps. p_pid p \<noteq> pid))"
  shows "pids_ok (update_at i (\<lambda>p. p\<lparr>p_pid := pid\<rparr>) ps) ws"
proof (cases "i < length ps")
  case True
  have "\<forall>p \<in> set (update_at i (\<lambda>p. p\<lparr>p_pid := pid\<rparr>) ps). p_pid p \<noteq> 0 \<longrightarrow> 0 < p_pid p \<and> p_pid p \<notin> set ws"
  proof
    fix p assume "p \<in> set (update_at i (\<lambda>p. p\<lparr>p_pid := pid\<rparr>) ps)"
    from update_at_mem [OF this] show "p_pid p \<noteq> 0 \<longrightarrow> 0 < p_pid p \<and> p_pid p \<notin> set ws"
      using assms by (auto simp: pids_ok_def)
  qed
  moreover have "j < length ps \<Longrightarrow> k < length ps \<Longrightarrow>
      p_pid (update_at i (\<lambda>p. p\<lparr>p_pid := pid\<rparr>) ps ! j) \<noteq> 0 \<Longrightarrow>
      p_pid (update_at i (\<lambda>p. p\<lparr>p_pid := pid\<rparr>) ps ! j) = p_pid (update_at i (\<lambda>p. p\<lparr>p_pid := pid\<rparr>) ps ! k) \<Longrightarrow> j = k"
    for j k using assms by (auto simp: pids_ok_def split: if_splits)
  ultimately show ?thesis using assms(1) by (simp add: pids_ok_def)
qed (use assms in \<open>simp add: update_at_def\<close>)

lemma base_pid:
  assumes base: "base_ok ps armed due gens ws quiet"
    and "pid = 0 \<or> (0 < pid \<and> pid \<notin> set ws \<and> (\<forall>p \<in> set ps. p_pid p \<noteq> pid))"
  shows "base_ok (update_at i (\<lambda>p. p\<lparr>p_pid := pid\<rparr>) ps) armed due gens ws quiet"
proof -
  have "\<forall>p \<in> set (update_at i (\<lambda>p. p\<lparr>p_pid := pid\<rparr>) ps). timer_ok quiet (set (pending armed due)) gens p"
  proof
    fix p assume "p \<in> set (update_at i (\<lambda>p. p\<lparr>p_pid := pid\<rparr>) ps)"
    from update_at_mem [OF this] show "timer_ok quiet (set (pending armed due)) gens p"
    proof (elim disjE conjE)
      assume i: "i < length ps" and p: "p = (ps ! i)\<lparr>p_pid := pid\<rparr>"
      have "timer_ok quiet (set (pending armed due)) gens (ps ! i)" using base nth_mem [OF i] by (simp add: base_ok_def)
      then show ?thesis using timer_ok_cong [of p "ps ! i"] p by simp
    qed (use base in \<open>simp add: base_ok_def\<close>)
  qed
  then show ?thesis using base pids_update [OF _ assms(2)]
    by (simp add: base_ok_def update_at_names valid_names_update)
qed

text \<open>Two processes of the table never share a name, so a timer of one is no timer of another.\<close>

lemma other_name:
  assumes "distinct (map p_name ps)" "i < length ps" "p \<in> set ps" "p \<noteq> ps ! i"
  shows "p_name p \<noteq> p_name (ps ! i)"
  using assms by (metis (no_types, opaque_lifting) distinct_map inj_onD nth_mem)

lemma update_at_others:
  assumes "distinct (map p_name ps)" "q \<in> set (update_at i f ps)" "i < length ps"
  shows "(q \<in> set ps \<and> p_name q \<noteq> p_name (ps ! i)) \<or> q = f (ps ! i)"
proof -
  from assms(2) obtain j where j: "j < length ps" "q = update_at i f ps ! j"
    by (metis in_set_conv_nth length_update_at)
  show ?thesis
  proof (cases "j = i")
    case False
    with j have "q = ps ! j" by simp
    moreover have "map p_name ps ! j \<noteq> map p_name ps ! i"
      using assms(1,3) j(1) False by (simp add: distinct_conv_nth)
    ultimately show ?thesis using j assms(3) by auto
  qed (use j in simp)
qed

lemma pending_disarm:
  assumes "distinct (pending armed due)"
  shows "distinct (pending (disarm t armed) due)" "set (pending (disarm t armed) due) \<subseteq> set (pending armed due)"
    "(\<forall>d. t \<noteq> Some d \<or> e \<noteq> d) \<Longrightarrow> e \<in> set (pending armed due) \<Longrightarrow> e \<in> set (pending (disarm t armed) due)"
  using assms
  by (auto simp: pending_def disarm_def distinct_map inj_on_def split: option.splits)

lemma base_stopTimer:
  assumes base: "base_ok ps armed due gens ws quiet" and i: "i < length ps"
  shows "base_ok (update_at i (\<lambda>p. p\<lparr>p_timer := None, p_gen := Suc gens\<rparr>) ps)
           (disarm (p_timer (ps ! i)) armed) due (Suc gens) ws quiet"
proof -
  let ?f = "\<lambda>p. p\<lparr>p_timer := None, p_gen := Suc gens\<rparr>" and ?armed = "disarm (p_timer (ps ! i)) armed"
  note pend = pending_disarm [of armed due "p_timer (ps ! i)"]
  have d: "distinct (pending armed due)" and names: "distinct (map p_name ps)" using base by (auto simp: base_ok_def)
  have old: "\<forall>d \<in> set (pending ?armed due). td_gen d \<le> gens" using base pend(2) [OF d] by (auto simp: base_ok_def)
  have "timer_ok quiet (set (pending ?armed due)) (Suc gens) q" if q: "q \<in> set (update_at i ?f ps)" for q
    using update_at_others [OF names q i]
  proof
    assume "q = ?f (ps ! i)"
    then show ?thesis using old by (intro timer_okI) (fastforce+)
  next
    assume other: "q \<in> set ps \<and> p_name q \<noteq> p_name (ps ! i)"
    have qok: "timer_ok quiet (set (pending armed due)) gens q" and iok: "timer_ok quiet (set (pending armed due)) gens (ps ! i)"
      using base other i by (auto simp: base_ok_def)
    show ?thesis
    proof (rule timer_ok_change [OF qok])
      fix e :: timer_due assume e: "td_name e = p_name q"
      have "\<forall>d. p_timer (ps ! i) \<noteq> Some d \<or> e \<noteq> d" using timer_ok_held [OF iok] e other by metis
      then show "e \<in> set (pending ?armed due) \<longleftrightarrow> e \<in> set (pending armed due)"
        using pend(2) [OF d] pend(3) [OF d] by blast
    qed simp
  qed
  moreover have "pids_ok (update_at i ?f ps) ws"
    by (rule pids_ok_same [OF map_update_at [where k = p_pid]]) (use base in \<open>simp_all add: base_ok_def\<close>)
  ultimately show ?thesis using base pend(1) [OF d] old
    by (auto simp: base_ok_def update_at_names valid_names_update)
qed

lemma base_arm:
  assumes base: "base_ok ps armed due gens ws quiet" and i: "i < length ps" and none: "p_timer (ps ! i) = None"
    and d: "d = \<lparr>td_name = p_name (ps ! i), td_gen = p_gen (ps ! i), td_kill = kill\<rparr>"
  shows "base_ok (update_at i (\<lambda>p. p\<lparr>p_timer := Some d\<rparr>) ps) ((d, w) # armed) due gens ws quiet"
proof -
  let ?f = "\<lambda>p. p\<lparr>p_timer := Some d\<rparr>"
  have names: "distinct (map p_name ps)" using base by (auto simp: base_ok_def)
  have iok: "timer_ok quiet (set (pending armed due)) gens (ps ! i)" using base i by (auto simp: base_ok_def)
  have fresh: "e \<in> set (pending armed due) \<Longrightarrow> \<not> (td_name e = td_name d \<and> td_gen e = td_gen d)" for e
    using timer_ok_match [OF iok, of e] none d by auto
  have pend: "pending ((d, w) # armed) due = d # pending armed due" by (simp add: pending_def)
  have "timer_ok quiet (set (pending ((d, w) # armed) due)) gens q" if q: "q \<in> set (update_at i ?f ps)" for q
    using update_at_others [OF names q i]
  proof
    assume "q = ?f (ps ! i)"
    then show ?thesis using fresh timer_ok_gen [OF iok] unfolding pend by (intro timer_okI) (auto simp: d)
  next
    assume other: "q \<in> set ps \<and> p_name q \<noteq> p_name (ps ! i)"
    then have qok: "timer_ok quiet (set (pending armed due)) gens q" using base by (simp add: base_ok_def)
    show ?thesis unfolding pend by (rule timer_ok_change [OF qok]) (use other d in auto)
  qed
  moreover have "pids_ok (update_at i ?f ps) ws"
    by (rule pids_ok_same [OF map_update_at [where k = p_pid]]) (use base in \<open>simp_all add: base_ok_def\<close>)
  moreover have "d \<notin> set (pending armed due)" using fresh by blast
  moreover have "td_gen d \<le> gens" using timer_ok_gen [OF iok] d by simp
  ultimately show ?thesis using base unfolding pend
    by (auto simp: base_ok_def update_at_names valid_names_update pend)
qed

text \<open>A firing received: if it is the timer of the process it names, the process holds none any more;
  if it is stale, nothing held it.\<close>

lemma base_receive_stale:
  assumes base: "base_ok ps armed due gens ws quiet" and stale: "quiet \<or> (\<forall>p \<in> set ps. p_timer p \<noteq> Some d)"
  shows "base_ok ps armed (remove1 d due) gens ws quiet"
proof -
  have dis: "distinct due" "distinct (pending armed due)" using base by (auto simp: base_ok_def pending_def)
  have sub: "set (pending armed (remove1 d due)) = set (map fst armed) \<union> (set due - {d})"
    using dis(1) by (simp add: pending_def)
  have "timer_ok quiet (set (pending armed (remove1 d due))) gens p" if p: "p \<in> set ps" for p
  proof -
    have pok: "timer_ok quiet (set (pending armed due)) gens p" using base p by (simp add: base_ok_def)
    show ?thesis
    proof (rule timer_okI)
      show "p_gen p \<le> gens" by (rule timer_ok_gen [OF pok])
      show "p_timer p = Some e" if "e \<in> set (pending armed (remove1 d due))" "td_name e = p_name p" "td_gen e = p_gen p" for e
        using timer_ok_match [OF pok] that set_remove1_subset [of d due] by (auto simp: pending_def)
      show "(quiet \<or> e \<in> set (pending armed (remove1 d due))) \<and> td_name e = p_name p \<and> td_gen e = p_gen p"
        if t: "p_timer p = Some e" for e
      proof -
        have "quiet \<or> e \<noteq> d" using stale p t by auto
        with timer_ok_held [OF pok t] show ?thesis by (auto simp: pending_def)
      qed
    qed
  qed
  moreover have "distinct (pending armed (remove1 d due))" using dis by (auto simp: pending_def)
  ultimately show ?thesis using base by (auto simp: base_ok_def sub pending_def)
qed

lemma base_receive:
  assumes base: "base_ok ps armed due gens ws quiet" and i: "i < length ps" and t: "p_timer (ps ! i) = Some d"
    and due: "d \<in> set due"
  shows "base_ok (update_at i (\<lambda>p. p\<lparr>p_timer := None\<rparr>) ps) armed (remove1 d due) gens ws quiet"
proof -
  let ?f = "\<lambda>p. p\<lparr>p_timer := None\<rparr>"
  have dis: "distinct (pending armed due)" and names: "distinct (map p_name ps)" using base by (auto simp: base_ok_def)
  then have sub: "set (pending armed (remove1 d due)) = set (pending armed due) - {d}"
    using due by (auto simp: pending_def)
  have iok: "timer_ok quiet (set (pending armed due)) gens (ps ! i)" using base i by (auto simp: base_ok_def)
  have "timer_ok quiet (set (pending armed (remove1 d due))) gens q" if q: "q \<in> set (update_at i ?f ps)" for q
    using update_at_others [OF names q i]
  proof
    assume "q = ?f (ps ! i)"
    then show ?thesis unfolding sub
      by (intro timer_okI) (use timer_ok_gen [OF iok] timer_ok_match [OF iok] t in auto)
  next
    assume other: "q \<in> set ps \<and> p_name q \<noteq> p_name (ps ! i)"
    then have qok: "timer_ok quiet (set (pending armed due)) gens q" using base by (simp add: base_ok_def)
    show ?thesis unfolding sub
      by (rule timer_ok_change [OF qok]) (use other timer_ok_held [OF iok t] in auto)
  qed
  moreover have "pids_ok (update_at i ?f ps) ws"
    by (rule pids_ok_same [OF map_update_at [where k = p_pid]]) (use base in \<open>simp_all add: base_ok_def\<close>)
  moreover have "distinct (pending armed (remove1 d due))" using dis by (auto simp: pending_def)
  ultimately show ?thesis using base
    by (auto simp: base_ok_def update_at_names valid_names_update sub)
qed

subsection \<open>What each operation keeps\<close>

lemma on_proc_fields [simp]:
  "g_procs (on_proc i f g) = update_at i f (g_procs g)" "g_nseq (on_proc i f g) = g_nseq g"
  "g_gens (on_proc i f g) = g_gens g" "g_stopping (on_proc i f g) = g_stopping g" "g_oom (on_proc i f g) = g_oom g"
  "g_probed (on_proc i f g) = g_probed g" "g_frozen (on_proc i f g) = g_frozen g"
  "g_waiters (on_proc i f g) = g_waiters g" "g_armed (on_proc i f g) = g_armed g" "g_due (on_proc i f g) = g_due g"
  "g_table (on_proc i f g) = g_table g" "g_closed (on_proc i f g) = g_closed g" "g_exits (on_proc i f g) = g_exits g"
  "g_sent (on_proc i f g) = g_sent g" "g_outputs (on_proc i f g) = g_outputs g"
  by (simp_all add: on_proc_def)

lemma changed_fields [simp]:
  "g_procs (changed i g) = update_at i (\<lambda>p. p\<lparr>p_seq := Suc (g_nseq g)\<rparr>) (g_procs g)"
  "g_gens (changed i g) = g_gens g" "g_stopping (changed i g) = g_stopping g" "g_oom (changed i g) = g_oom g"
  "g_probed (changed i g) = g_probed g" "g_frozen (changed i g) = g_frozen g"
  "g_waiters (changed i g) = g_waiters g" "g_armed (changed i g) = g_armed g" "g_due (changed i g) = g_due g"
  "g_closed (changed i g) = g_closed g" "g_outputs (changed i g) = g_outputs g" "g_sent (changed i g) = g_sent g"
  "g_table (changed i g) = g_report_table (changed i g)"
  by (simp_all add: changed_def g_report_table_def Let_def)

lemma stopTimer_fields [simp]:
  "g_procs (stopTimer i g) = update_at i (\<lambda>p. p\<lparr>p_timer := None, p_gen := Suc (g_gens g)\<rparr>) (g_procs g)"
  "g_gens (stopTimer i g) = Suc (g_gens g)" "g_stopping (stopTimer i g) = g_stopping g" "g_oom (stopTimer i g) = g_oom g"
  "g_probed (stopTimer i g) = g_probed g" "g_frozen (stopTimer i g) = g_frozen g"
  "g_waiters (stopTimer i g) = g_waiters g" "g_due (stopTimer i g) = g_due g" "g_table (stopTimer i g) = g_table g"
  "g_armed (stopTimer i g) = disarm (p_timer (g_procs g ! i)) (g_armed g)" "g_closed (stopTimer i g) = g_closed g"
  by (simp_all add: stopTimer_def Let_def)

lemma arm_fields [simp]:
  "g_procs (arm i w k g) = update_at i (\<lambda>p. p\<lparr>p_timer :=
     Some \<lparr>td_name = p_name (g_procs g ! i), td_gen = p_gen (g_procs g ! i), td_kill = k\<rparr>\<rparr>) (g_procs g)"
  "g_armed (arm i w k g) = (\<lparr>td_name = p_name (g_procs g ! i), td_gen = p_gen (g_procs g ! i), td_kill = k\<rparr>, w) # g_armed g"
  "g_gens (arm i w k g) = g_gens g" "g_stopping (arm i w k g) = g_stopping g" "g_oom (arm i w k g) = g_oom g"
  "g_probed (arm i w k g) = g_probed g" "g_frozen (arm i w k g) = g_frozen g"
  "g_waiters (arm i w k g) = g_waiters g" "g_due (arm i w k g) = g_due g" "g_table (arm i w k g) = g_table g"
  "g_closed (arm i w k g) = g_closed g" "g_nseq (arm i w k g) = g_nseq g"
  by (simp_all add: arm_def Let_def)

lemma release_fields [simp]:
  "g_procs (release i g) = update_at i (\<lambda>p. p\<lparr>p_reaped := []\<rparr>) (g_procs g)"
  "g_gens (release i g) = g_gens g" "g_stopping (release i g) = g_stopping g" "g_oom (release i g) = g_oom g"
  "g_probed (release i g) = g_probed g" "g_frozen (release i g) = g_frozen g" "g_table (release i g) = g_table g"
  "g_waiters (release i g) = g_waiters g" "g_armed (release i g) = g_armed g" "g_due (release i g) = g_due g"
  "g_closed (release i g) = p_reaped (g_procs g ! i) @ g_closed g"
  by (simp_all add: release_def)

lemma signal_fields [simp]:
  "g_procs (signalGroup l s g) = g_procs g" "g_gens (signalGroup l s g) = g_gens g"
  "g_stopping (signalGroup l s g) = g_stopping g" "g_oom (signalGroup l s g) = g_oom g"
  "g_probed (signalGroup l s g) = g_probed g" "g_frozen (signalGroup l s g) = g_frozen g"
  "g_table (signalGroup l s g) = g_table g" "g_waiters (signalGroup l s g) = g_waiters g"
  "g_armed (signalGroup l s g) = g_armed g" "g_due (signalGroup l s g) = g_due g"
  "g_closed (signalGroup l s g) = g_closed g" "g_nseq (signalGroup l s g) = g_nseq g"
  by (simp_all add: signalGroup_def)

lemma kill_signal: "killGroup l g = signalGroup l SIGKILL g"
  by (simp add: killGroup_def)

lemma set_state_fields [simp]:
  "p_name (set_state s p) = p_name p" "p_pid (set_state s p) = p_pid p" "p_timer (set_state s p) = p_timer p"
  "p_gen (set_state s p) = p_gen p" "p_restart (set_state s p) = p_restart p" "p_count (set_state s p) = p_count p"
  "p_stopping (set_state s p) = p_stopping p" "p_reaped (set_state s p) = p_reaped p"
  "ps_State (p_status (set_state s p)) = s" "p_runStartedAt (set_state s p) = p_runStartedAt p"
  "p_spec (set_state s p) = p_spec p" "ps_Exit (p_status (set_state s p)) = ps_Exit (p_status p)"
  "ps_Restarts (p_status (set_state s p)) = ps_Restarts (p_status p)"
  by (simp_all add: set_state_def)

lemma report_table_keep:
  "(\<And>p. proc_report (f p) = proc_report p) \<Longrightarrow> g_report_table (g\<lparr>g_procs := update_at i f (g_procs g)\<rparr>) = g_report_table g"
  unfolding g_report_table_def by (simp add: map_update_at)

lemma report_table_procs: "g_procs g = g_procs h \<Longrightarrow> g_report_table g = g_report_table h"
  unfolding g_report_table_def by simp

lemma report_release [simp]: "g_report_table (release i g) = g_report_table g"
  unfolding g_report_table_def by (simp add: map_update_at proc_report_def)

lemma report_arm [simp]: "g_report_table (arm i w k g) = g_report_table g"
  unfolding g_report_table_def by (simp add: map_update_at proc_report_def)

lemma report_stopTimer [simp]: "g_report_table (stopTimer i g) = g_report_table g"
  unfolding g_report_table_def by (simp add: map_update_at proc_report_def)

lemma report_signal [simp]: "g_report_table (signalGroup l s g) = g_report_table g"
  unfolding g_report_table_def by simp

lemma statuses_nth:
  "(\<forall>p \<in> set ps. status_ok st oom p) \<longleftrightarrow> (\<forall>j < length ps. status_ok st oom (ps ! j))"
  by (simp add: all_set_conv_all_nth)

definition keeps :: "bool \<Rightarrow> guest \<Rightarrow> guest \<Rightarrow> bool" where
  "keeps oom g h =
     (guest_base h \<and> (\<forall>p \<in> set (g_procs h). status_ok (g_stopping h) oom p)
      \<and> g_stopping h = g_stopping g \<and> g_oom h = g_oom g \<and> g_frozen h = g_frozen g \<and> g_probed h = g_probed g
      \<and> g_waiters h = g_waiters g \<and> map p_name (g_procs h) = map p_name (g_procs g))"

lemma tame_simps:
  "tame (\<lambda>p. p\<lparr>p_seq := n\<rparr>)" "tame (\<lambda>p. p\<lparr>p_reaped := []\<rparr>)" "tame (set_state s)"
  "tame (\<lambda>p. p\<lparr>p_status := (p_status p)\<lparr>ps_Exit := e\<rparr>\<rparr>)"
  "tame (\<lambda>p. set_state s (p\<lparr>p_stopping := b\<rparr>))" "tame (\<lambda>p. set_state s (p\<lparr>p_count := c\<rparr>))"
  "tame (\<lambda>p. p\<lparr>p_runStartedAt := t\<rparr>)" "tame (\<lambda>p. p\<lparr>p_stopping := b, p_reaped := p_reaped p @ [r]\<rparr>)"
  by (simp_all add: tame_def)

lemma base_release: "guest_base g \<Longrightarrow> guest_base (release i g)"
  by (simp add: base_tame tame_simps)

lemma base_changed: "guest_base g \<Longrightarrow> guest_base (changed i g)"
  by (simp add: base_tame tame_simps)

lemma base_on_proc: "tame f \<Longrightarrow> guest_base g \<Longrightarrow> guest_base (on_proc i f g)"
  by (simp add: base_tame)

lemma base_signal: "guest_base g \<Longrightarrow> guest_base (signalGroup l s g)"
  by simp

lemma base_stop: "i < length (g_procs g) \<Longrightarrow> guest_base g \<Longrightarrow> guest_base (stopTimer i g)"
  by (simp add: base_stopTimer)

lemma base_armed:
  "i < length (g_procs g) \<Longrightarrow> p_timer (g_procs g ! i) = None \<Longrightarrow> guest_base g \<Longrightarrow> guest_base (arm i w k g)"
  using base_arm [of "g_procs g" "g_armed g" "g_due g" "g_gens g" "g_waiters g" "g_stopping g \<or> g_oom g" i _ k w] by simp

lemmas base_intros = base_release base_changed base_on_proc base_signal base_stop base_armed

lemma restart_next_cases:
  obtains "restart_next r ex n = (0, ProcessExited)"
  | "limited r" "restart_next r ex n = (0, ProcessGaveUp)"
  | "limited r \<longrightarrow> n < rpol_retries r" "restart_next r ex n = (restart_wait r n, ProcessRestarting)"
  by (cases "applies r ex"; cases "limited r \<and> rpol_retries r \<le> n") (auto simp: restart_next_def)

text \<open>The exit of a process just reaped.\<close>

lemma exit_count_simps [simp]:
  "exit_count now (p\<lparr>p_timer := t\<rparr>) = exit_count now p" "exit_count now (p\<lparr>p_gen := n\<rparr>) = exit_count now p"
  "exit_count now (p\<lparr>p_status := s\<rparr>) = exit_count now p" "exit_count now (p\<lparr>p_pid := k\<rparr>) = exit_count now p"
  by (simp_all add: exit_count_def)

definition exit_state :: "bool \<Rightarrow> time \<Rightarrow> exit_status \<Rightarrow> proc \<Rightarrow> process_state" where
  "exit_state stopping now ex p =
     (if stopping then ProcessStopped
      else if p_stopping p then ProcessKilled
      else snd (restart_next (p_restart p) ex (exit_count now p)))"

abbreviation exit_begin :: "nat \<Rightarrow> exit_status \<Rightarrow> guest \<Rightarrow> guest" where
  "exit_begin i ex g \<equiv> on_proc i (\<lambda>p. p\<lparr>p_status := (p_status p)\<lparr>ps_Exit := Some ex\<rparr>\<rparr>) (stopTimer i g)"

lemma exited_stopping:
  "g_stopping g \<Longrightarrow>
   exited now i pid ex g = release i (changed i (on_proc i (set_state ProcessStopped) (exit_begin i ex g)))"
  by (simp add: exited_def Let_def)

lemma exited_killed:
  "\<not> g_stopping g \<Longrightarrow> i < length (g_procs g) \<Longrightarrow> p_stopping (g_procs g ! i) \<Longrightarrow>
   exited now i pid ex g =
     release i (changed i (on_proc i (\<lambda>p. set_state ProcessKilled (p\<lparr>p_stopping := False\<rparr>))
       (signalGroup pid SIGKILL (exit_begin i ex g))))"
  by (simp add: exited_def Let_def kill_signal)

lemma exited_policy:
  "i < length (g_procs g) \<Longrightarrow> \<not> g_stopping g \<Longrightarrow> \<not> p_stopping (g_procs g ! i) \<Longrightarrow>
   restart_next (p_restart (g_procs g ! i)) ex (exit_count now (g_procs g ! i)) = (w, s) \<Longrightarrow>
   exited now i pid ex g =
     (let g3 = on_proc i (\<lambda>p. set_state s (p\<lparr>p_count := exit_count now (g_procs g ! i)\<rparr>))
                 (signalGroup pid SIGKILL (exit_begin i ex g))
      in release i (changed i (if s = ProcessRestarting then arm i w False g3 else g3)))"
  by (simp add: exited_def Let_def kill_signal)

lemma exited_procs:
  assumes i: "i < length (g_procs g)" and p: "p = g_procs g ! i"
    and h: "h = exited now i pid ex g"
  shows "length (g_procs h) = length (g_procs g)"
    and "j < length (g_procs g) \<Longrightarrow> j \<noteq> i \<Longrightarrow> g_procs h ! j = g_procs g ! j"
    and "p_name (g_procs h ! i) = p_name p" "p_pid (g_procs h ! i) = p_pid p" "p_reaped (g_procs h ! i) = []"
    and "p_restart (g_procs h ! i) = p_restart p" "p_spec (g_procs h ! i) = p_spec p"
    and "ps_State (p_status (g_procs h ! i)) = exit_state (g_stopping g) now ex p"
    and "ps_Exit (p_status (g_procs h ! i)) = Some ex"
    and "p_count (g_procs h ! i) = (if g_stopping g \<or> p_stopping p then p_count p else exit_count now p)"
    and "p_timer (g_procs h ! i) =
           (if exit_state (g_stopping g) now ex p = ProcessRestarting
            then Some \<lparr>td_name = p_name p, td_gen = Suc (g_gens g), td_kill = False\<rparr> else None)"
    and "p_gen (g_procs h ! i) = Suc (g_gens g)"
    and "g_closed h = p_reaped p @ g_closed g"
proof -
  consider "g_stopping g" | "\<not> g_stopping g" "p_stopping p"
    | w s where "\<not> g_stopping g" "\<not> p_stopping p" "restart_next (p_restart p) ex (exit_count now p) = (w, s)"
    by (metis surj_pair)
  then have all: "length (g_procs h) = length (g_procs g)
     \<and> (\<forall>j < length (g_procs g). j \<noteq> i \<longrightarrow> g_procs h ! j = g_procs g ! j)
     \<and> p_name (g_procs h ! i) = p_name p \<and> p_pid (g_procs h ! i) = p_pid p \<and> p_reaped (g_procs h ! i) = []
     \<and> p_restart (g_procs h ! i) = p_restart p \<and> p_spec (g_procs h ! i) = p_spec p
     \<and> ps_State (p_status (g_procs h ! i)) = exit_state (g_stopping g) now ex p
     \<and> ps_Exit (p_status (g_procs h ! i)) = Some ex
     \<and> p_count (g_procs h ! i) = (if g_stopping g \<or> p_stopping p then p_count p else exit_count now p)
     \<and> p_timer (g_procs h ! i) =
           (if exit_state (g_stopping g) now ex p = ProcessRestarting
            then Some \<lparr>td_name = p_name p, td_gen = Suc (g_gens g), td_kill = False\<rparr> else None)
     \<and> p_gen (g_procs h ! i) = Suc (g_gens g) \<and> g_closed h = p_reaped p @ g_closed g"
  proof cases
    case 1
    then show ?thesis using i by (simp add: h p exited_stopping exit_state_def)
  next
    case 2
    then show ?thesis using i by (simp add: h p exited_killed exit_state_def)
  next
    case 3
    then show ?thesis using i unfolding h p
      by (cases "s = ProcessRestarting") (simp_all add: exited_policy [OF i] exit_state_def)
  qed
  show "length (g_procs h) = length (g_procs g)"
    and "j < length (g_procs g) \<Longrightarrow> j \<noteq> i \<Longrightarrow> g_procs h ! j = g_procs g ! j"
    and "p_name (g_procs h ! i) = p_name p" "p_pid (g_procs h ! i) = p_pid p" "p_reaped (g_procs h ! i) = []"
    and "p_restart (g_procs h ! i) = p_restart p" "p_spec (g_procs h ! i) = p_spec p"
    and "ps_State (p_status (g_procs h ! i)) = exit_state (g_stopping g) now ex p"
    and "ps_Exit (p_status (g_procs h ! i)) = Some ex"
    and "p_count (g_procs h ! i) = (if g_stopping g \<or> p_stopping p then p_count p else exit_count now p)"
    and "p_timer (g_procs h ! i) =
           (if exit_state (g_stopping g) now ex p = ProcessRestarting
            then Some \<lparr>td_name = p_name p, td_gen = Suc (g_gens g), td_kill = False\<rparr> else None)"
    and "p_gen (g_procs h ! i) = Suc (g_gens g)"
    and "g_closed h = p_reaped p @ g_closed g"
    using all by blast+
qed

definition statuses :: "bool \<Rightarrow> guest \<Rightarrow> bool" where
  "statuses oom g = (\<forall>j < length (g_procs g). status_ok (g_stopping g) oom (g_procs g ! j))"

lemma guest_inv_iff: "guest_inv g \<longleftrightarrow> guest_base g \<and> statuses (g_oom g) g \<and> g_table g = g_report_table g"
  unfolding guest_inv_def statuses_def by (simp add: all_set_conv_all_nth)

lemma status_ok_mono: "status_ok st oom p \<Longrightarrow> status_ok (st \<or> st') (oom \<or> oom') p"
  unfolding status_ok_def Let_def by auto

lemma exit_state_values:
  "exit_state st now ex p \<in> {ProcessStopped, ProcessKilled, ProcessExited, ProcessGaveUp, ProcessRestarting}"
  by (rule restart_next_cases [of "p_restart p" ex "exit_count now p"]) (simp_all add: exit_state_def)

lemma exit_state_restarting:
  "exit_state st now ex p = ProcessRestarting \<Longrightarrow>
   \<not> st \<and> \<not> p_stopping p \<and> (limited (p_restart p) \<longrightarrow> exit_count now p < rpol_retries (p_restart p))"
  by (rule restart_next_cases [of "p_restart p" ex "exit_count now p"]) (auto simp: exit_state_def split: if_splits)

lemma exited_base:
  assumes base: "guest_base g" and i: "i < length (g_procs g)"
  shows "guest_base (exited now i pid ex g)"
proof -
  have begun: "guest_base (exit_begin i ex g)" by (intro base_on_proc base_stop tame_simps base i)
  obtain w s where ws: "restart_next (p_restart (g_procs g ! i)) ex (exit_count now (g_procs g ! i)) = (w, s)"
    by (metis surj_pair)
  consider "g_stopping g" | "\<not> g_stopping g" "p_stopping (g_procs g ! i)" | "\<not> g_stopping g" "\<not> p_stopping (g_procs g ! i)"
    by blast
  then show ?thesis
  proof cases
    case 1
    then show ?thesis unfolding exited_stopping [OF 1]
      by (intro base_release base_changed base_on_proc tame_simps begun)
  next
    case 2
    then show ?thesis unfolding exited_killed [OF 2(1) i 2(2)]
      by (intro base_release base_changed base_on_proc base_signal tame_simps begun)
  next
    case 3
    let ?g3 = "on_proc i (\<lambda>p. set_state s (p\<lparr>p_count := exit_count now (g_procs g ! i)\<rparr>))
                 (signalGroup pid SIGKILL (exit_begin i ex g))"
    have g3: "guest_base ?g3" by (intro base_on_proc base_signal tame_simps begun)
    have "guest_base (if s = ProcessRestarting then arm i w False ?g3 else ?g3)"
      using g3 i base_armed [of i ?g3 w False] by (cases "s = ProcessRestarting") (simp_all del: arm_fields)
    then show ?thesis unfolding exited_policy [OF i 3 ws] Let_def by (intro base_release base_changed)
  qed
qed

lemma exited_same [simp]:
  "g_stopping (exited now i pid ex g) = g_stopping g" "g_oom (exited now i pid ex g) = g_oom g"
  "g_frozen (exited now i pid ex g) = g_frozen g" "g_probed (exited now i pid ex g) = g_probed g"
  "g_waiters (exited now i pid ex g) = g_waiters g" "g_due (exited now i pid ex g) = g_due g"
  by (simp_all add: exited_def Let_def kill_signal split: prod.splits)

lemma report_changed_release:
  "g_table (release i (changed i g)) = g_report_table (release i (changed i g))"
  by simp

lemma exited_table: "g_table (exited now i pid ex g) = g_report_table (exited now i pid ex g)"
  unfolding exited_def Let_def by (simp add: kill_signal split: prod.splits)

lemma exited_statuses:
  assumes i: "i < length (g_procs g)" and p: "p = g_procs g ! i" and pid: "p_pid p = 0"
    and others: "\<forall>j < length (g_procs g). j \<noteq> i \<longrightarrow> status_ok (g_stopping g) oom (g_procs g ! j)"
    and count: "0 \<le> p_count p" "limited (p_restart p) \<longrightarrow> p_count p \<le> rpol_retries (p_restart p)"
    and policy: "rpol_policy (p_restart p) = RestartNo \<or> 0 < rpol_backoff (p_restart p)"
  shows "statuses oom (exited now i d ex g)"
proof -
  let ?h = "exited now i d ex g"
  note f = exited_procs [OF i p refl, where now = now and pid = d and ex = ex]
  have "status_ok (g_stopping g) oom (g_procs ?h ! i)"
    unfolding status_ok_def Let_def f(4,5,6,8,10,11)
    using exit_state_values [of "g_stopping g" now ex p] exit_state_restarting [of "g_stopping g" now ex p]
      count policy pid
    by (auto simp: exit_count_def limited_def)
  then have "j < length (g_procs ?h) \<Longrightarrow> status_ok (g_stopping g) oom (g_procs ?h ! j)" for j
    using others f(1) f(2) [of j] by (cases "j = i") auto
  then show ?thesis unfolding statuses_def by simp
qed

subsection \<open>A batch of deaths\<close>

lemma byPID_Some: "byPID pid g = Some i \<Longrightarrow> i < length (g_procs g) \<and> p_pid (g_procs g ! i) = pid"
  unfolding byPID_def using IndexFunc_Some by fastforce

definition loop_ok :: "bool \<Rightarrow> guest \<Rightarrow> bool" where
  "loop_ok oom g = (guest_base g \<and> statuses (oom \<or> g_oom g) g \<and> g_table g = g_report_table g)"

lemma loop_ok_mono: "loop_ok oom g \<Longrightarrow> loop_ok (oom \<or> oom') g"
  unfolding loop_ok_def statuses_def using status_ok_mono [of "g_stopping g" "oom \<or> g_oom g" _ False oom']
  by (simp add: disj_ac)

lemma base_reap: "guest_base g \<Longrightarrow> guest_base (on_proc i (\<lambda>p. p\<lparr>p_pid := 0\<rparr>) g)"
  by (simp add: base_pid)

lemma report_pid [simp]: "g_report_table (on_proc i (\<lambda>p. p\<lparr>p_pid := k\<rparr>) g) = g_report_table g"
  unfolding g_report_table_def by (simp add: map_update_at proc_report_def)

lemma reap_exit_ok:
  assumes ok: "loop_ok oom g" and i: "i < length (g_procs g)"
  shows "loop_ok oom (exited now i d ex (on_proc i (\<lambda>p. p\<lparr>p_pid := 0\<rparr>) g))"
proof -
  let ?g1 = "on_proc i (\<lambda>p. p\<lparr>p_pid := 0\<rparr>) g"
  have base: "guest_base g" and st: "statuses (oom \<or> g_oom g) g" using ok by (auto simp: loop_ok_def)
  then have pi: "status_ok (g_stopping g) (oom \<or> g_oom g) (g_procs g ! i)" using i by (simp add: statuses_def)
  have "statuses (oom \<or> g_oom g) (exited now i d ex ?g1)"
    by (rule exited_statuses [OF _ refl]) (use st pi i in \<open>auto simp: statuses_def status_ok_def Let_def\<close>)
  moreover have "guest_base (exited now i d ex ?g1)"
    using base_reap [OF base] i by (intro exited_base) simp_all
  ultimately show ?thesis by (simp add: loop_ok_def exited_table)
qed

lemma reap_oom_ok:
  assumes ok: "loop_ok True g" and i: "i < length (g_procs g)" and alive: "p_pid (g_procs g ! i) \<noteq> 0"
  shows "loop_ok True (release i (killGroup d (on_proc i (\<lambda>p. p\<lparr>p_pid := 0\<rparr>) g)))"
proof -
  have base: "guest_base g" and st: "statuses True g" using ok by (auto simp: loop_ok_def)
  have "statuses True (release i (killGroup d (on_proc i (\<lambda>p. p\<lparr>p_pid := 0\<rparr>) g)))"
    using st unfolding statuses_def by (auto simp: kill_signal status_ok_def Let_def)
  moreover have "guest_base (release i (killGroup d (on_proc i (\<lambda>p. p\<lparr>p_pid := 0\<rparr>) g)))"
    unfolding kill_signal by (intro base_release base_signal base_reap base)
  ultimately show ?thesis using ok by (simp add: loop_ok_def kill_signal)
qed

lemma waiter_removed: "base_ok ps armed due gens ws quiet \<Longrightarrow> base_ok ps armed due gens (removeAll w ws) quiet"
  unfolding base_ok_def pids_ok_def by (auto intro: distinct_removeAll)

lemma loop_ok_exec:
  "loop_ok oom g \<Longrightarrow> loop_ok oom (g\<lparr>g_waiters := removeAll w (g_waiters g), g_exits := es\<rparr>)"
  unfolding loop_ok_def statuses_def
  by (auto simp: waiter_removed report_table_procs [of "g\<lparr>g_waiters := removeAll w (g_waiters g), g_exits := es\<rparr>" g])

lemma collect_loop_ok:
  assumes "list_all (\<lambda>d. 0 < de_pid d) ds" "loop_ok oom g" "collect_loop probe now k ds (oom, reaped, g) = (oom', reaped', g')"
  shows "loop_ok oom' g' \<and> g_oom g' = g_oom g \<and> g_stopping g' = g_stopping g \<and> length (g_procs g') = length (g_procs g)"
  using assms
proof (induction ds arbitrary: k oom reaped g)
  case (Cons d ds)
  define oom1 where "oom1 = (if es_Signal (de_exit d) = SIGKILL \<and> g_probed g \<and> \<not> oom then probe k else oom)"
  have mono: "loop_ok oom1 g"
    using loop_ok_mono [OF Cons.prems(2), of oom1] by (auto simp: oom1_def split: if_splits)
  have pos: "0 < de_pid d" "list_all (\<lambda>d. 0 < de_pid d) ds" using Cons.prems(1) by auto
  note step = Cons.IH [OF pos(2)]
  show ?case
  proof (cases "de_pid d \<in> set (g_waiters g)")
    case True
    let ?g1 = "g\<lparr>g_waiters := removeAll (de_pid d) (g_waiters g), g_exits := (de_pid d, de_exit d) # g_exits g\<rparr>"
    have "collect_loop probe now (Suc k) ds (oom1, reaped, ?g1) = (oom', reaped', g')"
      using Cons.prems(3) True by (simp add: oom1_def)
    from step [OF loop_ok_exec [OF mono] this] show ?thesis by simp
  next
    case exec: False
    show ?thesis
    proof (cases "byPID (de_pid d) g")
      case None
      have "collect_loop probe now (Suc k) ds (oom1, reaped, g) = (oom', reaped', g')"
        using Cons.prems(3) exec None by (simp add: oom1_def)
      from step [OF mono this] show ?thesis by simp
    next
      case (Some i)
      from byPID_Some [OF Some] have i: "i < length (g_procs g)" and p: "p_pid (g_procs g ! i) = de_pid d" by auto
      let ?g1 = "on_proc i (\<lambda>p. p\<lparr>p_pid := 0\<rparr>) g"
      let ?g2 = "if oom1 then release i (killGroup (de_pid d) ?g1) else exited now i (de_pid d) (de_exit d) ?g1"
      have "loop_ok oom1 ?g2"
        using reap_oom_ok [of g i "de_pid d"] reap_exit_ok [OF mono i] mono i p pos(1) by (cases oom1) simp_all
      moreover have "collect_loop probe now (Suc k) ds (oom1, True, ?g2) = (oom', reaped', g')"
        using Cons.prems(3) exec Some unfolding collect_loop.simps Let_def oom1_def [symmetric]
        by (cases oom1) simp_all
      moreover have "length (g_procs ?g2) = length (g_procs g)" "g_oom ?g2 = g_oom g" "g_stopping ?g2 = g_stopping g"
        using i exited_procs(1) [of i ?g1, OF _ refl refl] by (cases oom1; simp add: kill_signal)+
      ultimately show ?thesis using step by metis
    qed
  qed
qed simp

subsection \<open>Every event keeps the invariant\<close>

text \<open>A walk over the table that only stops timers, with the guest stopping or out of memory.\<close>

definition halted_ok :: "bool \<Rightarrow> nat \<Rightarrow> guest \<Rightarrow> guest \<Rightarrow> bool" where
  "halted_ok oom n g0 g =
     (guest_base g \<and> statuses oom g \<and> g_table g = g_report_table g \<and> length (g_procs g) = n
      \<and> g_stopping g = g_stopping g0 \<and> g_oom g = g_oom g0 \<and> g_frozen g = g_frozen g0 \<and> g_waiters g = g_waiters g0
      \<and> map p_pid (g_procs g) = map p_pid (g_procs g0) \<and> map p_name (g_procs g) = map p_name (g_procs g0)
      \<and> map p_status (g_procs g) = map p_status (g_procs g0))"

lemma halted_stopTimer:
  assumes ok: "halted_ok oom n g0 g" and i: "i < n" and halt: "g_stopping g0 \<or> oom"
  shows "halted_ok oom n g0 (stopTimer i g)"
proof -
  have st: "status_ok (g_stopping g) oom p \<Longrightarrow> status_ok (g_stopping g) oom (p\<lparr>p_timer := None, p_gen := m\<rparr>)" for p m
    using halt ok by (auto simp: status_ok_def Let_def halted_ok_def)
  have "statuses oom (stopTimer i g)" using ok st unfolding halted_ok_def statuses_def by (auto simp: statuses_def)
  moreover have "guest_base (stopTimer i g)" using ok i by (intro base_stop) (auto simp: halted_ok_def)
  moreover have "map p_pid (g_procs (stopTimer i g)) = map p_pid (g_procs g)"
    "map p_name (g_procs (stopTimer i g)) = map p_name (g_procs g)"
    "map p_status (g_procs (stopTimer i g)) = map p_status (g_procs g)"
    by (simp_all add: map_update_at)
  ultimately show ?thesis using ok by (simp add: halted_ok_def)
qed

lemma halted_signal: "halted_ok oom n g0 g \<Longrightarrow> halted_ok oom n g0 (signalGroup l s g)"
  by (auto simp: halted_ok_def statuses_def)

lemma halted_fold:
  assumes "\<And>i g. i < n \<Longrightarrow> halted_ok oom n g0 g \<Longrightarrow> halted_ok oom n g0 (f i g)"
    and "halted_ok oom n g0 g" "set is \<subseteq> {..<n}"
  shows "halted_ok oom n g0 (fold f is g)"
  using assms(2,3) by (induction "is" arbitrary: g) (simp_all add: assms(1))

lemma stop_timers_halted:
  assumes "guest_base g" "statuses True g" "g_table g = g_report_table g"
  shows "halted_ok True (length (g_procs g)) g (stop_timers g)"
  unfolding stop_timers_def
  by (rule halted_fold) (use assms in \<open>auto simp: halted_ok_def [of _ _ g g] intro: halted_stopTimer\<close>)

lemma signal_all_halted:
  assumes "guest_base g" "statuses oom g" "g_table g = g_report_table g" "g_stopping g"
  shows "halted_ok oom (length (g_procs g)) g (signal_all sig g)"
  unfolding signal_all_def
proof (rule halted_fold)
  fix i h assume "i < length (g_procs g)" "halted_ok oom (length (g_procs g)) g h"
  then have "halted_ok oom (length (g_procs g)) g (stopTimer i h)" using halted_stopTimer assms(4) by blast
  then show "halted_ok oom (length (g_procs g)) g
      (let h1 = stopTimer i h; pid = p_pid (g_procs h1 ! i) in if pid \<noteq> 0 then signalGroup pid sig h1 else h1)"
    unfolding Let_def by (simp add: halted_signal del: stopTimer_fields)
qed (use assms in \<open>auto simp: halted_ok_def\<close>)

lemma inv_oom: "halted_ok True n g0 g \<Longrightarrow> guest_inv (g\<lparr>g_oom := True\<rparr>)"
  unfolding guest_inv_iff halted_ok_def statuses_def
  using base_quiet [of "g_procs g" "g_armed g" "g_due g" "g_gens g" "g_waiters g" "g_stopping g \<or> g_oom g" True]
  by (auto simp: report_table_procs [of "g\<lparr>g_oom := True\<rparr>" g])

lemma collect_inv:
  assumes inv: "guest_inv g" and ds: "list_all (\<lambda>d. 0 < de_pid d) ds"
  shows "guest_inv (fst (collect probe now ds g))"
proof -
  obtain oom reaped g1 where loop: "collect_loop probe now 0 ds (False, False, g) = (oom, reaped, g1)"
    by (metis surj_pair)
  have "loop_ok False g" using inv by (simp add: loop_ok_def guest_inv_iff)
  from collect_loop_ok [OF ds this loop] have ok: "loop_ok oom g1" and same: "g_oom g1 = g_oom g" by auto
  show ?thesis
  proof (cases oom)
    case True
    with ok have "halted_ok True (length (g_procs g1)) g1 (stop_timers g1)"
      by (intro stop_timers_halted) (auto simp: loop_ok_def)
    then show ?thesis using inv_oom True loop by (simp add: collect_def)
  next
    case False
    then show ?thesis using ok loop by (simp add: collect_def loop_ok_def guest_inv_iff)
  qed
qed

lemma guest_stop_inv:
  assumes inv: "guest_inv g"
  shows "guest_inv (fst (guest_stop fails sig g))"
proof -
  let ?g = "g\<lparr>g_stopping := True\<rparr>"
  have tab: "g_report_table ?g = g_report_table g" by (rule report_table_procs) simp
  have "statuses (g_oom g) ?g"
    using inv status_ok_mono [of "g_stopping g" "g_oom g" _ True False] by (auto simp: guest_inv_iff statuses_def)
  moreover have "guest_base ?g"
    using inv base_quiet [of "g_procs g" "g_armed g" "g_due g" "g_gens g" "g_waiters g" "g_stopping g \<or> g_oom g" True]
    by (simp add: guest_inv_iff)
  ultimately have "halted_ok (g_oom g) (length (g_procs ?g)) ?g (signal_all sig ?g)"
    using inv tab by (intro signal_all_halted) (auto simp: guest_inv_iff)
  then show ?thesis by (auto simp: guest_stop_def Let_def halted_ok_def guest_inv_iff)
qed

lemma g_named_Some: "g_named name g = Some i \<Longrightarrow> i < length (g_procs g) \<and> p_name (g_procs g ! i) = name"
  unfolding g_named_def using IndexFunc_Some by fastforce

lemma statuses_at:
  assumes "statuses oom g" "length (g_procs h) = length (g_procs g)" "g_stopping h = g_stopping g"
    and "\<And>j. j < length (g_procs g) \<Longrightarrow> j \<noteq> i \<Longrightarrow> g_procs h ! j = g_procs g ! j"
    and "i < length (g_procs g) \<Longrightarrow> status_ok (g_stopping g) oom (g_procs h ! i)"
  shows "statuses oom h"
  unfolding statuses_def
proof (intro allI impI)
  fix j assume j: "j < length (g_procs h)"
  show "status_ok (g_stopping h) oom (g_procs h ! j)"
    using assms j by (cases "j = i") (auto simp: statuses_def)
qed

lemma status_killed_waiting:
  "status_ok st oom p \<Longrightarrow> p_pid p = 0 \<Longrightarrow>
   status_ok st oom ((set_state ProcessKilled (p\<lparr>p_timer := None, p_gen := n\<rparr>))\<lparr>p_seq := m\<rparr>)"
  by (simp add: status_ok_def Let_def)

lemma status_asked_to_stop:
  "status_ok st oom p \<Longrightarrow> p_pid p \<noteq> 0 \<Longrightarrow>
   status_ok st oom (p\<lparr>p_timer := None, p_gen := n, p_stopping := True, p_reaped := r\<rparr>)"
  "status_ok st oom p \<Longrightarrow> p_pid p \<noteq> 0 \<Longrightarrow> td_kill d \<Longrightarrow>
   status_ok st oom (p\<lparr>p_gen := n, p_stopping := True, p_reaped := r, p_timer := Some d\<rparr>)"
  by (simp_all add: status_ok_def Let_def)

lemma stopProcess_inv:
  assumes inv: "guest_inv g"
  shows "guest_inv (stopProcess req name grace g)"
proof (cases "g_named name g")
  case None
  have "guest_inv (g\<lparr>g_closed := req # g_closed g\<rparr>)"
    using inv by (simp add: guest_inv_iff statuses_def report_table_procs [of "g\<lparr>g_closed := req # g_closed g\<rparr>" g])
  then show ?thesis using None by (simp add: stopProcess_def)
next
  case (Some i)
  let ?p = "g_procs g ! i" and ?g1 = "stopTimer i g"
  have i: "i < length (g_procs g)" using g_named_Some [OF Some] by simp
  have base: "guest_base g" and st: "statuses (g_oom g) g" and tab: "g_table g = g_report_table g"
    using inv by (auto simp: guest_inv_iff)
  have pi: "status_ok (g_stopping g) (g_oom g) ?p" using st i by (simp add: statuses_def)
  have base1: "guest_base ?g1" by (rule base_stop [OF i base])
  consider "p_ended ?p" | "\<not> p_ended ?p" "p_pid ?p = 0" | "\<not> p_ended ?p" "p_pid ?p \<noteq> 0" by blast
  then show ?thesis
  proof cases
    case 1
    have "guest_inv (g\<lparr>g_closed := req # g_closed g\<rparr>)"
      using inv by (simp add: guest_inv_iff statuses_def report_table_procs [of "g\<lparr>g_closed := req # g_closed g\<rparr>" g])
    then show ?thesis using Some 1 by (simp add: stopProcess_def)
  next
    case 2
    let ?g2 = "changed i (on_proc i (set_state ProcessKilled) ?g1)"
    have b2: "guest_base ?g2" by (intro base_changed base_on_proc tame_simps base1)
    have "statuses (g_oom g) ?g2"
      by (rule statuses_at [OF st, where i = i]) (use status_killed_waiting [OF pi 2(2)] in \<open>simp_all add: i\<close>)
    then have "guest_inv ?g2" using b2 by (simp add: guest_inv_iff)
    then have "guest_inv (?g2\<lparr>g_closed := req # g_closed ?g2\<rparr>)"
      by (simp add: guest_inv_iff statuses_def report_table_procs [of "?g2\<lparr>g_closed := req # g_closed ?g2\<rparr>" ?g2]
          del: changed_fields on_proc_fields stopTimer_fields)
    then show ?thesis using Some 2 i by (simp add: stopProcess_def Let_def)
  next
    case 3
    let ?g3 = "signalGroup (p_pid ?p) (if grace \<le> 0 then SIGKILL else SIGTERM)
                (on_proc i (\<lambda>p. p\<lparr>p_stopping := True, p_reaped := p_reaped p @ [req]\<rparr>) ?g1)"
    have b3: "guest_base ?g3" by (intro base_signal base_on_proc tame_simps base1)
    have tab3: "g_table ?g3 = g_report_table ?g3"
      using tab by (simp add: g_report_table_def map_update_at proc_report_def)
    have timer: "p_timer (g_procs ?g3 ! i) = None" using i by simp
    have "statuses (g_oom g) ?g3"
      by (rule statuses_at [OF st, where i = i]) (use status_asked_to_stop [OF pi 3(2)] in \<open>simp_all add: i\<close>)
    moreover have "statuses (g_oom g) (arm i grace True ?g3)"
      by (rule statuses_at [OF st, where i = i]) (use status_asked_to_stop [OF pi 3(2)] in \<open>simp_all add: i\<close>)
    moreover have "guest_base (arm i grace True ?g3)" by (rule base_armed [OF _ timer b3]) (simp add: i)
    ultimately have "guest_inv (if 0 < grace then arm i grace True ?g3 else ?g3)"
      using b3 tab3 by (auto simp: guest_inv_iff)
    then show ?thesis using Some 3 i by (simp add: stopProcess_def Let_def)
  qed
qed

lemma status_woken:
  "status_ok st oom p \<Longrightarrow> p_timer p = Some d \<Longrightarrow> td_kill d \<Longrightarrow> status_ok st oom (p\<lparr>p_timer := None\<rparr>)"
  "status_ok st oom p \<Longrightarrow> p_timer p = Some d \<Longrightarrow> \<not> td_kill d \<Longrightarrow> \<not> td_kill e \<Longrightarrow>
     status_ok st oom (p\<lparr>p_timer := Some e\<rparr>)"
  "status_ok st oom p \<Longrightarrow> p_timer p = Some d \<Longrightarrow> \<not> td_kill d \<Longrightarrow>
     status_ok st oom ((set_state ProcessGaveUp (p\<lparr>p_timer := None, p_runStartedAt := t\<rparr>))\<lparr>p_seq := m\<rparr>)"
  by (auto simp: status_ok_def Let_def)

lemma status_started:
  assumes ok: "status_ok st oom p" and t: "p_timer p = Some d" "\<not> td_kill d" and pid: "0 < pid"
    and q: "p_pid q = pid" "p_count q = p_count p + 1" "ps_State (p_status q) = ProcessRunning" "p_timer q = None"
      "p_restart q = p_restart p" "p_reaped q = p_reaped p" "p_stopping q = p_stopping p"
  shows "status_ok st oom q"
  using ok t pid unfolding status_ok_def Let_def q by (auto simp: q)

lemma fork_fresh_pid:
  assumes "fork_fresh env g" "guest_start env g' = Inr pid"
  shows "0 < pid \<and> pid \<notin> set (g_waiters g) \<and> (\<forall>p \<in> set (g_procs g). p_pid p \<noteq> pid)"
  using assms by (auto simp: fork_fresh_def guest_start_def child_pids_def split: option.splits sum.splits)

lemma inv_timer:
  assumes "guest_inv g" "i < length (g_procs g)" "d \<in> set (g_due g)"
    and "p_name (g_procs g ! i) = td_name d" "p_gen (g_procs g ! i) = td_gen d"
  shows "p_timer (g_procs g ! i) = Some d"
proof -
  have "timer_ok (g_stopping g \<or> g_oom g) (set (pending (g_armed g) (g_due g))) (g_gens g) (g_procs g ! i)"
    using assms(1,2) by (simp add: guest_inv_iff base_ok_def)
  then show ?thesis by (rule timer_ok_match) (simp_all add: assms pending_def)
qed

lemma inv_holder:
  assumes "guest_inv g" "i < length (g_procs g)" "p_timer (g_procs g ! i) = Some d"
  shows "g_named (td_name d) g = Some i \<and> p_gen (g_procs g ! i) = td_gen d"
proof -
  have "timer_ok (g_stopping g \<or> g_oom g) (set (pending (g_armed g) (g_due g))) (g_gens g) (g_procs g ! i)"
    and names: "distinct (map p_name (g_procs g))" using assms(1,2) by (simp_all add: guest_inv_iff base_ok_def)
  from timer_ok_held [OF this(1) assms(3)] show ?thesis
    using IndexFunc_distinct [OF names assms(2)] by (simp add: g_named_def)
qed

text \<open>A firing no process holds, received by the guest, changes nothing but the channel.\<close>

lemma wake_stale:
  assumes inv: "guest_inv g" and d: "d \<in> set (g_due g)" and stale: "\<forall>p \<in> set (g_procs g). p_timer p \<noteq> Some d"
  shows "wake env d (g\<lparr>g_due := remove1 d (g_due g)\<rparr>) = g\<lparr>g_due := remove1 d (g_due g)\<rparr>"
proof (cases "g_named (td_name d) g")
  case (Some i)
  from g_named_Some [OF Some] have i: "i < length (g_procs g)" "p_name (g_procs g ! i) = td_name d" by auto
  then have "p_gen (g_procs g ! i) \<noteq> td_gen d" using inv_timer [OF inv i(1) d i(2)] stale by auto
  with Some show ?thesis by (simp add: wake_def g_named_def)
qed (simp add: wake_def g_named_def)

lemma receive_inv:
  assumes inv: "guest_inv g" and stale: "(g_stopping g \<or> g_oom g) \<or> (\<forall>p \<in> set (g_procs g). p_timer p \<noteq> Some d)"
  shows "guest_inv (g\<lparr>g_due := remove1 d (g_due g)\<rparr>)"
proof -
  have "guest_base (g\<lparr>g_due := remove1 d (g_due g)\<rparr>)"
    using base_receive_stale [of "g_procs g" "g_armed g" "g_due g" "g_gens g" "g_waiters g" "g_stopping g \<or> g_oom g" d] inv stale
    by (simp add: guest_inv_iff)
  then show ?thesis using inv
    by (simp add: guest_inv_iff statuses_def report_table_procs [of "g\<lparr>g_due := remove1 d (g_due g)\<rparr>" g])
qed

definition received :: "nat \<Rightarrow> timer_due \<Rightarrow> guest \<Rightarrow> guest" where
  "received i d g = on_proc i (\<lambda>p. p\<lparr>p_timer := None\<rparr>) (g\<lparr>g_due := remove1 d (g_due g)\<rparr>)"

lemma received_fields [simp]:
  "g_procs (received i d g) = update_at i (\<lambda>p. p\<lparr>p_timer := None\<rparr>) (g_procs g)"
  "g_gens (received i d g) = g_gens g" "g_stopping (received i d g) = g_stopping g" "g_oom (received i d g) = g_oom g"
  "g_frozen (received i d g) = g_frozen g" "g_table (received i d g) = g_table g"
  "g_waiters (received i d g) = g_waiters g" "g_armed (received i d g) = g_armed g"
  "g_due (received i d g) = remove1 d (g_due g)" "g_nseq (received i d g) = g_nseq g"
  by (simp_all add: received_def)

lemma report_received [simp]: "g_report_table (received i d g) = g_report_table g"
  unfolding g_report_table_def by (simp add: map_update_at proc_report_def)

lemma base_received:
  "guest_base g \<Longrightarrow> i < length (g_procs g) \<Longrightarrow> p_timer (g_procs g ! i) = Some d \<Longrightarrow> d \<in> set (g_due g) \<Longrightarrow>
   guest_base (received i d g)"
  by (simp add: base_receive)

text \<open>A firing the process it names holds: what \<open>wake\<close> does in each case.\<close>

definition started_again :: "int \<Rightarrow> proc \<Rightarrow> proc" where
  "started_again pid p = p\<lparr>p_pid := pid, p_count := p_count p + 1,
     p_status := (p_status p)\<lparr>ps_State := ProcessRunning, ps_Restarts := ps_Restarts (p_status p) + 1,
       ps_StartedAt := p_runStartedAt p\<rparr>\<rparr>"

lemma wake_cases:
  assumes inv: "guest_inv g" and i: "i < length (g_procs g)" and t: "p_timer (g_procs g ! i) = Some d"
    and live: "\<not> g_stopping g" "\<not> g_oom g"
    and h: "h = wake env d (g\<lparr>g_due := remove1 d (g_due g)\<rparr>)"
    and g1: "g1 = received i d g" and g2: "g2 = on_proc i (\<lambda>p. p\<lparr>p_runStartedAt := re_now env\<rparr>) g1"
  shows "td_kill d \<Longrightarrow> p_pid (g_procs g ! i) \<noteq> 0 \<Longrightarrow> h = killGroup (p_pid (g_procs g ! i)) g1"
    and "td_kill d \<Longrightarrow> p_pid (g_procs g ! i) = 0 \<Longrightarrow> h = g1"
    and "\<not> td_kill d \<Longrightarrow> g_frozen g \<noteq> None \<Longrightarrow> h = arm i frozenRetry False g1"
    and "\<not> td_kill d \<Longrightarrow> g_frozen g = None \<Longrightarrow> re_workdir env \<Longrightarrow> re_fork env = Inr pid \<Longrightarrow>
           h = changed i (on_proc i (started_again pid) g2)"
    and "\<not> td_kill d \<Longrightarrow> g_frozen g = None \<Longrightarrow> \<not> re_workdir env \<or> re_fork env = Inl e \<Longrightarrow>
           h = changed i (on_proc i (set_state ProcessGaveUp) g2)"
proof -
  have named: "g_named (td_name d) (g\<lparr>g_due := remove1 d (g_due g)\<rparr>) = Some i" "p_gen (g_procs g ! i) = td_gen d"
    using inv_holder [OF inv i t] by (simp_all add: g_named_def)
  have start: "guest_start env g2 = (case g_frozen g of Some verb \<Rightarrow> Inl (HeldFrozen verb)
      | None \<Rightarrow> (case re_fork env of Inl e \<Rightarrow> Inl (StartFailed e) | Inr pid \<Rightarrow> Inr pid))"
    unfolding g2 g1 guest_start_def by simp
  show "td_kill d \<Longrightarrow> p_pid (g_procs g ! i) \<noteq> 0 \<Longrightarrow> h = killGroup (p_pid (g_procs g ! i)) g1"
    and "td_kill d \<Longrightarrow> p_pid (g_procs g ! i) = 0 \<Longrightarrow> h = g1"
    and "\<not> td_kill d \<Longrightarrow> g_frozen g \<noteq> None \<Longrightarrow> h = arm i frozenRetry False g1"
    using named live i by (simp_all add: h wake_def Let_def g1 received_def)
  show "\<not> td_kill d \<Longrightarrow> g_frozen g = None \<Longrightarrow> re_workdir env \<Longrightarrow> re_fork env = Inr pid \<Longrightarrow>
           h = changed i (on_proc i (started_again pid) g2)"
    and "\<not> td_kill d \<Longrightarrow> g_frozen g = None \<Longrightarrow> \<not> re_workdir env \<or> re_fork env = Inl e \<Longrightarrow>
           h = changed i (on_proc i (set_state ProcessGaveUp) g2)"
    using named live i start unfolding h wake_def Let_def
    by (auto simp: g1 g2 received_def started_again_def [abs_def])
qed

lemma base_started:
  assumes "guest_base g" "0 < pid" "pid \<notin> set (g_waiters g)" "\<forall>p \<in> set (g_procs g). p_pid p \<noteq> pid"
  shows "guest_base (on_proc i (started_again pid) g)"
proof -
  let ?F = "\<lambda>p. p\<lparr>p_count := p_count p + 1,
     p_status := (p_status p)\<lparr>ps_State := ProcessRunning, ps_Restarts := ps_Restarts (p_status p) + 1,
       ps_StartedAt := p_runStartedAt p\<rparr>\<rparr>"
  have eq: "on_proc i (started_again pid) g = on_proc i ?F (on_proc i (\<lambda>p. p\<lparr>p_pid := pid\<rparr>) g)"
    by (simp add: on_proc_def update_at_twice started_again_def [abs_def])
  have "guest_base (on_proc i (\<lambda>p. p\<lparr>p_pid := pid\<rparr>) g)" using assms by (simp add: base_pid)
  then show ?thesis unfolding eq by (rule base_on_proc [rotated]) (simp add: tame_def)
qed

lemma wake_inv:
  assumes inv: "guest_inv g" and d: "d \<in> set (g_due g)" and fresh: "fork_fresh env g"
  shows "guest_inv (wake env d (g\<lparr>g_due := remove1 d (g_due g)\<rparr>))"
proof -
  consider "g_stopping g \<or> g_oom g" | "\<not> g_stopping g" "\<not> g_oom g" "\<forall>p \<in> set (g_procs g). p_timer p \<noteq> Some d"
    | i where "\<not> g_stopping g" "\<not> g_oom g" "i < length (g_procs g)" "p_timer (g_procs g ! i) = Some d"
    by (metis in_set_conv_nth)
  then show ?thesis
  proof cases
    case 1
    then have "wake env d (g\<lparr>g_due := remove1 d (g_due g)\<rparr>) = g\<lparr>g_due := remove1 d (g_due g)\<rparr>"
      by (auto simp: wake_def split: option.splits)
    then show ?thesis using receive_inv [OF inv, of d] 1 by simp
  next
    case 2
    then show ?thesis using wake_stale [OF inv d 2(3)] receive_inv [OF inv, of d] by simp
  next
    case (3 i)
    note live = 3(1,2) and i = 3(3) and t = 3(4)
    have base: "guest_base g" and st: "statuses (g_oom g) g" and tab: "g_table g = g_report_table g"
      using inv by (auto simp: guest_inv_iff)
    have pi: "status_ok (g_stopping g) (g_oom g) (g_procs g ! i)" using st i by (simp add: statuses_def)
    have base1: "guest_base (received i d g)" by (rule base_received [OF base i t d])
    let ?h = "wake env d (g\<lparr>g_due := remove1 d (g_due g)\<rparr>)"
      and ?g2 = "on_proc i (\<lambda>p. p\<lparr>p_runStartedAt := re_now env\<rparr>) (received i d g)"
    note w = wake_cases [OF inv i t live refl refl refl, where env = env]
    have base2: "guest_base ?g2" by (intro base_on_proc tame_simps base1)
    consider "td_kill d" | "\<not> td_kill d" "g_frozen g \<noteq> None"
      | pid where "\<not> td_kill d" "g_frozen g = None" "re_workdir env" "re_fork env = Inr pid"
      | e where "\<not> td_kill d" "g_frozen g = None" "\<not> re_workdir env \<or> re_fork env = Inl e"
      by (cases "re_fork env") blast+
    then show ?thesis
    proof cases
      case 1
      then have "?h = signalGroup (p_pid (g_procs g ! i)) SIGKILL (received i d g) \<or> ?h = received i d g"
        using w(1,2) kill_signal by metis
      moreover have "statuses (g_oom g) (received i d g)"
        by (rule statuses_at [OF st, where i = i]) (use status_woken(1) [OF pi t 1] i in simp_all)
      ultimately show ?thesis using base1 tab by (auto simp: guest_inv_iff statuses_def)
    next
      case 2
      let ?a = "arm i frozenRetry False (received i d g)"
      have "guest_base ?a" by (rule base_armed [OF _ _ base1]) (simp_all add: i)
      moreover have "statuses (g_oom g) ?a"
        by (rule statuses_at [OF st, where i = i]) (use status_woken(2) [OF pi t 2(1)] i in simp_all)
      ultimately show ?thesis using w(3) [OF 2] tab by (simp add: guest_inv_iff)
    next
      case (3 pid)
      let ?a = "changed i (on_proc i (started_again pid) ?g2)"
      have pid: "0 < pid" "pid \<notin> set (g_waiters g)" "\<forall>p \<in> set (g_procs g). p_pid p \<noteq> pid"
        using fork_fresh_pid [OF fresh, of g pid] 3 by (auto simp: guest_start_def)
      have "\<forall>p \<in> set (g_procs ?g2). p_pid p \<noteq> pid"
        using pid(3) by (auto dest!: update_at_mem)
      then have "guest_base ?a" by (intro base_changed base_started base2) (simp_all add: pid)
      moreover have "statuses (g_oom g) ?a"
        by (rule statuses_at [OF st, where i = i])
          (use status_started [OF pi t 3(1) pid(1)] i in \<open>simp_all add: started_again_def\<close>)
      ultimately show ?thesis using w(4) [OF 3] by (simp add: guest_inv_iff)
    next
      case (4 e)
      let ?a = "changed i (on_proc i (set_state ProcessGaveUp) ?g2)"
      have "guest_base ?a" by (intro base_changed base_on_proc tame_simps base2)
      moreover have "statuses (g_oom g) ?a"
        by (rule statuses_at [OF st, where i = i]) (use status_woken(3) [OF pi t 4(1)] i in simp_all)
      ultimately show ?thesis using w(5) [OF 4] by (simp add: guest_inv_iff)
    qed
  qed
qed

lemma nth_delete_at:
  "i < length xs \<Longrightarrow> j < length xs - 1 \<Longrightarrow> delete_at i xs ! j = xs ! (if j < i then j else Suc j)"
  unfolding delete_at_def by (auto simp: nth_append min_def)

lemma base_delete:
  assumes base: "base_ok ps armed due gens ws quiet" and i: "i < length ps"
  shows "base_ok (delete_at i ps) armed due gens ws quiet"
proof -
  note len = length_delete_at [OF i]
  have sub: "p \<in> set (delete_at i ps) \<Longrightarrow> p \<in> set ps" for p using set_delete_at by fastforce
  have "j = k" if "j < length ps - 1" "k < length ps - 1" "p_pid (delete_at i ps ! j) \<noteq> 0"
    "p_pid (delete_at i ps ! j) = p_pid (delete_at i ps ! k)" for j k
  proof -
    let ?s = "\<lambda>j. if j < i then j else Suc j"
    have "?s j < length ps" "?s k < length ps" using that(1,2) by auto
    moreover have "p_pid (ps ! ?s j) \<noteq> 0" "p_pid (ps ! ?s j) = p_pid (ps ! ?s k)"
      using that(3,4) nth_delete_at [OF i that(1)] nth_delete_at [OF i that(2)] by simp_all
    ultimately have "?s j = ?s k" using base unfolding base_ok_def pids_ok_def by blast
    then show ?thesis by (auto split: if_splits)
  qed
  then have "pids_ok (delete_at i ps) ws" using base sub by (auto simp: base_ok_def pids_ok_def len)
  then show ?thesis
    using base sub distinct_delete_at [of "map p_name ps" i] len
    by (auto simp: base_ok_def map_delete_at list_all_iff)
qed

lemma base_append:
  assumes base: "base_ok ps armed due gens ws quiet" and room: "length ps < MaxProcesses"
    and name: "p_name p \<notin> set (map p_name ps)" "ValidProcessName (p_name p)"
    and pid: "0 < p_pid p" "p_pid p \<notin> set ws" "\<forall>q \<in> set ps. p_pid q \<noteq> p_pid p"
    and gen: "p_gen p = Suc gens" "p_timer p = None"
  shows "base_ok (ps @ [p]) armed due (Suc gens) ws quiet"
proof -
  have old: "\<forall>d \<in> set (pending armed due). td_gen d \<le> gens" using base by (simp add: base_ok_def)
  have new: "timer_ok quiet (set (pending armed due)) (Suc gens) p"
  proof (rule timer_okI)
    fix d assume "d \<in> set (pending armed due)" "td_gen d = p_gen p"
    then show "p_timer p = Some d" using old gen(1) by fastforce
  qed (simp_all add: gen)
  have kept: "timer_ok quiet (set (pending armed due)) (Suc gens) q" if "q \<in> set ps" for q
    by (rule timer_ok_change [of _ _ gens]) (use base that in \<open>simp_all add: base_ok_def\<close>)
  have "pids_ok (ps @ [p]) ws"
    unfolding pids_ok_def
  proof (intro conjI allI impI)
    fix j k assume "j < length (ps @ [p])" "k < length (ps @ [p])" "p_pid ((ps @ [p]) ! j) \<noteq> 0"
      "p_pid ((ps @ [p]) ! j) = p_pid ((ps @ [p]) ! k)"
    moreover have "j' < length ps \<Longrightarrow> p_pid (ps ! j') \<noteq> p_pid p" for j' using pid(3) by simp
    ultimately show "j = k" using base
      by (cases "j < length ps"; cases "k < length ps") (auto simp: base_ok_def pids_ok_def nth_append less_Suc_eq)
  qed (use base pid in \<open>auto simp: base_ok_def pids_ok_def\<close>)
  moreover have "\<forall>d \<in> set (pending armed due). td_gen d \<le> Suc gens" using old by auto
  ultimately show ?thesis using base room name new kept by (auto simp: base_ok_def)
qed

lemma status_new:
  "rpol_policy r = RestartNo \<or> 0 < rpol_backoff r \<Longrightarrow> 0 < pid \<Longrightarrow>
   status_ok st oom ((new_proc name spec r pid at n)\<lparr>p_seq := m\<rparr>)"
  by (auto simp: status_ok_def Let_def new_proc_def limited_def)

lemma keep_fields [simp]:
  "g_procs (keep_outputs g) = g_procs g" "g_gens (keep_outputs g) = g_gens g" "g_stopping (keep_outputs g) = g_stopping g"
  "g_oom (keep_outputs g) = g_oom g" "g_frozen (keep_outputs g) = g_frozen g" "g_waiters (keep_outputs g) = g_waiters g"
  "g_armed (keep_outputs g) = g_armed g" "g_due (keep_outputs g) = g_due g" "g_table (keep_outputs g) = g_table g"
  "g_nseq (keep_outputs g) = g_nseq g"
  by (simp_all add: keep_outputs_def)

lemma guest_inv_same:
  assumes "guest_inv g" "g_procs h = g_procs g" "g_armed h = g_armed g" "g_due h = g_due g" "g_gens h = g_gens g"
    "g_waiters h = g_waiters g" "g_stopping h = g_stopping g" "g_oom h = g_oom g" "g_table h = g_table g"
  shows "guest_inv h"
  using assms report_table_procs [of h g] by (simp add: guest_inv_iff statuses_def)

lemma evicted_Some:
  assumes "evicted name g = Some i"
  shows "i < length (g_procs g)" "g_named name g = Some i \<or> g_named name g = None"
  using assms IndexFunc_Some g_named_Some
  by (auto simp: evicted_def oldestEnded_def split: option.splits if_splits)

text \<open>The table a run leaves: the entry it replaces is gone, the name is free and there is room.\<close>

lemma evicted_room:
  assumes base: "guest_base g" and admit: "is_ok (admit_run name g)"
    and rest: "rest = (case evicted name g of Some i \<Rightarrow> delete_at i (g_procs g) | None \<Rightarrow> g_procs g)"
  shows "length rest < MaxProcesses" "name \<notin> set (map p_name rest)" "set rest \<subseteq> set (g_procs g)"
    and "base_ok rest (g_armed g) (g_due g) (g_gens g) (g_waiters g) (g_stopping g \<or> g_oom g)"
proof -
  have len: "length (g_procs g) \<le> MaxProcesses" and names: "distinct (map p_name (g_procs g))"
    using base by (auto simp: base_ok_def)
  have cap: "0 < MaxProcesses" by (simp add: MaxProcesses_def)
  have "length rest < MaxProcesses \<and> name \<notin> set (map p_name rest) \<and> set rest \<subseteq> set (g_procs g)
    \<and> base_ok rest (g_armed g) (g_due g) (g_gens g) (g_waiters g) (g_stopping g \<or> g_oom g)"
  proof (cases "evicted name g")
    case None
    then have "g_named name g = None" "\<not> MaxProcesses \<le> length (g_procs g)"
      using admit by (auto simp: evicted_def admit_run_def split: option.splits if_splits)
    then show ?thesis using base None by (auto simp: rest g_named_def IndexFunc_None)
  next
    case (Some i)
    note i = evicted_Some(1) [OF Some]
    have "name \<notin> set (map p_name (delete_at i (g_procs g)))"
      using evicted_Some(2) [OF Some]
    proof
      assume "g_named name g = Some i"
      then have "map p_name (g_procs g) ! i = name" using g_named_Some i by simp
      then show ?thesis using delete_at_absent [OF names, of i] i by (simp only: map_delete_at) force
    next
      assume "g_named name g = None"
      then have "name \<notin> set (map p_name (g_procs g))" by (auto simp: g_named_def IndexFunc_None)
      then show ?thesis using set_delete_at [of i "map p_name (g_procs g)"] by (simp only: map_delete_at) blast
    qed
    moreover have "length (delete_at i (g_procs g)) < MaxProcesses" using len i length_delete_at [OF i] cap by simp
    ultimately show ?thesis using base_delete [OF base i] set_delete_at [of i "g_procs g"] Some by (simp add: rest)
  qed
  then show "length rest < MaxProcesses" "name \<notin> set (map p_name rest)" "set rest \<subseteq> set (g_procs g)"
    and "base_ok rest (g_armed g) (g_due g) (g_gens g) (g_waiters g) (g_stopping g \<or> g_oom g)" by blast+
qed

lemma admit_outputs: "admit_run name (g\<lparr>g_outputs := os\<rparr>) = admit_run name g" "evicted name (g\<lparr>g_outputs := os\<rparr>) = evicted name g"
  "guest_start env (g\<lparr>g_outputs := os\<rparr>) = guest_start env g"
  by (auto simp: admit_run_def evicted_def g_named_def oldestEnded_def guest_start_def split: option.splits)

lemma runProcess_ok:
  assumes "admit_run name g = Inr u" "re_output env" "guest_start env g = Inr pid"
    and "rest = (case evicted name g of Some i \<Rightarrow> delete_at i (g_procs g) | None \<Rightarrow> g_procs g)"
  shows "runProcess env name spec restart g =
    (changed (length rest) (keep_outputs (g\<lparr>g_outputs := List.insert name (g_outputs g), g_gens := Suc (g_gens g),
       g_procs := rest @ [new_proc name spec restart pid (re_now env) (Suc (g_gens g))]\<rparr>)), None)"
  using assms by (simp add: runProcess_def Let_def admit_outputs split: option.splits)

lemma runProcess_inv:
  assumes inv: "guest_inv g" and fresh: "fork_fresh env g" and name: "ValidProcessName name"
    and policy: "rpol_policy restart = RestartNo \<or> 0 < rpol_backoff restart"
  shows "guest_inv (fst (runProcess env name spec restart g))"
proof -
  consider e where "admit_run name g = Inl e" | u where "admit_run name g = Inr u" "\<not> re_output env"
    | u e where "admit_run name g = Inr u" "re_output env" "guest_start env g = Inl e"
    | u pid where "admit_run name g = Inr u" "re_output env" "guest_start env g = Inr pid"
    by (cases "admit_run name g"; cases "guest_start env g") blast+
  then show ?thesis
  proof cases
    case (4 u pid)
    define rest where "rest = (case evicted name g of Some i \<Rightarrow> delete_at i (g_procs g) | None \<Rightarrow> g_procs g)"
    let ?p = "new_proc name spec restart pid (re_now env) (Suc (g_gens g))"
    let ?g3 = "keep_outputs (g\<lparr>g_outputs := List.insert name (g_outputs g), g_gens := Suc (g_gens g), g_procs := rest @ [?p]\<rparr>)"
    have base: "guest_base g" and st: "statuses (g_oom g) g" using inv by (auto simp: guest_inv_iff)
    have ok: "is_ok (admit_run name g)" using 4 by simp
    note room = evicted_room [OF base ok rest_def]
    have pid: "0 < pid" "pid \<notin> set (g_waiters g)" "\<forall>p \<in> set (g_procs g). p_pid p \<noteq> pid"
      using fork_fresh_pid [OF fresh 4(3)] by auto
    have "guest_base ?g3"
      using base_append [OF room(4) room(1), of ?p] room(2,3) pid name by (auto simp: new_proc_def)
    then have b: "guest_base (changed (length rest) ?g3)" by (rule base_changed)
    have "status_ok (g_stopping g) (g_oom g) p" if "p \<in> set rest" for p
      using that room(3) inv by (auto simp: guest_inv_def)
    then have "statuses (g_oom g) (changed (length rest) ?g3)"
      using status_new [OF policy pid(1)] by (auto simp: statuses_def nth_append less_Suc_eq)
    then have "guest_inv (changed (length rest) ?g3)" using b by (simp add: guest_inv_iff)
    then show ?thesis using runProcess_ok [OF 4 rest_def] by simp
  qed (auto simp: runProcess_def Let_def admit_outputs inv intro!: guest_inv_same [OF inv])
qed

lemma parseRestart_ok:
  "parseRestart pol n b t = Inr r \<Longrightarrow> rpol_policy r = RestartNo \<or> 0 < rpol_backoff r"
  by (auto simp: parseRestart_def Let_def split: if_splits)

lemma runSpec_inv:
  assumes "guest_inv g" "fork_fresh env g"
  shows "guest_inv (fst (runSpec env cred home spec g))"
  using assms runProcess_inv [OF assms] parseRestart_ok
  by (auto simp: runSpec_def split: option.splits sum.splits)

lemma spawn_inv:
  assumes inv: "guest_inv g" and fresh: "fork_fresh env g"
  shows "guest_inv (fst (spawn env g))"
proof (cases "guest_start env g")
  case (Inr pid)
  let ?h = "g\<lparr>g_waiters := pid # g_waiters g\<rparr>"
  have "pids_ok (g_procs g) (pid # g_waiters g)"
    using fork_fresh_pid [OF fresh Inr] inv by (auto simp: guest_inv_iff base_ok_def pids_ok_def)
  then have "guest_inv ?h" using inv report_table_procs [of ?h g] by (simp add: guest_inv_iff base_ok_def statuses_def)
  then show ?thesis using Inr by (simp add: spawn_def)
qed (simp add: spawn_def inv)

lemma fire_inv:
  assumes inv: "guest_inv g" and d: "(d, w) \<in> set (g_armed g)"
  shows "guest_inv (g\<lparr>g_armed := remove1 (d, w) (g_armed g), g_due := g_due g @ [d]\<rparr>)"
proof -
  let ?p = "pending (g_armed g) (g_due g)"
    and ?q = "pending (remove1 (d, w) (g_armed g)) (g_due g @ [d])"
  have dis: "distinct ?p" using inv by (simp add: guest_inv_iff base_ok_def)
  obtain as bs where split: "g_armed g = as @ (d, w) # bs" "(d, w) \<notin> set as" using split_list_first [OF d] by blast
  then have "?p = map fst as @ d # map fst bs @ g_due g" "?q = map fst as @ map fst bs @ g_due g @ [d]"
    by (simp_all add: pending_def remove1_append)
  then have "set ?q = set ?p" "distinct ?q" using dis by auto
  then show ?thesis using inv report_table_procs [of "g\<lparr>g_armed := remove1 (d, w) (g_armed g), g_due := g_due g @ [d]\<rparr>" g]
    by (simp add: guest_inv_iff base_ok_def statuses_def)
qed

lemma freeze_inv: "guest_inv g \<Longrightarrow> guest_inv (g\<lparr>g_frozen := f\<rparr>)"
  by (erule guest_inv_same) simp_all

lemmas event_inv = runSpec_inv spawn_inv collect_inv fire_inv wake_inv stopProcess_inv guest_stop_inv freeze_inv

lemma guest_apply_inv: "guest_inv g \<Longrightarrow> guest_allows e g \<Longrightarrow> guest_inv (guest_apply e g)"
  by (cases e) (auto simp: guest_apply_def guest_allows_def intro: event_inv)

lemma guest_step_inv: "guest_inv g \<Longrightarrow> guest_step g h \<Longrightarrow> guest_inv h"
  by (auto elim: guest_step.cases intro: guest_apply_inv)

lemma new_guest_inv: "guest_inv (new_guest probed)"
  by (simp add: new_guest_def guest_inv_def base_ok_def pids_ok_def pending_def g_report_table_def)

interpretation supervisor: stepping "\<lambda>g. \<exists>probed. g = new_guest probed" guest_step guest_inv
  by unfold_locales (auto intro: new_guest_inv guest_step_inv)

end
