(* ===== verification/Supervision.thy ===== *)
theory Supervision
  imports Guest
begin

text \<open>
  What the supervisor of a sandbox promises, over every sequence of events the guest can receive: the
  table stays sound, a start again is never lost, a process that ended stays down, a crash loop gives
  up, and a stop ends the sandbox.
\<close>

subsection \<open>What an event leaves of each entry\<close>

text \<open>Every event but a run keeps the entries in their places. An entry that ended stays ended with
  no pid, and while the guest stops no entry takes a new pid.\<close>

definition calm :: "bool \<Rightarrow> proc \<Rightarrow> proc \<Rightarrow> bool" where
  "calm stopping p q =
     (p_name q = p_name p \<and> (p_ended p \<and> p_pid p = 0 \<longrightarrow> p_ended q \<and> p_pid q = 0)
      \<and> (stopping \<longrightarrow> p_pid q = p_pid p \<or> p_pid q = 0))"

abbreviation calm_list :: "bool \<Rightarrow> proc list \<Rightarrow> proc list \<Rightarrow> bool" where
  "calm_list stopping \<equiv> list_all2 (calm stopping)"

lemma calm_refl [simp]: "calm st p p"
  by (simp add: calm_def)

lemma calm_trans: "calm st p q \<Longrightarrow> calm st q r \<Longrightarrow> calm st p r"
  unfolding calm_def by auto

lemma calm_list_refl [simp]: "calm_list st ps ps"
  by (simp add: list_all2_refl)

lemma calm_list_trans: "calm_list st ps qs \<Longrightarrow> calm_list st qs rs \<Longrightarrow> calm_list st ps rs"
  by (rule list_all2_trans [of "calm st" "calm st" "calm st"]) (auto intro: calm_trans)

lemma calm_nth:
  "length qs = length ps \<Longrightarrow> (\<And>j. j < length ps \<Longrightarrow> calm st (ps ! j) (qs ! j)) \<Longrightarrow> calm_list st ps qs"
  by (simp add: list_all2_conv_all_nth)

lemma calm_update:
  "(i < length ps \<Longrightarrow> calm st (ps ! i) (f (ps ! i))) \<Longrightarrow> calm_list st ps (update_at i f ps)"
  by (rule calm_nth) auto

lemma calm_same: "map p_name qs = map p_name ps \<Longrightarrow> map p_pid qs = map p_pid ps \<Longrightarrow> map p_status qs = map p_status ps \<Longrightarrow>
  calm_list st ps qs"
proof (rule calm_nth)
  assume eq: "map p_name qs = map p_name ps" "map p_pid qs = map p_pid ps" "map p_status qs = map p_status ps"
  show len: "length qs = length ps" using eq(1) map_eq_imp_length_eq by blast
  fix j assume j: "j < length ps"
  have "p_name (qs ! j) = p_name (ps ! j)" "p_pid (qs ! j) = p_pid (ps ! j)" "p_status (qs ! j) = p_status (ps ! j)"
    using eq j len by (metis nth_map)+
  then show "calm st (ps ! j) (qs ! j)" by (simp add: calm_def p_ended_def)
qed

lemma exited_calm:
  assumes i: "i < length (g_procs g)" and pid: "p_pid (g_procs g ! i) \<noteq> 0"
  shows "calm_list st (g_procs g) (g_procs (exited now i d ex (on_proc i (\<lambda>p. p\<lparr>p_pid := 0\<rparr>) g)))"
proof (rule calm_nth)
  let ?g1 = "on_proc i (\<lambda>p. p\<lparr>p_pid := 0\<rparr>) g"
  have i1: "i < length (g_procs ?g1)" using i by simp
  note f = exited_procs [OF i1 refl refl, where now = now and pid = d and ex = ex]
  show "length (g_procs (exited now i d ex ?g1)) = length (g_procs g)" using f(1) by simp
  fix j assume "j < length (g_procs g)"
  then show "calm st (g_procs g ! j) (g_procs (exited now i d ex ?g1) ! j)"
    using f(2) [of j] f(3,4) pid i by (cases "j = i") (simp_all add: calm_def)
qed

lemma collect_loop_calm:
  "list_all (\<lambda>d. 0 < de_pid d) ds \<Longrightarrow> collect_loop probe now k ds (oom, reaped, g) = (oom', reaped', g') \<Longrightarrow>
   calm_list st (g_procs g) (g_procs g')"
proof (induction ds arbitrary: k oom reaped g)
  case (Cons d ds)
  define oom1 where "oom1 = (if es_Signal (de_exit d) = SIGKILL \<and> g_probed g \<and> \<not> oom then probe k else oom)"
  note step = Cons.prems(2) [unfolded collect_loop.simps Let_def, folded oom1_def]
  have pos: "0 < de_pid d" "list_all (\<lambda>d. 0 < de_pid d) ds" using Cons.prems(1) by auto
  note IH = Cons.IH [OF pos(2)]
  show ?case
  proof (cases "de_pid d \<in> set (g_waiters g)")
    case True
    let ?g1 = "g\<lparr>g_waiters := removeAll (de_pid d) (g_waiters g), g_exits := (de_pid d, de_exit d) # g_exits g\<rparr>"
    have "collect_loop probe now (Suc k) ds (oom1, reaped, ?g1) = (oom', reaped', g')" using step True by simp
    from IH [OF this] show ?thesis by simp
  next
    case exec: False
    show ?thesis
    proof (cases "byPID (de_pid d) g")
      case None
      then have "collect_loop probe now (Suc k) ds (oom1, reaped, g) = (oom', reaped', g')" using step exec by simp
      from IH [OF this] show ?thesis .
    next
      case (Some i)
      from byPID_Some [OF Some] have i: "i < length (g_procs g)" and p: "p_pid (g_procs g ! i) \<noteq> 0" using pos(1) by auto
      let ?g1 = "on_proc i (\<lambda>p. p\<lparr>p_pid := 0\<rparr>) g"
      let ?g2 = "if oom1 then release i (killGroup (de_pid d) ?g1) else exited now i (de_pid d) (de_exit d) ?g1"
      have "calm_list st (g_procs g) (g_procs (release i (killGroup (de_pid d) ?g1)))"
        by (rule calm_nth) (use p in \<open>auto simp: kill_signal calm_def p_ended_def\<close>)
      with exited_calm [OF i p] have "calm_list st (g_procs g) (g_procs ?g2)" by simp
      moreover have "collect_loop probe now (Suc k) ds (oom1, True, ?g2) = (oom', reaped', g')"
        using step exec Some by (cases oom1) simp_all
      ultimately show ?thesis using IH calm_list_trans by blast
    qed
  qed
qed simp

lemma stop_timers_calm: "calm_list st (g_procs g) (g_procs (stop_timers g))"
proof -
  have "calm_list st ps (g_procs h) \<Longrightarrow> calm_list st ps (g_procs (fold stopTimer is h))" for ps h "is"
  proof (induction "is" arbitrary: h)
    case (Cons i "is")
    have "calm_list st (g_procs h) (g_procs (stopTimer i h))"
      unfolding stopTimer_fields by (rule calm_update) (simp add: calm_def p_ended_def)
    then show ?case using Cons.IH [of "stopTimer i h"] calm_list_trans [OF Cons.prems] by simp
  qed simp
  from this [of "g_procs g" g] show ?thesis by (simp add: stop_timers_def)
qed

lemma collect_calm:
  assumes "list_all (\<lambda>d. 0 < de_pid d) ds"
  shows "calm_list st (g_procs g) (g_procs (fst (collect probe now ds g)))"
proof -
  obtain oom reaped g1 where loop: "collect_loop probe now 0 ds (False, False, g) = (oom, reaped, g1)"
    by (metis surj_pair)
  have loop_calm: "calm_list st (g_procs g) (g_procs g1)" by (rule collect_loop_calm [OF assms loop])
  then show ?thesis
    using calm_list_trans [OF loop_calm stop_timers_calm] loop by (cases oom) (simp_all add: collect_def)
qed

lemma signal_all_calm: "calm_list st (g_procs g) (g_procs (signal_all sig g))"
proof -
  let ?f = "\<lambda>i h. let h1 = stopTimer i h; pid = p_pid (g_procs h1 ! i) in if pid \<noteq> 0 then signalGroup pid sig h1 else h1"
  have "calm_list st ps (g_procs h) \<Longrightarrow> calm_list st ps (g_procs (fold ?f is h))" for ps h "is"
  proof (induction "is" arbitrary: h)
    case (Cons i "is")
    have "g_procs (?f i h) = g_procs (stopTimer i h)" unfolding Let_def by simp
    moreover have "calm_list st (g_procs h) (g_procs (stopTimer i h))"
      unfolding stopTimer_fields by (rule calm_update) (simp add: calm_def p_ended_def)
    ultimately have "calm_list st ps (g_procs (?f i h))" using calm_list_trans [OF Cons.prems] by simp
    from Cons.IH [OF this] show ?case by simp
  qed simp
  from this [of "g_procs g" g] show ?thesis by (simp add: signal_all_def)
qed

lemma stopProcess_calm: "calm_list st (g_procs g) (g_procs (stopProcess req name grace g))"
proof (cases "g_named name g")
  case (Some i)
  show ?thesis
    by (rule calm_nth)
      (use Some g_named_Some [OF Some] in \<open>auto simp: stopProcess_def Let_def calm_def p_ended_def Ended_def\<close>)
qed (simp add: stopProcess_def)

lemma wake_shape:
  assumes inv: "guest_inv g" and i: "i < length (g_procs g)" and t: "p_timer (g_procs g ! i) = Some d"
    and live: "\<not> g_stopping g" "\<not> g_oom g" and h: "h = wake env d (g\<lparr>g_due := remove1 d (g_due g)\<rparr>)"
  shows "length (g_procs h) = length (g_procs g) \<and> (\<forall>j < length (g_procs g). j \<noteq> i \<longrightarrow> g_procs h ! j = g_procs g ! j)
     \<and> p_name (g_procs h ! i) = p_name (g_procs g ! i)"
proof -
  note w = wake_cases [OF inv i t live h refl refl]
  consider "td_kill d" "p_pid (g_procs g ! i) \<noteq> 0" | "td_kill d" "p_pid (g_procs g ! i) = 0"
    | "\<not> td_kill d" "g_frozen g \<noteq> None"
    | pid where "\<not> td_kill d" "g_frozen g = None" "re_workdir env" "re_fork env = Inr pid"
    | e where "\<not> td_kill d" "g_frozen g = None" "\<not> re_workdir env \<or> re_fork env = Inl e"
    by (cases "re_fork env") blast+
  then show ?thesis
  proof cases
    case 1 then show ?thesis using i unfolding w(1) [OF 1] by (simp add: kill_signal)
  next
    case 2 then show ?thesis using i unfolding w(2) [OF 2] by simp
  next
    case 3 then show ?thesis using i unfolding w(3) [OF 3] by simp
  next
    case 4 then show ?thesis using i unfolding w(4) [OF 4] by (simp add: started_again_def)
  next
    case 5 then show ?thesis using i unfolding w(5) [OF 5] by simp
  qed
qed

lemma wake_calm:
  assumes inv: "guest_inv g" and d: "d \<in> set (g_due g)"
  shows "calm_list (g_stopping g) (g_procs g) (g_procs (wake env d (g\<lparr>g_due := remove1 d (g_due g)\<rparr>)))"
proof -
  consider "g_stopping g \<or> g_oom g" | "\<forall>p \<in> set (g_procs g). p_timer p \<noteq> Some d"
    | i where "\<not> g_stopping g" "\<not> g_oom g" "i < length (g_procs g)" "p_timer (g_procs g ! i) = Some d"
    by (metis in_set_conv_nth)
  then show ?thesis
  proof cases
    case 1
    then show ?thesis by (auto simp: wake_def split: option.splits)
  next
    case 2
    then show ?thesis using wake_stale [OF inv d] by simp
  next
    case (3 i)
    have "status_ok (g_stopping g) (g_oom g) (g_procs g ! i)" using inv 3(3) by (simp add: guest_inv_def)
    then have live: "\<not> p_ended (g_procs g ! i)"
      using 3(4) by (auto simp: status_ok_def Let_def p_ended_def Ended_def split: if_splits)
    note shape = wake_shape [OF inv 3(3,4,1,2)]
    show ?thesis
    proof (rule calm_nth)
      show "length (g_procs (wake env d (g\<lparr>g_due := remove1 d (g_due g)\<rparr>))) = length (g_procs g)"
        using shape [OF refl] by simp
      fix j assume j: "j < length (g_procs g)"
      show "calm (g_stopping g) (g_procs g ! j) (g_procs (wake env d (g\<lparr>g_due := remove1 d (g_due g)\<rparr>)) ! j)"
      proof (cases "j = i")
        case True
        then show ?thesis using shape [OF refl] live 3(1) by (simp add: calm_def)
      next
        case False
        then show ?thesis using shape [OF refl] j by (metis calm_refl)
      qed
    qed
  qed
qed

definition runs_name :: "guest_event \<Rightarrow> string \<Rightarrow> bool" where
  "runs_name e name = (case e of GRun env cred home spec \<Rightarrow> run_Name spec = name | _ \<Rightarrow> False)"

lemma apply_calm:
  assumes inv: "guest_inv g" and allows: "guest_allows e g" and other: "\<And>env cred home spec. e \<noteq> GRun env cred home spec"
  shows "calm_list (g_stopping g) (g_procs g) (g_procs (guest_apply e g))"
proof (cases e)
  case (GCollect probe now ds)
  then show ?thesis using allows collect_calm by (simp add: guest_apply_def guest_allows_def)
next
  case (GStop fails sig)
  have "calm_list (g_stopping g) (g_procs g) (g_procs (signal_all sig (g\<lparr>g_stopping := True\<rparr>)))"
    using signal_all_calm [of "g_stopping g" "g\<lparr>g_stopping := True\<rparr>" sig] by simp
  then show ?thesis using GStop by (simp add: guest_apply_def guest_stop_def Let_def)
qed (use allows wake_calm [OF inv] stopProcess_calm other in
      \<open>auto simp: guest_apply_def guest_allows_def spawn_def split: sum.splits\<close>)

text \<open>The entries a run leaves: what the table held, or the new entry of the name it runs.\<close>

lemma runSpec_entries:
  assumes "q \<in> set (g_procs (fst (runSpec env cred home spec g)))"
  shows "q \<in> set (g_procs g) \<or> p_name q = run_Name spec"
proof -
  have "q \<in> set (g_procs g) \<or> p_name q = name"
    if "q \<in> set (g_procs (fst (runProcess env name sp restart g)))" for name sp restart
  proof (cases "admit_run name g")
    case (Inr u)
    show ?thesis
    proof (cases "re_output env \<and> is_ok (guest_start env g)")
      case True
      then obtain pid where pid: "guest_start env g = Inr pid" by (auto simp: is_ok_iff)
      define rest where "rest = (case evicted name g of Some i \<Rightarrow> delete_at i (g_procs g) | None \<Rightarrow> g_procs g)"
      have "set rest \<subseteq> set (g_procs g)" unfolding rest_def by (auto split: option.splits dest: subsetD [OF set_delete_at])
      with that show ?thesis using runProcess_ok [OF Inr _ pid rest_def] True
        by (auto simp: new_proc_def dest!: update_at_mem)
    next
      case False
      then show ?thesis using that Inr
        by (cases "guest_start env g") (auto simp: runProcess_def Let_def admit_outputs split: if_splits)
    qed
  qed (use that in \<open>simp add: runProcess_def\<close>)
  then show ?thesis using assms by (auto simp: runSpec_def split: option.splits sum.splits if_splits)
qed

lemma runSpec_stopping: "g_stopping g \<Longrightarrow> fst (runSpec env cred home spec g) = g"
  by (auto simp: runSpec_def runProcess_def admit_run_def split: option.splits sum.splits)

text \<open>A sequence of events.\<close>

inductive guest_trace :: "guest_event list \<Rightarrow> guest \<Rightarrow> guest \<Rightarrow> bool" where
  trace_nil: "guest_trace [] g g"
| trace_step: "guest_allows e g \<Longrightarrow> guest_trace es (guest_apply e g) h \<Longrightarrow> guest_trace (e # es) g h"

inductive_cases guest_trace_NilE: "guest_trace [] g h"
inductive_cases guest_trace_ConsE: "guest_trace (e # es) g h"

definition down :: "string \<Rightarrow> guest \<Rightarrow> bool" where
  "down name g = (\<forall>p \<in> set (g_procs g). p_name p = name \<longrightarrow> p_ended p \<and> p_pid p = 0)"

lemma apply_down:
  assumes "guest_inv g" "guest_allows e g" "\<not> runs_name e name" "down name g"
  shows "down name (guest_apply e g)"
proof (cases "\<exists>env cred home spec. e = GRun env cred home spec")
  case True
  then obtain env cred home spec where e: "e = GRun env cred home spec" by blast
  then have "run_Name spec \<noteq> name" using assms(3) by (simp add: runs_name_def)
  then show ?thesis using assms(4) e unfolding down_def
    by (auto simp: guest_apply_def dest!: runSpec_entries)
next
  case False
  then have calm: "calm_list (g_stopping g) (g_procs g) (g_procs (guest_apply e g))"
    using apply_calm [OF assms(1,2)] by blast
  show ?thesis unfolding down_def
  proof (intro ballI impI)
    fix q assume "q \<in> set (g_procs (guest_apply e g))" and n: "p_name q = name"
    then obtain p where "p \<in> set (g_procs g)" "calm (g_stopping g) p q"
      using calm by (metis (no_types, lifting) in_set_conv_nth list_all2_conv_all_nth)
    then show "p_ended q \<and> p_pid q = 0" using assms(4) n by (auto simp: down_def calm_def)
  qed
qed

lemma trace_inv: "guest_trace es g h \<Longrightarrow> guest_inv g \<Longrightarrow> guest_inv h"
  by (induction rule: guest_trace.induct) (auto intro: guest_apply_inv)

lemma trace_down:
  "guest_trace es g h \<Longrightarrow> guest_inv g \<Longrightarrow> \<forall>e \<in> set es. \<not> runs_name e name \<Longrightarrow> down name g \<Longrightarrow> down name h"
  by (induction rule: guest_trace.induct) (auto intro: guest_apply_inv apply_down)

fun guest_allowed :: "guest_event list \<Rightarrow> guest \<Rightarrow> bool" where
  "guest_allowed [] g = True"
| "guest_allowed (e # es) g = (guest_allows e g \<and> guest_allowed es (guest_apply e g))"

lemma guest_trace_iff: "guest_trace es g h \<longleftrightarrow> guest_allowed es g \<and> h = fold guest_apply es g"
  by (induction es arbitrary: g) (auto intro: guest_trace.intros elim: guest_trace_NilE guest_trace_ConsE)

lemma trace_steps: "guest_trace es g h \<Longrightarrow> guest_step\<^sup>*\<^sup>* g h"
  by (induction rule: guest_trace.induct) (auto intro: guest_step.event converse_rtranclp_into_rtranclp)

lemma reached_inv: "guest_trace es (new_guest probed) g \<Longrightarrow> guest_inv g"
  using supervisor.reach_inv trace_steps by blast

lemma pids_distinct:
  assumes "pids_ok ps ws"
  shows "distinct (filter (\<lambda>n. n \<noteq> 0) (map p_pid ps) @ ws)"
proof -
  have "distinct (filter (\<lambda>n. n \<noteq> 0) ns)" if "\<forall>i < length ns. \<forall>j < length ns. ns ! i \<noteq> 0 \<longrightarrow> ns ! i = ns ! j \<longrightarrow> i = j"
    for ns :: "int list"
    using that
  proof (induction ns)
    case (Cons n ns)
    have "distinct (filter (\<lambda>n. n \<noteq> 0) ns)" using Cons.prems by (intro Cons.IH) force
    moreover have "n \<noteq> 0 \<Longrightarrow> n \<notin> set ns" using Cons.prems by (force simp: in_set_conv_nth)
    ultimately show ?case by auto
  qed simp
  from this [of "map p_pid ps"] show ?thesis using assms by (auto simp: pids_ok_def)
qed

subsection \<open>Properties\<close>

text \<open>C28: Whatever the guest was asked, and whatever died or came due in whatever order, its table holds at
  most 16 processes of distinct valid names, no two children share a pid, and the table last reported
  is the table as it stands. A process has a pid exactly while its status says running, unless the
  memory bound took the guest; a stop request waits only for a live process; and the starts again
  since the last healthy run never pass the retries of the policy.\<close>

theorem guest_table_sound:
  assumes "guest_trace es (new_guest probed) g"
  shows "distinct (map p_name (g_procs g)) \<and> length (g_procs g) \<le> MaxProcesses \<and> distinct (child_pids g)
    \<and> g_table g = map proc_report (g_procs g)
    \<and> (\<forall>p \<in> set (g_procs g). ValidProcessName (p_name p)
         \<and> (p_pid p \<noteq> 0 \<longrightarrow> ps_State (p_status p) = ProcessRunning)
         \<and> (ps_State (p_status p) = ProcessRunning \<longrightarrow> p_pid p \<noteq> 0 \<or> g_oom g)
         \<and> (p_reaped p \<noteq> [] \<longrightarrow> p_pid p \<noteq> 0)
         \<and> (limited (p_restart p) \<longrightarrow> p_count p \<le> rpol_retries (p_restart p)))"
proof -
  have inv: "guest_inv g" by (rule reached_inv [OF assms])
  then have "distinct (child_pids g)" using pids_distinct [of "g_procs g" "g_waiters g"] by (simp add: guest_inv_def base_ok_def child_pids_def)
  with inv show ?thesis
    by (simp add: guest_inv_def base_ok_def list_all_iff status_ok_def Let_def g_report_table_def)
qed

definition example_run :: "run_spec" where
  "example_run = \<lparr>run_Name = ''web'', run_Argv = [''serve''], run_WorkDir = '''', run_Restart = RestartOnFailure,
     run_Retries = 2, run_Backoff = second, run_Reset = 0\<rparr>"

definition example_kernel :: "guest \<Rightarrow> run_env" where
  "example_kernel g = \<lparr>re_now = 0, re_workdir = True, re_output = True, re_fork = Inr (1 + fold max (child_pids g) 1)\<rparr>"

definition example_crash :: exit_status where
  "example_crash = \<lparr>es_Code = 1, es_Signal = 0\<rparr>"

definition example_guest :: guest where
  "example_guest = fst (runSpec (example_kernel (new_guest False)) (Some None) (Some []) example_run (new_guest False))"

definition example_start :: guest_event where
  "example_start = GRun (example_kernel (new_guest False)) (Some None) (Some []) example_run"

lemma example_trace: "guest_trace [example_start] (new_guest False) example_guest"
  unfolding guest_trace_iff by code_simp

theorem guest_table_sound_witness:
  "guest_trace [example_start] (new_guest False) example_guest \<and> length (g_procs example_guest) \<le> MaxProcesses"
  using guest_table_sound [OF example_trace] example_trace by blast

text \<open>C29: A start again is never lost. Whenever a process waits to start again and the guest neither stops
  nor ran out of memory, the timer of that start is armed or on its way: once the sandbox is thawed and
  that timer fires, receiving it starts the process, with whatever pid the fork answers, and counts it.\<close>

theorem restart_never_lost:
  assumes "guest_trace es (new_guest probed) g" "i < length (g_procs g)"
    and "ps_State (p_status (g_procs g ! i)) = ProcessRestarting" "\<not> g_stopping g" "\<not> g_oom g"
    and "fork_fresh env g" "re_workdir env" "re_fork env = Inr pid"
  shows "\<exists>d w fires h. set fires \<subseteq> {GThaw, GFire d w} \<and> td_name d = p_name (g_procs g ! i)
    \<and> guest_trace (fires @ [GWake env d]) g h \<and> p_name (g_procs h ! i) = p_name (g_procs g ! i)
    \<and> p_pid (g_procs h ! i) = pid \<and> ps_State (p_status (g_procs h ! i)) = ProcessRunning
    \<and> ps_Restarts (p_status (g_procs h ! i)) = ps_Restarts (p_status (g_procs g ! i)) + 1"
proof -
  have inv: "guest_inv g" by (rule reached_inv [OF assms(1)])
  note i = assms(2)
  have st: "status_ok (g_stopping g) (g_oom g) (g_procs g ! i)" using inv i by (simp add: guest_inv_def)
  then obtain d where t: "p_timer (g_procs g ! i) = Some d" and kill: "\<not> td_kill d"
    using assms(3-5) by (auto simp: status_ok_def Let_def split: if_splits)
  have "timer_ok (g_stopping g \<or> g_oom g) (set (pending (g_armed g) (g_due g))) (g_gens g) (g_procs g ! i)"
    using inv i by (simp add: guest_inv_iff base_ok_def)
  from timer_ok_held [OF this t] have d: "d \<in> set (pending (g_armed g) (g_due g))" "td_name d = p_name (g_procs g ! i)"
    using assms(4,5) by auto
  have "\<exists>w. d \<notin> set (g_due g) \<longrightarrow> (d, w) \<in> set (g_armed g)" using d(1) by (force simp: pending_def)
  then obtain w where w: "d \<notin> set (g_due g) \<longrightarrow> (d, w) \<in> set (g_armed g)" by blast
  define fires where "fires = GThaw # (if d \<in> set (g_due g) then [] else [GFire d w])"
  define g1 where "g1 = fold guest_apply fires g"
  have ok: "guest_allowed fires g" using w by (auto simp: fires_def guest_allows_def guest_apply_def)
  have g1: "g_procs g1 = g_procs g" "d \<in> set (g_due g1)" "g_frozen g1 = None" "\<not> g_stopping g1" "\<not> g_oom g1"
    "g_waiters g1 = g_waiters g"
    using assms(4,5) by (auto simp: g1_def fires_def guest_apply_def)
  have inv1: "guest_inv g1" using trace_inv [of fires g g1] inv ok by (simp add: guest_trace_iff g1_def)
  have "child_pids g1 = child_pids g" using g1 by (simp add: child_pids_def)
  then have fresh: "fork_fresh env g1" using assms(6,8) by (simp add: fork_fresh_def)
  define h where "h = guest_apply (GWake env d) g1"
  have "h = changed i (on_proc i (started_again pid) (on_proc i (\<lambda>p. p\<lparr>p_runStartedAt := re_now env\<rparr>) (received i d g1)))"
    using wake_cases(4) [OF inv1, of i d h env, OF _ _ g1(4,5) _ refl refl kill g1(3) assms(7,8)] i t g1(1)
    by (simp add: h_def guest_apply_def)
  then have "p_name (g_procs h ! i) = p_name (g_procs g ! i) \<and> p_pid (g_procs h ! i) = pid
    \<and> ps_State (p_status (g_procs h ! i)) = ProcessRunning
    \<and> ps_Restarts (p_status (g_procs h ! i)) = ps_Restarts (p_status (g_procs g ! i)) + 1"
    using i g1(1) by (simp add: started_again_def)
  moreover have "guest_trace (fires @ [GWake env d]) g h"
  proof -
    have "guest_allowed (as @ bs) g' \<longleftrightarrow> guest_allowed as g' \<and> guest_allowed bs (fold guest_apply as g')" for as bs g'
      by (induction as arbitrary: g') auto
    then show ?thesis using ok g1(2) fresh by (simp add: guest_trace_iff h_def g1_def guest_allows_def)
  qed
  moreover have "set fires \<subseteq> {GThaw, GFire d w}" by (auto simp: fires_def)
  ultimately show ?thesis using d(2) by blast
qed

definition example_death :: guest_event where
  "example_death = GCollect (\<lambda>_. False) 5 [\<lparr>de_pid = 2, de_exit = example_crash\<rparr>]"

definition example_waiting :: guest where
  "example_waiting = guest_apply example_death example_guest"

lemma example_waiting_trace: "guest_trace [example_start, example_death] (new_guest False) example_waiting"
  unfolding guest_trace_iff by code_simp

theorem restart_never_lost_witness:
  "\<exists>d fires h. guest_trace (fires @ [GWake (example_kernel example_waiting) d]) example_waiting h
     \<and> p_pid (g_procs h ! 0) = 2 \<and> ps_State (p_status (g_procs h ! 0)) = ProcessRunning"
proof -
  have "0 < length (g_procs example_waiting)" "ps_State (p_status (g_procs example_waiting ! 0)) = ProcessRestarting"
    "\<not> g_stopping example_waiting" "\<not> g_oom example_waiting" "fork_fresh (example_kernel example_waiting) example_waiting"
    "re_workdir (example_kernel example_waiting)" "re_fork (example_kernel example_waiting) = Inr 2"
    by code_simp+
  from restart_never_lost [OF example_waiting_trace this] show ?thesis by blast
qed

text \<open>C30: A process that ended stays down. Once a process of the table exited for good, was killed, gave up or
  was stopped, no firing still on its way, no death and no stop starts it again: until the name is run
  again it has no pid and its status stays one that ended.\<close>

theorem ended_stays_down:
  assumes "guest_trace es (new_guest probed) g" "p \<in> set (g_procs g)" "p_ended p"
    and "guest_trace later g h" "\<forall>e \<in> set later. \<not> runs_name e (p_name p)"
  shows "\<forall>q \<in> set (g_procs h). p_name q = p_name p \<longrightarrow> p_ended q \<and> p_pid q = 0"
proof -
  have inv: "guest_inv g" by (rule reached_inv [OF assms(1)])
  have "q = p" if "q \<in> set (g_procs g)" "p_name q = p_name p" for q
    using inj_onD [of p_name "set (g_procs g)" q p] inv that assms(2)
    by (simp add: guest_inv_def base_ok_def distinct_map)
  moreover have "status_ok (g_stopping g) (g_oom g) p" using inv assms(2) by (simp add: guest_inv_def)
  then have "p_pid p = 0" using assms(3) unfolding status_ok_def Let_def p_ended_def Ended_def by force
  ultimately have "down (p_name p) g" using assms(3) by (auto simp: down_def)
  from trace_down [OF assms(4) inv assms(5) this] show ?thesis by (simp add: down_def)
qed

definition example_stop :: guest_event where
  "example_stop = GStopProcess 1 ''web'' 0"

text \<open>The process waits to start again with its timer fired and undelivered when the stop comes.\<close>

definition example_stopped :: guest where
  "example_stopped = fold guest_apply
     [GFire \<lparr>td_name = ''web'', td_gen = 2, td_kill = False\<rparr> second, example_stop] example_waiting"

theorem ended_stays_down_witness:
  "down ''web'' (guest_apply (GWake (example_kernel example_stopped) \<lparr>td_name = ''web'', td_gen = 2, td_kill = False\<rparr>)
     example_stopped)"
proof -
  let ?d = "\<lparr>td_name = ''web'', td_gen = 2, td_kill = False\<rparr>"
  let ?es = "[example_start, example_death, GFire ?d second, example_stop]"
  have t: "guest_trace ?es (new_guest False) example_stopped" unfolding guest_trace_iff by code_simp
  let ?p = "hd (g_procs example_stopped)"
  have p: "?p \<in> set (g_procs example_stopped)" by code_simp
  have e: "p_ended ?p" by code_simp
  have name: "p_name ?p = ''web''" by code_simp
  have l: "guest_trace [GWake (example_kernel example_stopped) ?d] example_stopped
     (guest_apply (GWake (example_kernel example_stopped) ?d) example_stopped)"
    unfolding guest_trace_iff by code_simp
  show ?thesis using ended_stays_down [OF t p e l] name by (simp add: runs_name_def down_def)
qed

text \<open>The wait before a start again is the policy's backoff doubled once per start again since the last
  healthy run, and never more than the cap of one minute; the doubling never overflows its 64 bits.\<close>

lemma restart_wait_doubles:
  assumes "0 < rpol_backoff r" "0 \<le> started"
  shows "restart_wait r started = doubled backoffCap (rpol_backoff r) (nat started)
    \<and> 0 < restart_wait r started \<and> restart_wait r started \<le> RestartBackoffCap * second"
proof -
  have eq: "restart_wait r started = doubled backoffCap (rpol_backoff r) (nat started)"
    using wait_loop_doubled [OF assms(1)] by (simp add: restart_wait_def)
  then show ?thesis using doubled_pos [OF assms(1), of backoffCap] doubled_cap [of backoffCap]
    by (simp add: backoffCap_value) (simp add: backoffCap_def [symmetric] backoffCap_value RestartBackoffCap_def second_def)
qed

lemma pids_inj:
  "guest_base g \<Longrightarrow> i < length (g_procs g) \<Longrightarrow> j < length (g_procs g) \<Longrightarrow> p_pid (g_procs g ! i) \<noteq> 0 \<Longrightarrow>
   p_pid (g_procs g ! i) = p_pid (g_procs g ! j) \<Longrightarrow> i = j"
  unfolding base_ok_def pids_ok_def by blast

lemma byPID_inv:
  assumes inv: "guest_base g" and i: "i < length (g_procs g)" and pid: "p_pid (g_procs g ! i) \<noteq> 0"
  shows "byPID (p_pid (g_procs g ! i)) g = Some i" "p_pid (g_procs g ! i) \<notin> set (g_waiters g)" "0 < p_pid (g_procs g ! i)"
proof -
  have ok: "pids_ok (g_procs g) (g_waiters g)" using inv by (simp add: base_ok_def)
  show "p_pid (g_procs g ! i) \<notin> set (g_waiters g)" "0 < p_pid (g_procs g ! i)"
    using ok i pid unfolding pids_ok_def by (meson nth_mem)+
  show "byPID (p_pid (g_procs g ! i)) g = Some i"
  proof (cases "byPID (p_pid (g_procs g ! i)) g")
    case None
    then show ?thesis using i by (auto simp: byPID_def IndexFunc_None)
  next
    case (Some j)
    from byPID_Some [OF Some] i pid have "j = i" by (intro pids_inj [OF inv]) auto
    with Some show ?thesis by simp
  qed
qed

subsection \<open>A process that keeps failing\<close>

text \<open>One round of a process that exits with \<open>ex\<close> after a run of length \<open>lasted\<close>: it is reaped, and if its
  policy starts it again, its timer fires and is received. \<open>forks\<close> is what each fork answers.\<close>

definition crash_round :: "(guest \<Rightarrow> run_env) \<Rightarrow> exit_status \<Rightarrow> time \<Rightarrow> nat \<Rightarrow> guest \<Rightarrow> guest" where
  "crash_round forks ex lasted i g =
     (let p = g_procs g ! i;
          g1 = guest_apply (GCollect (\<lambda>_. False) (p_runStartedAt p + lasted) [\<lparr>de_pid = p_pid p, de_exit = ex\<rparr>]) g
      in case p_timer (g_procs g1 ! i) of
           None \<Rightarrow> g1
         | Some d \<Rightarrow>
             (case map_of (g_armed g1) d of
                None \<Rightarrow> g1
              | Some w \<Rightarrow> guest_apply (GWake (forks g1) d) (guest_apply (GFire d w) g1)))"

definition crash_ready :: "restartPolicy \<Rightarrow> nat \<Rightarrow> guest \<Rightarrow> bool" where
  "crash_ready r i g =
     (guest_inv g \<and> i < length (g_procs g) \<and> p_pid (g_procs g ! i) \<noteq> 0 \<and> \<not> p_stopping (g_procs g ! i)
      \<and> p_restart (g_procs g ! i) = r \<and> \<not> g_stopping g \<and> \<not> g_oom g \<and> g_frozen g = None)"

lemma crash_collect:
  assumes "crash_ready r i g" and p: "p = g_procs g ! i"
  shows "guest_apply (GCollect (\<lambda>_. False) now [\<lparr>de_pid = p_pid p, de_exit = ex\<rparr>]) g
     = exited now i (p_pid p) ex (on_proc i (\<lambda>p. p\<lparr>p_pid := 0\<rparr>) g)"
    and "guest_allows (GCollect (\<lambda>_. False) now [\<lparr>de_pid = p_pid p, de_exit = ex\<rparr>]) g"
proof -
  have base: "guest_base g" and i: "i < length (g_procs g)" and pid: "p_pid (g_procs g ! i) \<noteq> 0"
    using assms by (auto simp: crash_ready_def guest_inv_def)
  note b = byPID_inv [OF base i pid]
  then show "guest_apply (GCollect (\<lambda>_. False) now [\<lparr>de_pid = p_pid p, de_exit = ex\<rparr>]) g
     = exited now i (p_pid p) ex (on_proc i (\<lambda>p. p\<lparr>p_pid := 0\<rparr>) g)"
    by (simp add: guest_apply_def collect_def p)
  show "guest_allows (GCollect (\<lambda>_. False) now [\<lparr>de_pid = p_pid p, de_exit = ex\<rparr>]) g"
    using b(3) by (simp add: guest_allows_def p)
qed

lemma crash_exit:
  assumes ready: "crash_ready r i g" and p: "p = g_procs g ! i" and applies: "applies r ex"
    and short: "lasted < rpol_reset r"
    and g1: "g1 = guest_apply (GCollect (\<lambda>_. False) (p_runStartedAt p + lasted) [\<lparr>de_pid = p_pid p, de_exit = ex\<rparr>]) g"
    and q: "q = g_procs g1 ! i"
  shows "guest_inv g1" "length (g_procs g1) = length (g_procs g)" "p_pid q = 0" "p_restart q = r" "p_count q = p_count p"
    and "p_name q = p_name p" "\<not> p_stopping q" "\<not> g_stopping g1" "\<not> g_oom g1" "g_frozen g1 = None" "g_due g1 = g_due g"
    and "ps_Restarts (p_status q) = ps_Restarts (p_status p)"
    and "ps_State (p_status q) = (if limited r \<and> rpol_retries r \<le> p_count p then ProcessGaveUp else ProcessRestarting)"
    and "\<not> (limited r \<and> rpol_retries r \<le> p_count p) \<Longrightarrow>
           p_timer q = Some \<lparr>td_name = p_name p, td_gen = Suc (g_gens g), td_kill = False\<rparr>"
    and "limited r \<and> rpol_retries r \<le> p_count p \<Longrightarrow> p_timer q = None"
proof -
  let ?g0 = "on_proc i (\<lambda>p. p\<lparr>p_pid := 0\<rparr>) g" and ?now = "p_runStartedAt p + lasted"
  have inv: "guest_inv g" and i: "i < length (g_procs g)" and st: "\<not> g_stopping g" "\<not> g_oom g" "g_frozen g = None"
    and rp: "p_restart p = r" "\<not> p_stopping p" using ready by (auto simp: crash_ready_def p)
  have eq: "g1 = exited ?now i (p_pid p) ex ?g0" using crash_collect(1) [OF ready p] by (simp add: g1)
  have i0: "i < length (g_procs ?g0)" using i by simp
  have p0: "g_procs ?g0 ! i = p\<lparr>p_pid := 0\<rparr>" using i by (simp add: p)
  have count: "exit_count ?now p = p_count p" using short rp by (simp add: exit_count_def)
  have count0: "exit_count ?now (p\<lparr>p_pid := 0\<rparr>) = p_count p" using count by simp
  note f = exited_procs [OF i0 p0 [symmetric] eq]
  have state: "exit_state (g_stopping ?g0) ?now ex (p\<lparr>p_pid := 0\<rparr>) =
      (if limited r \<and> rpol_retries r \<le> p_count p then ProcessGaveUp else ProcessRestarting)"
    using st rp count0 applies by (simp add: exit_state_def restart_next_def)
  show "guest_inv g1" using guest_apply_inv [OF inv crash_collect(2) [OF ready p]] by (simp add: g1)
  show "length (g_procs g1) = length (g_procs g)" "p_pid q = 0" "p_restart q = r" "p_count q = p_count p" "p_name q = p_name p"
    using f(1,3,4,6,10) rp st count0 by (simp_all add: q)
  show "\<not> g_stopping g1" "\<not> g_oom g1" "g_frozen g1 = None" "g_due g1 = g_due g" using st by (simp_all add: eq)
  show "ps_State (p_status q) = (if limited r \<and> rpol_retries r \<le> p_count p then ProcessGaveUp else ProcessRestarting)"
    using f(8) state by (simp add: q)
  show "\<not> (limited r \<and> rpol_retries r \<le> p_count p) \<Longrightarrow>
      p_timer q = Some \<lparr>td_name = p_name p, td_gen = Suc (g_gens g), td_kill = False\<rparr>"
    and "limited r \<and> rpol_retries r \<le> p_count p \<Longrightarrow> p_timer q = None"
    using f(11) state by (simp_all add: q)
  obtain w s where ws: "restart_next (p_restart p) ex (p_count p) = (w, s)" by (metis surj_pair)
  have pol: "g1 = (let g3 = on_proc i (\<lambda>p. set_state s (p\<lparr>p_count := exit_count ?now (g_procs ?g0 ! i)\<rparr>))
                 (signalGroup (p_pid p) SIGKILL (exit_begin i ex ?g0))
      in release i (changed i (if s = ProcessRestarting then arm i w False g3 else g3)))"
    unfolding eq by (rule exited_policy [OF i0]) (use st rp p0 ws count0 in simp_all)
  then show "\<not> p_stopping q" "ps_Restarts (p_status q) = ps_Restarts (p_status p)"
    using i p0 rp by (cases "s = ProcessRestarting"; simp add: q p Let_def)+
qed

lemma crash_round_restarts:
  assumes ready: "crash_ready r i g" and applies: "applies r ex" and short: "lasted < rpol_reset r"
    and forks: "\<And>h. fork_fresh (forks h) h \<and> re_workdir (forks h) \<and> is_ok (re_fork (forks h))"
    and more: "limited r" "p_count (g_procs g ! i) < rpol_retries r" and h: "h = crash_round forks ex lasted i g"
  shows "crash_ready r i h" "p_count (g_procs h ! i) = p_count (g_procs g ! i) + 1"
    and "ps_Restarts (p_status (g_procs h ! i)) = ps_Restarts (p_status (g_procs g ! i)) + 1"
proof -
  let ?p = "g_procs g ! i"
  define g1 where "g1 = guest_apply (GCollect (\<lambda>_. False) (p_runStartedAt ?p + lasted) [\<lparr>de_pid = p_pid ?p, de_exit = ex\<rparr>]) g"
  define d where "d = \<lparr>td_name = p_name ?p, td_gen = Suc (g_gens g), td_kill = False\<rparr>"
  have nokill: "\<not> td_kill d" by (simp add: d_def)
  note e = crash_exit [OF ready refl applies short g1_def refl]
  have i: "i < length (g_procs g1)" using ready e(2) by (simp add: crash_ready_def)
  have t: "p_timer (g_procs g1 ! i) = Some d" using e(14) more by (simp add: d_def)
  have old: "\<forall>d \<in> set (g_due g). td_gen d \<le> g_gens g"
    using ready by (auto simp: crash_ready_def guest_inv_def base_ok_def pending_def)
  then have "d \<notin> set (g_due g1)" using e(11) by (auto simp: d_def)
  moreover have "timer_ok (g_stopping g1 \<or> g_oom g1) (set (pending (g_armed g1) (g_due g1))) (g_gens g1) (g_procs g1 ! i)"
    using e(1) i by (simp add: guest_inv_def base_ok_def)
  ultimately have "d \<in> fst ` set (g_armed g1)" using timer_ok_held [OF _ t] e(8,9) by (auto simp: pending_def)
  then obtain w where w: "map_of (g_armed g1) d = Some w" by (metis map_of_eq_None_iff option.exhaust)
  define g2 where "g2 = guest_apply (GFire d w) g1"
  have fire: "guest_allows (GFire d w) g1" using w by (auto simp: guest_allows_def dest: map_of_SomeD)
  have inv2: "guest_inv g2" using guest_apply_inv [OF e(1) fire] by (simp add: g2_def)
  have same: "g_procs g2 = g_procs g1" "g_stopping g2 = g_stopping g1" "g_oom g2 = g_oom g1" "g_frozen g2 = g_frozen g1"
    "g_waiters g2 = g_waiters g1" "d \<in> set (g_due g2)" by (simp_all add: g2_def guest_apply_def)
  obtain pid where pid: "re_fork (forks g1) = Inr pid" using forks [of g1] by (auto simp: is_ok_iff)
  have "child_pids g2 = child_pids g1" using same by (simp add: child_pids_def)
  then have fresh: "fork_fresh (forks g1) g2" using forks [of g1] pid by (simp add: fork_fresh_def)
  have hg: "h = guest_apply (GWake (forks g1) d) g2"
    using t w by (simp add: h crash_round_def Let_def g1_def [symmetric] g2_def)
  have "h = changed i (on_proc i (started_again pid)
      (on_proc i (\<lambda>p. p\<lparr>p_runStartedAt := re_now (forks g1)\<rparr>) (received i d g2)))"
    by (rule wake_cases(4) [OF inv2, where env = "forks g1"])
      (use i t e(8-10) same forks [of g1] pid nokill in \<open>simp_all add: hg guest_apply_def\<close>)
  moreover have "guest_inv h"
    using guest_apply_inv [OF inv2, of "GWake (forks g1) d"] same fresh by (simp add: hg guest_allows_def)
  moreover have "0 < pid" using fresh pid by (simp add: fork_fresh_def)
  ultimately show "crash_ready r i h" "p_count (g_procs h ! i) = p_count (g_procs g ! i) + 1"
    "ps_Restarts (p_status (g_procs h ! i)) = ps_Restarts (p_status (g_procs g ! i)) + 1"
    using i e same by (simp_all add: crash_ready_def started_again_def)
qed

lemma crash_rounds:
  assumes ready: "crash_ready r i g" and applies: "applies r ex" and short: "lasted < rpol_reset r"
    and forks: "\<And>h. fork_fresh (forks h) h \<and> re_workdir (forks h) \<and> is_ok (re_fork (forks h))"
    and lim: "limited r" and n: "p_count (g_procs g ! i) + int n \<le> rpol_retries r"
    and h: "h = (crash_round forks ex lasted i ^^ n) g"
  shows "crash_ready r i h \<and> p_count (g_procs h ! i) = p_count (g_procs g ! i) + int n
    \<and> ps_Restarts (p_status (g_procs h ! i)) = ps_Restarts (p_status (g_procs g ! i)) + int n"
  using n h
proof (induction n arbitrary: h)
  case (Suc n)
  let ?h = "(crash_round forks ex lasted i ^^ n) g"
  have IH: "crash_ready r i ?h" "p_count (g_procs ?h ! i) = p_count (g_procs g ! i) + int n"
    "ps_Restarts (p_status (g_procs ?h ! i)) = ps_Restarts (p_status (g_procs g ! i)) + int n"
    using Suc.IH [OF _ refl] Suc.prems(1) by auto
  have more: "p_count (g_procs ?h ! i) < rpol_retries r" using IH(2) Suc.prems(1) by simp
  from crash_round_restarts [OF IH(1) applies short forks lim more refl] show ?case
    using IH Suc.prems(2) by simp
qed (use ready in simp)

text \<open>C31: A crash loop ends. A process whose policy limits the retries and that keeps failing before its
  healthy-run window is started again exactly as often as the retries it has left; the exit after that
  gives up, with no pid and no timer, so nothing starts it again.\<close>

theorem crash_loop_gives_up:
  assumes "guest_trace es (new_guest probed) g" "i < length (g_procs g)" and p: "p = g_procs g ! i"
    and "p_pid p \<noteq> 0" "\<not> p_stopping p" "limited (p_restart p)"
    and "\<not> g_stopping g" "\<not> g_oom g" "g_frozen g = None"
    and "applies (p_restart p) ex" "lasted < rpol_reset (p_restart p)"
    and "\<And>h. fork_fresh (forks h) h \<and> re_workdir (forks h) \<and> is_ok (re_fork (forks h))"
    and n: "n = nat (rpol_retries (p_restart p) - p_count p)"
    and h: "h = (crash_round forks ex lasted i ^^ Suc n) g"
  shows "ps_State (p_status (g_procs h ! i)) = ProcessGaveUp \<and> p_pid (g_procs h ! i) = 0 \<and> p_timer (g_procs h ! i) = None
    \<and> ps_Restarts (p_status (g_procs h ! i)) = ps_Restarts (p_status p) + (rpol_retries (p_restart p) - p_count p)"
proof -
  have inv: "guest_inv g" by (rule reached_inv [OF assms(1)])
  let ?r = "p_restart p"
  have ready: "crash_ready ?r i g" using assms inv by (simp add: crash_ready_def)
  have "status_ok (g_stopping g) (g_oom g) p" using inv assms(2) p by (simp add: guest_inv_def)
  then have le: "p_count p \<le> rpol_retries ?r" using assms(6) by (simp add: status_ok_def Let_def)
  define k where "k = (crash_round forks ex lasted i ^^ n) g"
  have "crash_ready ?r i k \<and> p_count (g_procs k ! i) = p_count p + int n
      \<and> ps_Restarts (p_status (g_procs k ! i)) = ps_Restarts (p_status p) + int n"
    unfolding p by (rule crash_rounds) (use assms ready le k_def in \<open>simp_all add: p [symmetric]\<close>)
  then have k: "crash_ready ?r i k" "p_count (g_procs k ! i) = rpol_retries ?r"
    "ps_Restarts (p_status (g_procs k ! i)) = ps_Restarts (p_status p) + (rpol_retries ?r - p_count p)"
    using n le by auto
  note e = crash_exit [OF k(1) refl assms(10,11) refl refl]
  have "p_timer (g_procs (guest_apply (GCollect (\<lambda>_. False) (p_runStartedAt (g_procs k ! i) + lasted)
      [\<lparr>de_pid = p_pid (g_procs k ! i), de_exit = ex\<rparr>]) k) ! i) = None"
    using e(15) assms(6) k(2) by simp
  then have "h = guest_apply (GCollect (\<lambda>_. False) (p_runStartedAt (g_procs k ! i) + lasted)
      [\<lparr>de_pid = p_pid (g_procs k ! i), de_exit = ex\<rparr>]) k"
    by (simp add: h k_def [symmetric] crash_round_def Let_def)
  then show ?thesis using e(3,12,13,15) assms(6) k by simp
qed

lemma fold_max_ge: "n \<le> fold max ns n \<and> (\<forall>m \<in> set ns. m \<le> fold max ns n)" for n :: int
  by (induction ns arbitrary: n) (auto, meson max.bounded_iff, meson max.bounded_iff)

lemma example_kernel_ok:
  "fork_fresh (example_kernel h) h \<and> re_workdir (example_kernel h) \<and> is_ok (re_fork (example_kernel h))"
  using fold_max_ge [of 1 "child_pids h"] by (force simp: fork_fresh_def example_kernel_def)

theorem crash_loop_gives_up_witness:
  "ps_State (p_status (g_procs ((crash_round example_kernel example_crash 5 0 ^^ 3) example_guest) ! 0)) = ProcessGaveUp"
proof -
  have "0 < length (g_procs example_guest)" "p_pid (g_procs example_guest ! 0) \<noteq> 0" "\<not> p_stopping (g_procs example_guest ! 0)"
    "limited (p_restart (g_procs example_guest ! 0))" "\<not> g_stopping example_guest" "\<not> g_oom example_guest"
    "g_frozen example_guest = None" "applies (p_restart (g_procs example_guest ! 0)) example_crash"
    "5 < rpol_reset (p_restart (g_procs example_guest ! 0))"
    "2 = nat (rpol_retries (p_restart (g_procs example_guest ! 0)) - p_count (g_procs example_guest ! 0))"
    by code_simp+
  from crash_loop_gives_up [OF example_trace this(1) refl this(2-9) example_kernel_ok this(10) refl]
  show ?thesis by (simp add: numeral_3_eq_3 numeral_2_eq_2)
qed

subsection \<open>A stop\<close>

lemma collect_loop_reaps:
  assumes "list_all (\<lambda>d. 0 < de_pid d) ds" "loop_ok False g"
    and "collect_loop (\<lambda>_. False) now k ds (False, reaped, g) = (oom', reaped', g')"
  shows "\<not> oom' \<and> length (g_procs g') = length (g_procs g) \<and> g_stopping g' = g_stopping g
    \<and> (\<forall>j < length (g_procs g). p_pid (g_procs g' ! j) =
          (if p_pid (g_procs g ! j) \<in> de_pid ` set ds then 0 else p_pid (g_procs g ! j)))
    \<and> (reaped' \<longleftrightarrow> reaped \<or> (\<exists>j < length (g_procs g). p_pid (g_procs g ! j) \<in> de_pid ` set ds))"
  using assms
proof (induction ds arbitrary: k reaped g)
  case (Cons d ds)
  have pos: "0 < de_pid d" "list_all (\<lambda>d. 0 < de_pid d) ds" using Cons.prems(1) by auto
  note IH = Cons.IH [OF pos(2)]
  have base: "guest_base g" using Cons.prems(2) by (simp add: loop_ok_def)
  show ?case
  proof (cases "de_pid d \<in> set (g_waiters g)")
    case True
    let ?g1 = "g\<lparr>g_waiters := removeAll (de_pid d) (g_waiters g), g_exits := (de_pid d, de_exit d) # g_exits g\<rparr>"
    have step: "collect_loop (\<lambda>_. False) now (Suc k) ds (False, reaped, ?g1) = (oom', reaped', g')"
      using Cons.prems(3) True by simp
    have "p_pid (g_procs g ! j) \<noteq> de_pid d" if "j < length (g_procs g)" for j
      using byPID_inv(2) [OF base that] True pos(1) by auto
    then show ?thesis using IH [OF loop_ok_exec [OF Cons.prems(2)] step] by auto
  next
    case exec: False
    show ?thesis
    proof (cases "byPID (de_pid d) g")
      case None
      then have step: "collect_loop (\<lambda>_. False) now (Suc k) ds (False, reaped, g) = (oom', reaped', g')"
        using Cons.prems(3) exec by simp
      have "p_pid (g_procs g ! j) \<noteq> de_pid d" if "j < length (g_procs g)" for j
        using None that by (auto simp: byPID_def IndexFunc_None)
      then show ?thesis using IH [OF Cons.prems(2) step] by auto
    next
      case (Some i)
      from byPID_Some [OF Some] have i: "i < length (g_procs g)" and p: "p_pid (g_procs g ! i) = de_pid d" by auto
      let ?g0 = "on_proc i (\<lambda>p. p\<lparr>p_pid := 0\<rparr>) g"
      let ?g1 = "exited now i (de_pid d) (de_exit d) ?g0"
      have step: "collect_loop (\<lambda>_. False) now (Suc k) ds (False, True, ?g1) = (oom', reaped', g')"
        using Cons.prems(3) exec Some by (simp add: Let_def)
      have i0: "i < length (g_procs ?g0)" using i by simp
      note f = exited_procs [OF i0 refl refl, where now = now and pid = "de_pid d" and ex = "de_exit d"]
      have len: "length (g_procs ?g1) = length (g_procs g)" using f(1) by simp
      have pids: "p_pid (g_procs ?g1 ! j) = (if j = i then 0 else p_pid (g_procs g ! j))" if "j < length (g_procs g)" for j
        using that f(2) [of j] f(4) by (cases "j = i") simp_all
      have other: "j \<noteq> i \<Longrightarrow> p_pid (g_procs g ! j) \<noteq> de_pid d" if "j < length (g_procs g)" for j
        using pids_inj [OF base that i] p pos(1) by auto
      have nz: "0 \<notin> de_pid ` set ds" using pos(2) by (auto simp: list_all_iff)
      note ih = IH [OF reap_exit_ok [OF Cons.prems(2) i] step]
      have "p_pid (g_procs g' ! j) = (if p_pid (g_procs g ! j) \<in> de_pid ` set (d # ds) then 0 else p_pid (g_procs g ! j))"
        if j: "j < length (g_procs g)" for j
        using ih pids [OF j] other [OF j] p j len by (cases "j = i") auto
      then show ?thesis using ih len i p by auto
    qed
  qed
qed simp

lemma apply_stopping:
  assumes "guest_inv g" "guest_allows e g" "g_stopping g"
  shows "g_stopping (guest_apply e g)"
proof (cases e)
  case (GCollect probe now ds)
  obtain oom reaped g1 where loop: "collect_loop probe now 0 ds (False, False, g) = (oom, reaped, g1)"
    by (metis surj_pair)
  have ok: "loop_ok False g" using assms(1) by (simp add: loop_ok_def guest_inv_iff)
  from collect_loop_ok [OF _ ok loop] have l: "loop_ok oom g1" "g_stopping g1"
    using assms GCollect by (auto simp: guest_allows_def)
  then have "oom \<Longrightarrow> g_stopping (stop_timers g1)"
    using stop_timers_halted [of g1] by (auto simp: loop_ok_def halted_ok_def)
  then show ?thesis using l loop GCollect by (simp add: guest_apply_def collect_def)
next
  case (GStop fails sig)
  let ?g = "g\<lparr>g_stopping := True\<rparr>"
  have g: "?g = g" using assms(3) by (cases g) simp
  have "halted_ok (g_oom g) (length (g_procs g)) g (signal_all sig g)"
    using assms by (intro signal_all_halted) (auto simp: guest_inv_iff)
  then show ?thesis using GStop assms(3) by (simp add: guest_apply_def guest_stop_def Let_def halted_ok_def g)
qed (use assms in \<open>auto simp: guest_apply_def runSpec_stopping spawn_def wake_def stopProcess_def Let_def
      split: sum.splits option.splits\<close>)

definition live_pids :: "guest \<Rightarrow> int set" where
  "live_pids g = p_pid ` set (g_procs g) - {0}"

lemma apply_live:
  assumes "guest_inv g" "guest_allows e g" "g_stopping g"
  shows "live_pids (guest_apply e g) \<subseteq> live_pids g"
proof (cases "\<exists>env cred home spec. e = GRun env cred home spec")
  case True
  then show ?thesis using runSpec_stopping [OF assms(3)] by (auto simp: guest_apply_def)
next
  case False
  then have "calm_list True (g_procs g) (g_procs (guest_apply e g))" using apply_calm [OF assms(1,2)] assms(3) by simp
  then have "\<exists>p \<in> set (g_procs g). p_pid q = p_pid p \<or> p_pid q = 0" if "q \<in> set (g_procs (guest_apply e g))" for q
    using that by (metis (no_types, lifting) calm_def in_set_conv_nth list_all2_conv_all_nth)
  then show ?thesis by (auto simp: live_pids_def)
qed

lemma trace_live:
  "guest_trace es g h \<Longrightarrow> guest_inv g \<Longrightarrow> g_stopping g \<Longrightarrow> g_stopping h \<and> live_pids h \<subseteq> live_pids g"
proof (induction rule: guest_trace.induct)
  case (trace_step e g es h)
  then show ?case using apply_live [of g e] apply_stopping [of g e] guest_apply_inv by blast
qed simp

text \<open>C32: A stop ends the sandbox. From the stop signal on, no event starts a process: the processes alive can
  only get fewer, and the batch of deaths that takes the last of them, with no kill by the memory bound
  among them, is the one on which the supervisor returns.\<close>

theorem stop_ends_guest:
  assumes "guest_trace es (new_guest probed) g" "g_stopping g" "guest_trace later g h"
  shows "live_pids h \<subseteq> live_pids g
    \<and> (\<forall>(ds :: death list) now. list_all (\<lambda>d. 0 < de_pid d) ds \<and> live_pids h \<noteq> {} \<and> live_pids h \<subseteq> de_pid ` set ds \<longrightarrow>
         snd (collect (\<lambda>_. False) now ds h))"
proof (intro conjI allI impI; (elim conjE)?)
  have inv: "guest_inv g" by (rule reached_inv [OF assms(1)])
  have h: "guest_inv h" "g_stopping h" using trace_inv [OF assms(3) inv] trace_live [OF assms(3) inv assms(2)] by auto
  show "live_pids h \<subseteq> live_pids g" using trace_live [OF assms(3) inv assms(2)] by simp
  fix ds :: "death list" and now
  assume pos: "list_all (\<lambda>d. 0 < de_pid d) ds" and some: "live_pids h \<noteq> {}" and all: "live_pids h \<subseteq> de_pid ` set ds"
  from h(1) have ok: "loop_ok False h" by (simp add: loop_ok_def guest_inv_iff)
  obtain oom reaped h1 where loop: "collect_loop (\<lambda>_. False) now 0 ds (False, False, h) = (oom, reaped, h1)"
    by (metis surj_pair)
  note r = collect_loop_reaps [OF pos ok loop]
  have dead: "p_pid (g_procs h1 ! j) = 0" if j: "j < length (g_procs h)" for j
  proof (cases "p_pid (g_procs h ! j) \<in> de_pid ` set ds")
    case False
    then have "p_pid (g_procs h ! j) = 0" using all nth_mem [OF j] by (auto simp: live_pids_def)
    then show ?thesis using r j False by simp
  qed (use r j in simp)
  then have "\<not> g_running h1" using r by (auto simp: g_running_def list_ex_iff in_set_conv_nth)
  moreover from some obtain p where "p \<in> set (g_procs h)" "p_pid p \<in> de_pid ` set ds"
    using all unfolding live_pids_def by blast
  then have "\<exists>j < length (g_procs h). p_pid (g_procs h ! j) \<in> de_pid ` set ds" by (metis in_set_conv_nth)
  ultimately show "snd (collect (\<lambda>_. False) now ds h)" using loop r h(2) by (simp add: collect_def)
qed

theorem stop_ends_guest_witness:
  "snd (collect (\<lambda>_. False) 9 [\<lparr>de_pid = 2, de_exit = example_crash\<rparr>]
     (guest_apply (GStop (\<lambda>_. False) SIGTERM) example_guest))"
proof -
  let ?g = "guest_apply (GStop (\<lambda>_. False) SIGTERM) example_guest"
  have t: "guest_trace [example_start, GStop (\<lambda>_. False) SIGTERM] (new_guest False) ?g"
    unfolding guest_trace_iff by code_simp
  have s: "g_stopping ?g" by code_simp
  have "live_pids ?g = {2}" unfolding live_pids_def by code_simp
  then show ?thesis using stop_ends_guest [OF t s guest_trace.trace_nil] by simp
qed

end
