(* ===== verification/Pool.thy ===== *)
theory Pool
  imports Ids
begin

text \<open>
  \<open>services/network/pool.go\<close>: one address per sandbox, leased by a file named as the address that holds
  the id and a newline. The directory maps each file to its text. The calls that fail are arguments: a
  write that stops leaves the first bytes of its text, and the removal that follows a failed write may
  fail as well.
\<close>

datatype lease_step =
    LeaseOpen | LeaseWrite nat bool | LeaseSync bool | LeaseClose bool | LeaseSyncDir

datatype pool_error = LeaseDirUnread | LeaseUnread string | LeaseFailed lease_step | NoFreeAddress | LeaseRemove remove_step

type_synonym leases = "string dir"

record pool =
  po_subnet :: prefix
  po_first :: addr

subsection \<open>Reading a lease\<close>

definition trim_newlines :: "string \<Rightarrow> string" where
  "trim_newlines s = rev (dropWhile (\<lambda>c. code c = 13 \<or> code c = 10) (rev s))"

text \<open>\<open>netip.Addr.String\<close> of an address of an IPv4 pool.\<close>

fun lease_path :: "addr \<Rightarrow> string" where
  "lease_path (V4 a) = ipv4_String a"
| "lease_path _ = []"

definition pool_holder :: "addr \<Rightarrow> leases \<Rightarrow> pool_error + string" where
  "pool_holder a d =
     (case map_of d (lease_path a) of
        None \<Rightarrow> Inr []
      | Some (File s) \<Rightarrow> Inr (trim_newlines s)
      | Some _ \<Rightarrow> Inl (LeaseUnread (lease_path a)))"

fun find_lease :: "pool \<Rightarrow> string \<Rightarrow> leases \<Rightarrow> string list \<Rightarrow> pool_error + addr option" where
  "find_lease p i d [] = Inr None"
| "find_lease p i d (n # ns) =
     (case ParseAddr n of
        None \<Rightarrow> find_lease p i d ns
      | Some a \<Rightarrow>
          if \<not> pfx_Contains (po_subnet p) a then find_lease p i d ns
          else case pool_holder a d of
            Inl e \<Rightarrow> Inl e
          | Inr h \<Rightarrow> if h = i then Inr (Some a) else find_lease p i d ns)"

definition pool_find :: "bool \<Rightarrow> pool \<Rightarrow> string \<Rightarrow> leases \<Rightarrow> pool_error + addr option" where
  "pool_find readable p i d =
     (if \<not> readable then Inl LeaseDirUnread else find_lease p i d (sort (map fst d)))"

definition pool_held :: "bool \<Rightarrow> pool \<Rightarrow> leases \<Rightarrow> pool_error + addr list" where
  "pool_held readable p d =
     (if \<not> readable then Inl LeaseDirUnread
      else Inr (sort_key (\<lambda>a. case a of V4 w \<Rightarrow> w | _ \<Rightarrow> 0)
             (filter (pfx_Contains (po_subnet p)) (List.map_filter ParseAddr (sort (map fst d))))))"

subsection \<open>Taking and giving back\<close>

text \<open>\<open>claim\<close> with \<open>write\<close>: the file is made with \<open>O_EXCL\<close>, so an address with a file is taken.\<close>

definition pool_claim :: "lease_step option \<Rightarrow> addr \<Rightarrow> string \<Rightarrow> leases \<Rightarrow> leases \<times> (pool_error + bool)" where
  "pool_claim fault a i d =
     (let path = lease_path a; line = i @ [char_of (10::nat)];
          made = (\<lambda>s. AList.update path (File s) d) in
      if path \<in> fst ` set d then (d, Inr False)
      else case fault of
        Some LeaseOpen \<Rightarrow> (d, Inl (LeaseFailed LeaseOpen))
      | Some (LeaseWrite n removed) \<Rightarrow> (if removed then d else made (take n line), Inl (LeaseFailed (LeaseWrite n removed)))
      | Some (LeaseSync removed) \<Rightarrow> (if removed then d else made line, Inl (LeaseFailed (LeaseSync removed)))
      | Some (LeaseClose removed) \<Rightarrow> (if removed then d else made line, Inl (LeaseFailed (LeaseClose removed)))
      | Some LeaseSyncDir \<Rightarrow> (made line, Inl (LeaseFailed LeaseSyncDir))
      | None \<Rightarrow> (made line, Inr True))"

fun addr_rank :: "addr \<Rightarrow> nat" where
  "addr_rank AddrZero = 0"
| "addr_rank (V4 a) = 2 ^ 32 - unat a"
| "addr_rank (V6 a z) = 2 ^ 128 - unat a"

lemma unat_Suc: "w + 1 \<noteq> 0 \<Longrightarrow> unat (w + 1) = Suc (unat w)"
  by (metis add.commute unatSuc)

lemma addr_rank_Next: "addr_Next a \<noteq> AddrZero \<Longrightarrow> addr_rank (addr_Next a) < addr_rank a"
proof (cases a)
  case (V4 w)
  assume "addr_Next a \<noteq> AddrZero"
  then have "w + 1 \<noteq> 0" using V4 by auto
  moreover have "unat (w + 1) < 2 ^ 32" using unsigned_less [of "w + 1"] by simp
  ultimately show ?thesis using V4 unat_Suc [of w] by simp
next
  case (V6 w z)
  assume "addr_Next a \<noteq> AddrZero"
  then have "w + 1 \<noteq> 0" using V6 by auto
  moreover have "unat (w + 1) < 2 ^ 128" using unsigned_less [of "w + 1"] by simp
  ultimately show ?thesis using V6 unat_Suc [of w] by simp
qed simp

lemma Contains_AddrZero [simp]: "\<not> pfx_Contains p AddrZero"
  by (cases p rule: prefix.exhaust) (metis pfx_Contains.elims(2) addr.distinct(1,3))

text \<open>One round of the loop of \<open>allocate\<close>: the last address of the subnet is its broadcast address, which
  ends the loop, and an address another sandbox took first is no failure.\<close>

datatype alloc_next = AllocNext addr | AllocDone "pool_error + addr"

definition alloc_try ::
  "pool \<Rightarrow> lease_step option \<Rightarrow> string \<Rightarrow> addr \<Rightarrow> leases \<Rightarrow> leases \<times> alloc_next" where
  "alloc_try p fault i a d =
     (if \<not> pfx_Contains (po_subnet p) a \<or> \<not> pfx_Contains (po_subnet p) (addr_Next a)
      then (d, AllocDone (Inl NoFreeAddress))
      else case pool_claim fault a i d of
        (d', Inl e) \<Rightarrow> (d', AllocDone (Inl e))
      | (d', Inr True) \<Rightarrow> (d', AllocDone (Inr a))
      | (d', Inr False) \<Rightarrow> (d', AllocNext (addr_Next a)))"

lemma alloc_try_next: "alloc_try p fault i a d = (d', AllocNext b) \<Longrightarrow> b = addr_Next a \<and> b \<noteq> AddrZero"
  by (auto simp: alloc_try_def split: if_splits prod.splits sum.splits bool.splits)

function alloc_from ::
  "pool \<Rightarrow> (addr \<Rightarrow> lease_step option) \<Rightarrow> string \<Rightarrow> addr \<Rightarrow> leases \<Rightarrow> leases \<times> (pool_error + addr)" where
  "alloc_from p faults i a d =
     (case alloc_try p (faults a) i a d of
        (d', AllocDone r) \<Rightarrow> (d', r)
      | (d', AllocNext b) \<Rightarrow> alloc_from p faults i b d')"
  by pat_completeness auto
termination
  by (relation "measure (\<lambda>(p, f, i, a, d). addr_rank a)") (auto dest!: alloc_try_next [OF sym] intro: addr_rank_Next)

declare alloc_from.simps [simp del]

definition pool_allocate ::
  "bool \<Rightarrow> pool \<Rightarrow> (addr \<Rightarrow> lease_step option) \<Rightarrow> string \<Rightarrow> leases \<Rightarrow> leases \<times> (pool_error + addr \<times> bool)" where
  "pool_allocate readable p faults i d =
     (case pool_find readable p i d of
        Inl e \<Rightarrow> (d, Inl e)
      | Inr (Some a) \<Rightarrow> (d, Inr (a, True))
      | Inr None \<Rightarrow>
          (case alloc_from p faults i (po_first p) d of
             (d', Inl e) \<Rightarrow> (d', Inl e)
           | (d', Inr a) \<Rightarrow> (d', Inr (a, False))))"

definition pool_release ::
  "bool \<Rightarrow> pool \<Rightarrow> remove_step option \<Rightarrow> string \<Rightarrow> leases \<Rightarrow> leases \<times> pool_error option" where
  "pool_release readable p fault i d =
     (case pool_find readable p i d of
        Inl e \<Rightarrow> (d, Some e)
      | Inr None \<Rightarrow> (d, None)
      | Inr (Some a) \<Rightarrow> (case remove_file fault (lease_path a) d of (d', e) \<Rightarrow> (d', map_option LeaseRemove e)))"

subsection \<open>The layout\<close>

text \<open>\<open>normalise\<close>: the subnet, its first address as the gateway, and the pool behind it.\<close>

definition DefaultSubnet :: prefix where
  "DefaultSubnet = Prefix (V4 0x0a570000) (Some 16)"

datatype layout_error = SubnetNotIPv4 | SubnetHostBits | SubnetTooSmall

definition net_normalise :: "prefix \<Rightarrow> layout_error + prefix \<times> addr" where
  "net_normalise configured =
     (let subnet = (if pfx_IsValid configured then configured else DefaultSubnet) in
      if \<not> Is4 (pfx_addr subnet) then Inl SubnetNotIPv4
      else if Masked subnet \<noteq> subnet then Inl SubnetHostBits
      else if 30 < the (pfx_bits subnet) then Inl SubnetTooSmall
      else Inr (subnet, addr_Next (pfx_addr subnet)))"

definition newPool :: "prefix \<Rightarrow> addr \<Rightarrow> pool" where
  "newPool subnet gateway = \<lparr>po_subnet = subnet, po_first = addr_Next gateway\<rparr>"

subsection \<open>Subnets as intervals\<close>

text \<open>A pool made by \<open>newPool\<close> over a normalised layout: the subnet starts at \<open>base\<close> and has \<open>2 ^ k\<close>
  addresses, at least four.\<close>

definition pool_layout :: "pool \<Rightarrow> u32 \<Rightarrow> nat \<Rightarrow> bool" where
  "pool_layout p n k =
     (2 \<le> k \<and> k \<le> 32 \<and> po_subnet p = Prefix (V4 n) (Some (32 - k)) \<and> 2 ^ k dvd unat n \<and> po_first p = V4 (n + 2))"

lemma dvd_word_room:
  assumes "2 ^ k dvd unat (n :: u32)" "k \<le> 32"
  shows "unat n + 2 ^ k \<le> 2 ^ 32"
proof -
  obtain m where m: "unat n = 2 ^ k * m" using assms(1) by (elim dvdE)
  have "unat n < 2 ^ 32" using unsigned_less [of n] by simp
  moreover have e: "(2 :: nat) ^ 32 = 2 ^ k * 2 ^ (32 - k)" using assms(2) by (metis le_add_diff_inverse power_add)
  ultimately have "2 ^ k * m < 2 ^ k * 2 ^ (32 - k)" using m by simp
  then have "m < 2 ^ (32 - k)" by simp
  then have "2 ^ k * (m + 1) \<le> (2 :: nat) ^ k * 2 ^ (32 - k)" by (intro mult_le_mono2) simp
  then show ?thesis using m e by simp
qed

lemma contains_interval:
  assumes "pool_layout p n k"
  shows "pfx_Contains (po_subnet p) (V4 a) \<longleftrightarrow> unat n \<le> unat a \<and> unat a < unat n + 2 ^ k"
proof -
  have k: "k \<le> 32" and dvd: "2 ^ k dvd unat n" and sub: "po_subnet p = Prefix (V4 n) (Some (32 - k))"
    using assms by (auto simp: pool_layout_def)
  obtain m where m: "unat n = 2 ^ k * m" using dvd by (elim dvdE)
  have "pfx_Contains (po_subnet p) (V4 a) \<longleftrightarrow> unat a div 2 ^ k = unat n div 2 ^ k"
    using pfx_Contains_V4 [of "32 - k" n a] k by (simp add: sub)
  also have "\<dots> \<longleftrightarrow> unat a div 2 ^ k = m" using m by simp
  also have "\<dots> \<longleftrightarrow> unat n \<le> unat a \<and> unat a < unat n + 2 ^ k"
    using m div_nat_eqI [of "2 ^ k" m "unat a"] dividend_less_div_times [of "2 ^ k" "unat a"]
      div_times_less_eq_dividend [of "unat a" "2 ^ k"]
    by (auto simp: algebra_simps)
  finally show ?thesis .
qed

lemma contains_V4: "pool_layout p n k \<Longrightarrow> pfx_Contains (po_subnet p) a \<Longrightarrow> \<exists>w. a = V4 w"
  by (cases a) (auto simp: pool_layout_def)

text \<open>The addresses a sandbox may hold: neither the network's, the gateway's nor the broadcast one.\<close>

definition usable :: "u32 \<Rightarrow> nat \<Rightarrow> u32 \<Rightarrow> bool" where
  "usable n k a = (unat n + 2 \<le> unat a \<and> unat a < unat n + 2 ^ k - 1)"

lemma unat_add2: "pool_layout p n k \<Longrightarrow> unat (n + 2) = unat n + 2"
proof -
  assume l: "pool_layout p n k"
  then have "unat n + 2 ^ k \<le> 2 ^ 32" "(2 :: nat) ^ 2 \<le> 2 ^ k"
    using dvd_word_room [of k n] power_increasing [of 2 k "2 :: nat"] by (auto simp: pool_layout_def)
  then show ?thesis using unat_add_lem [of n "2 :: u32"] by simp
qed

lemma contains_next:
  assumes l: "pool_layout p n k" and a: "unat n \<le> unat a" "unat a < unat n + 2 ^ k"
  shows "pfx_Contains (po_subnet p) (addr_Next (V4 a)) \<longleftrightarrow> unat a < unat n + 2 ^ k - 1"
    and "unat a < unat n + 2 ^ k - 1 \<Longrightarrow> addr_Next (V4 a) = V4 (a + 1) \<and> unat (a + 1) = Suc (unat a)"
proof -
  have room: "unat n + 2 ^ k \<le> 2 ^ 32" using l dvd_word_room by (auto simp: pool_layout_def)
  have small: "unat (a + 1) = Suc (unat a)" if "unat a < unat n + 2 ^ k - 1"
  proof -
    have "unat a < 4294967295" using that room by simp
    then show ?thesis using unat_add_lem [of a "1 :: u32"] by simp
  qed
  then show n: "unat a < unat n + 2 ^ k - 1 \<Longrightarrow> addr_Next (V4 a) = V4 (a + 1) \<and> unat (a + 1) = Suc (unat a)" by auto
  show "pfx_Contains (po_subnet p) (addr_Next (V4 a)) \<longleftrightarrow> unat a < unat n + 2 ^ k - 1"
  proof (cases "unat a < unat n + 2 ^ k - 1")
    case True
    then show ?thesis using n contains_interval [OF l, of "a + 1"] a by auto
  next
    case False
    show ?thesis
    proof (cases "a + 1 = 0")
      case nz: False
      then have "unat (a + 1) = Suc (unat a)" by (rule unat_Suc)
      then show ?thesis using False nz contains_interval [OF l, of "a + 1"] by auto
    qed (use False in simp)
  qed
qed

lemma try_allowed:
  assumes l: "pool_layout p n k" and a: "unat n + 2 \<le> unat a"
  shows "pfx_Contains (po_subnet p) (V4 a) \<and> pfx_Contains (po_subnet p) (addr_Next (V4 a)) \<longleftrightarrow> usable n k a"
  using contains_interval [OF l, of a] contains_next(1) [OF l, of a] a by (auto simp: usable_def)

subsection \<open>The claims of several sandboxes, interleaved\<close>

text \<open>The daemon holds the lock of a sandbox through its allocate and its release, and no lock across
  sandboxes: \<open>pl_active\<close> are the sandboxes inside the loop of \<open>allocate\<close>, each with its next candidate.
  An event is one call of the loop of one of them, so the claims of several interleave freely; the claim of one
  address, which makes the file and writes it, is one event.\<close>

record pool_state =
  pl_leases :: leases
  pl_active :: "(string \<times> addr) list"

datatype pool_event =
    PoolBegin bool string | PoolTry "lease_step option" string | PoolRelease bool "remove_step option" string

definition pool_apply :: "pool \<Rightarrow> pool_event \<Rightarrow> pool_state \<Rightarrow> pool_state" where
  "pool_apply p e s =
     (case e of
        PoolBegin readable i \<Rightarrow>
          if generatedIDShape i \<and> map_of (pl_active s) i = None \<and> pool_find readable p i (pl_leases s) = Inr None
          then s\<lparr>pl_active := (i, po_first p) # pl_active s\<rparr> else s
      | PoolTry fault i \<Rightarrow>
          (case map_of (pl_active s) i of
             None \<Rightarrow> s
           | Some a \<Rightarrow>
               (case alloc_try p fault i a (pl_leases s) of
                  (d, AllocDone r) \<Rightarrow> \<lparr>pl_leases = d, pl_active = AList.delete i (pl_active s)\<rparr>
                | (d, AllocNext b) \<Rightarrow> \<lparr>pl_leases = d, pl_active = AList.update i b (pl_active s)\<rparr>))
      | PoolRelease readable fault i \<Rightarrow>
          if generatedIDShape i \<and> map_of (pl_active s) i = None
          then s\<lparr>pl_leases := fst (pool_release readable p fault i (pl_leases s))\<rparr> else s)"

definition releases :: "pool_event \<Rightarrow> string \<Rightarrow> bool" where
  "releases e i = (case e of PoolRelease readable fault j \<Rightarrow> j = i | _ \<Rightarrow> False)"

text \<open>Two sandboxes inside the loop at once, the first of which has its address.\<close>

definition two_claims :: "pool_event list" where
  "two_claims = [PoolBegin True ''calm-otter-1a2b'', PoolBegin True ''dark-raven-3c4d'', PoolTry None ''calm-otter-1a2b'']"

text \<open>A file of the directory and the sandbox it names.\<close>

definition lease_ok :: "u32 \<Rightarrow> nat \<Rightarrow> string \<times> string node \<Rightarrow> bool" where
  "lease_ok n k e = (\<exists>a i m. usable n k a \<and> generatedIDShape i \<and> e = (ipv4_String a, File (take m (i @ [char_of (10::nat)]))))"

definition holds :: "leases \<Rightarrow> string \<Rightarrow> string \<Rightarrow> bool" where
  "holds d path i = (\<exists>s. map_of d path = Some (File s) \<and> trim_newlines s = i)"

definition pool_inv :: "u32 \<Rightarrow> nat \<Rightarrow> pool_state \<Rightarrow> bool" where
  "pool_inv n k s =
     (distinct (map fst (pl_leases s)) \<and> (\<forall>e \<in> set (pl_leases s). lease_ok n k e)
      \<and> (\<forall>i x y. generatedIDShape i \<longrightarrow> holds (pl_leases s) x i \<longrightarrow> holds (pl_leases s) y i \<longrightarrow> x = y)
      \<and> (\<forall>i a. map_of (pl_active s) i = Some a \<longrightarrow> generatedIDShape i \<and> (\<forall>x. \<not> holds (pl_leases s) x i)
           \<and> (\<exists>w. a = V4 w \<and> unat n + 2 \<le> unat w)))"

lemma id_chars: "generatedIDShape i \<Longrightarrow> c \<in> set i \<Longrightarrow> is_lower c \<or> is_digit c \<or> c = CHR ''-''"
  unfolding shape_parts by (force simp: list_all_iff is_hex_def is_lower_def)

lemma trim_id: "generatedIDShape i \<Longrightarrow> trim_newlines i = i" "generatedIDShape i \<Longrightarrow> trim_newlines (i @ [char_of (10::nat)]) = i"
proof -
  assume i: "generatedIDShape i"
  then have "i \<noteq> []" unfolding shape_parts by auto
  then have "last i \<in> set i" by simp
  from id_chars [OF i this] have c: "code (last i) \<noteq> 13" "code (last i) \<noteq> 10" by (auto simp: is_lower_def is_digit_def)
  then have "dropWhile (\<lambda>c. code c = 13 \<or> code c = 10) (rev i) = rev i"
    using \<open>i \<noteq> []\<close> by (cases i rule: rev_cases) auto
  then show "trim_newlines i = i" "trim_newlines (i @ [char_of (10::nat)]) = i" by (simp_all add: trim_newlines_def)
qed

text \<open>What is left of an id after a write that stopped names no other sandbox.\<close>

lemma trim_part:
  assumes i: "generatedIDShape i" and j: "generatedIDShape (trim_newlines (take m (i @ [char_of (10::nat)])))"
  shows "trim_newlines (take m (i @ [char_of (10::nat)])) = i"
proof (cases "m \<le> length i")
  case False
  then show ?thesis using trim_id [OF i] by simp
next
  case True
  let ?s = "take m i"
  have s: "take m (i @ [char_of (10::nat)]) = ?s" using True by simp
  have "set ?s \<subseteq> set i" by (rule set_take_subset)
  then have nl: "c \<in> set ?s \<Longrightarrow> code c \<noteq> 13 \<and> code c \<noteq> 10" for c
    using id_chars [OF i, of c] by (auto simp: is_lower_def is_digit_def)
  have trim: "trim_newlines ?s = ?s"
  proof (cases ?s rule: rev_cases)
    case (snoc xs x)
    then have "code x \<noteq> 13 \<and> code x \<noteq> 10" by (intro nl) simp
    then show ?thesis unfolding trim_newlines_def snoc by simp
  qed (auto simp: trim_newlines_def)
  then have "generatedIDShape ?s" using j s by simp
  moreover have "generatedIDShape (?s @ drop m i)" using i by simp
  ultimately have "drop m i = []" by (rule id_prefix_free)
  then show ?thesis using s trim by simp
qed

lemma pool_invD:
  assumes "pool_inv n k s"
  shows "distinct (map fst (pl_leases s))" "\<forall>e \<in> set (pl_leases s). lease_ok n k e"
    "generatedIDShape i \<Longrightarrow> holds (pl_leases s) x i \<Longrightarrow> holds (pl_leases s) y i \<Longrightarrow> x = y"
    "map_of (pl_active s) i = Some a \<Longrightarrow> generatedIDShape i"
    "map_of (pl_active s) i = Some a \<Longrightarrow> \<not> holds (pl_leases s) x i"
    "map_of (pl_active s) i = Some a \<Longrightarrow> \<exists>w. a = V4 w \<and> unat n + 2 \<le> unat w"
  using assms unfolding pool_inv_def by blast+

lemma pool_invI:
  assumes "distinct (map fst (pl_leases s))" "\<forall>e \<in> set (pl_leases s). lease_ok n k e"
    and "\<And>i x y. generatedIDShape i \<Longrightarrow> holds (pl_leases s) x i \<Longrightarrow> holds (pl_leases s) y i \<Longrightarrow> x = y"
    and "\<And>i a. map_of (pl_active s) i = Some a \<Longrightarrow>
      generatedIDShape i \<and> (\<forall>x. \<not> holds (pl_leases s) x i) \<and> (\<exists>w. a = V4 w \<and> unat n + 2 \<le> unat w)"
  shows "pool_inv n k s"
  using assms unfolding pool_inv_def by blast

subsection \<open>What a read of the leases finds\<close>

lemma ipv4_String_inj: "ipv4_String a = ipv4_String b \<longleftrightarrow> a = b"
  by (metis ParseAddr_String addr.inject(1) option.inject)

lemma usable_contains: "pool_layout p n k \<Longrightarrow> usable n k a \<Longrightarrow> pfx_Contains (po_subnet p) (V4 a)"
  using contains_interval [of p n k a] by (auto simp: usable_def)

lemma find_lease_spec:
  assumes l: "pool_layout p n k" and ok: "\<forall>e \<in> set d. lease_ok n k e" and ns: "set ns \<subseteq> fst ` set d"
  shows "(find_lease p i d ns = Inr None \<and> (\<forall>x \<in> set ns. \<not> holds d x i))
     \<or> (\<exists>w. find_lease p i d ns = Inr (Some (V4 w)) \<and> usable n k w \<and> ipv4_String w \<in> set ns \<and> holds d (ipv4_String w) i)"
  using ns
proof (induction ns)
  case (Cons x ns)
  then obtain v where v: "map_of d x = Some v" by (metis insert_subset list.simps(15) map_of_eq_None_iff option.exhaust)
  then have "lease_ok n k (x, v)" using ok map_of_SomeD by fastforce
  then obtain a j m where a: "usable n k a" "x = ipv4_String a" "v = File (take m (j @ [char_of (10::nat)]))"
    by (auto simp: lease_ok_def)
  have step: "find_lease p i d (x # ns) =
      (if trim_newlines (take m (j @ [char_of (10::nat)])) = i then Inr (Some (V4 a)) else find_lease p i d ns)"
    using a v usable_contains [OF l a(1)] by (simp add: ParseAddr_String pool_holder_def)
  show ?case
  proof (cases "trim_newlines (take m (j @ [char_of (10::nat)])) = i")
    case True
    then have "holds d x i" using v a by (simp add: holds_def)
    then show ?thesis using step True a by auto
  next
    case False
    then have "\<not> holds d x i" using v a by (simp add: holds_def)
    moreover have "set ns \<subseteq> fst ` set d" using Cons.prems by simp
    ultimately show ?thesis using Cons.IH step False by auto
  qed
qed simp

lemma holds_key: "holds d x i \<Longrightarrow> x \<in> fst ` set d"
  by (auto simp: holds_def dest!: map_of_SomeD intro: image_eqI [rotated])

lemma pool_find_spec:
  assumes "pool_layout p n k" "\<forall>e \<in> set d. lease_ok n k e"
  shows "(pool_find True p i d = Inr None \<and> (\<forall>x. \<not> holds d x i))
     \<or> (\<exists>w. pool_find True p i d = Inr (Some (V4 w)) \<and> usable n k w \<and> holds d (ipv4_String w) i)"
  using find_lease_spec [OF assms, of "sort (map fst d)" i] holds_key [of d _ i]
  by (auto simp: pool_find_def)

lemma pool_find_readable: "pool_find readable p i d = Inr r \<Longrightarrow> readable \<and> pool_find True p i d = Inr r"
  by (auto simp: pool_find_def split: if_splits)

lemma pool_find_holds:
  assumes "pool_layout p n k" "\<forall>e \<in> set d. lease_ok n k e"
    and "\<forall>x y. holds d x i \<longrightarrow> holds d y i \<longrightarrow> x = y"
  shows "pool_find True p i d = Inr (Some a) \<longleftrightarrow> (\<exists>w. a = V4 w \<and> holds d (ipv4_String w) i)"
proof
  assume "pool_find True p i d = Inr (Some a)"
  then show "\<exists>w. a = V4 w \<and> holds d (ipv4_String w) i" using pool_find_spec [OF assms(1,2), of i] by auto
next
  assume "\<exists>w. a = V4 w \<and> holds d (ipv4_String w) i"
  then obtain w where w: "a = V4 w" "holds d (ipv4_String w) i" by blast
  then obtain v where v: "pool_find True p i d = Inr (Some (V4 v))" "holds d (ipv4_String v) i"
    using pool_find_spec [OF assms(1,2), of i] by auto
  then have "ipv4_String v = ipv4_String w" using assms(3) w by blast
  then show "pool_find True p i d = Inr (Some a)" using v w ipv4_String_inj by simp
qed

subsection \<open>What each step keeps\<close>

lemma claim_result:
  assumes "pool_claim fault a i d = (d', r)"
  shows "(d' = d \<and> r \<noteq> Inr True \<and> (r = Inr False \<longleftrightarrow> lease_path a \<in> fst ` set d))
     \<or> (lease_path a \<notin> fst ` set d \<and> r \<noteq> Inr False
        \<and> (\<exists>m. d' = AList.update (lease_path a) (File (take m (i @ [char_of (10::nat)]))) d \<and> (r = Inr True \<longrightarrow> length i < m)))"
proof -
  let ?line = "i @ [char_of (10::nat)]"
  have whole: "take (Suc (length i)) ?line = ?line" by simp
  show ?thesis
  proof (cases "lease_path a \<in> fst ` set d")
    case True
    then show ?thesis using assms by (auto simp: pool_claim_def)
  next
    case False
    consider "fault = None" | "fault = Some LeaseOpen" | m b where "fault = Some (LeaseWrite m b)"
      | b where "fault = Some (LeaseSync b)" | b where "fault = Some (LeaseClose b)" | "fault = Some LeaseSyncDir"
      by (metis lease_step.exhaust option.exhaust)
    then show ?thesis
      by cases (use assms False whole in
        \<open>auto simp: pool_claim_def Let_def split: if_splits intro: exI [of _ "Suc (length i)"]\<close>)
  qed
qed

lemma update_fresh: "k \<notin> fst ` set d \<Longrightarrow> AList.update k v d = d @ [(k, v)]"
  by (induction d) auto

lemma holds_new:
  assumes "path \<notin> fst ` set d" "generatedIDShape i" "generatedIDShape j"
    and "d' = AList.update path (File (take m (i @ [char_of (10::nat)]))) d"
  shows "holds d' x j \<Longrightarrow> holds d x j \<or> (x = path \<and> j = i)" "holds d x j \<Longrightarrow> holds d' x j"
proof -
  have lookup: "map_of d' y = (if y = path then Some (File (take m (i @ [char_of (10::nat)]))) else map_of d y)" for y
    using assms(4) by (simp add: update_conv)
  show "holds d' x j \<Longrightarrow> holds d x j \<or> (x = path \<and> j = i)"
    using trim_part [OF assms(2), of m] assms(3) by (auto simp: holds_def lookup split: if_splits)
  show "holds d x j \<Longrightarrow> holds d' x j" using holds_key [of d x j] assms(1) by (auto simp: holds_def lookup)
qed

lemma inv_claimed:
  assumes inv: "pool_inv n k s" and act: "map_of (pl_active s) i = Some (V4 w)"
    and u: "usable n k w" and fresh: "ipv4_String w \<notin> fst ` set (pl_leases s)"
    and d: "d = AList.update (ipv4_String w) (File (take m (i @ [char_of (10::nat)]))) (pl_leases s)"
  shows "pool_inv n k \<lparr>pl_leases = d, pl_active = AList.delete i (pl_active s)\<rparr>"
proof -
  have i: "generatedIDShape i" by (rule pool_invD(4) [OF inv act])
  have no: "\<not> holds (pl_leases s) x i" for x by (rule pool_invD(5) [OF inv act])
  note new = holds_new(1) [OF fresh i _ d]
  have app: "d = pl_leases s @ [(ipv4_String w, File (take m (i @ [char_of (10::nat)])))]" using update_fresh [OF fresh] d by simp
  have ok: "lease_ok n k (ipv4_String w, File (take m (i @ [char_of (10::nat)])))" using u i unfolding lease_ok_def by blast
  show ?thesis
  proof (rule pool_invI)
    show "distinct (map fst (pl_leases \<lparr>pl_leases = d, pl_active = AList.delete i (pl_active s)\<rparr>))"
      using pool_invD(1) [OF inv] fresh app by simp
    show "\<forall>e \<in> set (pl_leases \<lparr>pl_leases = d, pl_active = AList.delete i (pl_active s)\<rparr>). lease_ok n k e"
      using pool_invD(2) [OF inv] ok app by simp
  next
    fix j x y
    assume j: "generatedIDShape j" "holds (pl_leases \<lparr>pl_leases = d, pl_active = AList.delete i (pl_active s)\<rparr>) x j"
      "holds (pl_leases \<lparr>pl_leases = d, pl_active = AList.delete i (pl_active s)\<rparr>) y j"
    then have "holds (pl_leases s) x j \<or> x = ipv4_String w \<and> j = i" "holds (pl_leases s) y j \<or> y = ipv4_String w \<and> j = i"
      using new [OF j(1)] by simp_all
    then show "x = y" using no pool_invD(3) [OF inv j(1)] by blast
  next
    fix j a
    assume "map_of (pl_active \<lparr>pl_leases = d, pl_active = AList.delete i (pl_active s)\<rparr>) j = Some a"
    then have j: "map_of (pl_active s) j = Some a" "j \<noteq> i" by (simp_all add: delete_conv split: if_splits)
    have sh: "generatedIDShape j" by (rule pool_invD(4) [OF inv j(1)])
    have "\<not> holds d x j" for x using new [OF sh, of x] pool_invD(5) [OF inv j(1), of x] j(2) by blast
    then show "generatedIDShape j \<and> (\<forall>x. \<not> holds (pl_leases \<lparr>pl_leases = d, pl_active = AList.delete i (pl_active s)\<rparr>) x j)
        \<and> (\<exists>w. a = V4 w \<and> unat n + 2 \<le> unat w)"
      using sh pool_invD(6) [OF inv j(1)] by simp
  qed
qed

lemma inv_active:
  assumes inv: "pool_inv n k s"
    and "\<And>j a. map_of act j = Some a \<Longrightarrow> map_of (pl_active s) j = Some a \<or>
      generatedIDShape j \<and> (\<forall>x. \<not> holds (pl_leases s) x j) \<and> (\<exists>w. a = V4 w \<and> unat n + 2 \<le> unat w)"
  shows "pool_inv n k \<lparr>pl_leases = pl_leases s, pl_active = act\<rparr>"
proof (rule pool_invI)
  fix j a assume "map_of (pl_active \<lparr>pl_leases = pl_leases s, pl_active = act\<rparr>) j = Some a"
  then show "generatedIDShape j \<and> (\<forall>x. \<not> holds (pl_leases \<lparr>pl_leases = pl_leases s, pl_active = act\<rparr>) x j)
      \<and> (\<exists>w. a = V4 w \<and> unat n + 2 \<le> unat w)"
    using assms(2) [of j a] pool_invD(4,5,6) [OF inv, of j a] by auto
qed (use pool_invD(1,2) [OF inv] pool_invD(3) [OF inv] in \<open>simp_all\<close>)

lemma inv_drop:
  assumes "pool_inv n k s" shows "pool_inv n k \<lparr>pl_leases = pl_leases s, pl_active = AList.delete i (pl_active s)\<rparr>"
  by (rule inv_active [OF assms]) (simp add: delete_conv split: if_splits)

lemma try_cases:
  assumes l: "pool_layout p n k" and inv: "pool_inv n k s" and act: "map_of (pl_active s) i = Some a"
  obtains (none) "alloc_try p fault i a (pl_leases s) = (pl_leases s, AllocDone (Inl NoFreeAddress))"
    | (taken) w where "a = V4 w" "usable n k w" "ipv4_String w \<in> fst ` set (pl_leases s)"
        "alloc_try p fault i a (pl_leases s) = (pl_leases s, AllocNext (V4 (w + 1)))" "unat (w + 1) = Suc (unat w)"
    | (failed) e where "alloc_try p fault i a (pl_leases s) = (pl_leases s, AllocDone (Inl e))"
    | (made) w m r where "a = V4 w" "usable n k w" "ipv4_String w \<notin> fst ` set (pl_leases s)"
        "alloc_try p fault i a (pl_leases s) =
          (AList.update (ipv4_String w) (File (take m (i @ [char_of (10::nat)]))) (pl_leases s), AllocDone r)"
        "is_ok r \<longrightarrow> r = Inr a \<and> length i < m"
proof -
  have "\<exists>w. a = V4 w \<and> unat n + 2 \<le> unat w" by (rule pool_invD(6) [OF inv act])
  then obtain w where w: "a = V4 w" "unat n + 2 \<le> unat w" by blast
  obtain d r where c: "pool_claim fault a i (pl_leases s) = (d, r)" by (metis surj_pair)
  show ?thesis
  proof (cases "usable n k w")
    case False
    then show ?thesis using none try_allowed [OF l w(2)] w(1) by (auto simp: alloc_try_def)
  next
    case True
    have nx: "addr_Next (V4 w) = V4 (w + 1)" "unat (w + 1) = Suc (unat w)"
      using contains_next(2) [OF l, of w] True unfolding usable_def by linarith+
    have t: "alloc_try p fault i a (pl_leases s) =
        (case r of Inl e \<Rightarrow> (d, AllocDone (Inl e)) | Inr True \<Rightarrow> (d, AllocDone (Inr a)) | Inr False \<Rightarrow> (d, AllocNext (V4 (w + 1))))"
      using try_allowed [OF l w(2)] True c nx w(1) by (auto simp: alloc_try_def split: sum.splits bool.splits)
    from claim_result [OF c] show ?thesis
    proof (elim disjE conjE exE)
      assume "d = pl_leases s" "r \<noteq> Inr True" "(r = Inr False) = (lease_path a \<in> fst ` set (pl_leases s))"
      then show ?thesis using taken [of w] failed t w True nx by (cases r) (auto split: bool.splits)
    next
      fix m assume "lease_path a \<notin> fst ` set (pl_leases s)" "r \<noteq> Inr False"
        "d = AList.update (lease_path a) (File (take m (i @ [char_of (10::nat)]))) (pl_leases s)" "r = Inr True \<longrightarrow> length i < m"
      then show ?thesis using made [of w m] t w True by (cases r) (auto split: bool.splits)
    qed
  qed
qed

lemma inv_try:
  assumes l: "pool_layout p n k" and inv: "pool_inv n k s"
  shows "pool_inv n k (pool_apply p (PoolTry fault i) s)"
proof (cases "map_of (pl_active s) i")
  case (Some a)
  show ?thesis
  proof (cases rule: try_cases [OF l inv Some, of fault, case_names none taken failed made])
    case (taken w)
    have "unat n + 2 \<le> unat (w + 1)" using pool_invD(6) [OF inv Some] taken(1,5) by auto
    moreover have "generatedIDShape i" "\<And>x. \<not> holds (pl_leases s) x i" using pool_invD(4,5) [OF inv Some] by blast+
    ultimately have "pool_inv n k \<lparr>pl_leases = pl_leases s, pl_active = AList.update i (V4 (w + 1)) (pl_active s)\<rparr>"
      by (intro inv_active [OF inv]) (auto simp: update_conv split: if_splits)
    then show ?thesis using Some taken(4) by (simp add: pool_apply_def)
  next
    case (made w m r)
    then show ?thesis using Some inv_claimed [OF inv Some [unfolded made(1)] made(2,3) refl, of m] by (simp add: pool_apply_def)
  qed (simp_all add: pool_apply_def Some inv_drop [OF inv])
qed (simp add: pool_apply_def inv)

lemma release_result:
  assumes l: "pool_layout p n k" and inv: "pool_inv n k s"
  shows "fst (pool_release readable p fault i (pl_leases s)) = pl_leases s
     \<or> (\<exists>w. holds (pl_leases s) (ipv4_String w) i
          \<and> fst (pool_release readable p fault i (pl_leases s)) = AList.delete (ipv4_String w) (pl_leases s))"
proof (cases "pool_find readable p i (pl_leases s)")
  case (Inr r)
  from pool_find_readable [OF this] pool_find_spec [OF l pool_invD(2) [OF inv], of i]
  have "r = None \<or> (\<exists>w. r = Some (V4 w) \<and> holds (pl_leases s) (ipv4_String w) i)" by auto
  then show ?thesis using Inr by (auto simp: pool_release_def remove_file_def split: if_splits)
qed (simp add: pool_release_def)

lemma holds_delete: "holds (AList.delete k d) x i \<longleftrightarrow> x \<noteq> k \<and> holds d x i"
  by (auto simp: holds_def delete_conv)

lemma inv_release:
  assumes l: "pool_layout p n k" and inv: "pool_inv n k s"
  shows "pool_inv n k (pool_apply p (PoolRelease readable fault i) s)"
proof -
  have "pool_inv n k (s\<lparr>pl_leases := AList.delete x (pl_leases s)\<rparr>)" for x
  proof (rule pool_invI)
    show "distinct (map fst (pl_leases (s\<lparr>pl_leases := AList.delete x (pl_leases s)\<rparr>)))"
      using distinct_delete [OF pool_invD(1) [OF inv], of x] by simp
    show "\<forall>e \<in> set (pl_leases (s\<lparr>pl_leases := AList.delete x (pl_leases s)\<rparr>)). lease_ok n k e"
      using pool_invD(2) [OF inv] by (simp add: AList.delete_eq)
  qed (use pool_invD(3-6) [OF inv] in \<open>simp_all add: holds_delete\<close>)
  then show ?thesis using release_result [OF l inv, of readable fault i] inv by (auto simp: pool_apply_def)
qed

lemma inv_begin:
  assumes l: "pool_layout p n k" and inv: "pool_inv n k s"
  shows "pool_inv n k (pool_apply p (PoolBegin readable i) s)"
proof (cases "generatedIDShape i \<and> map_of (pl_active s) i = None \<and> pool_find readable p i (pl_leases s) = Inr None")
  case True
  then have "\<forall>x. \<not> holds (pl_leases s) x i"
    using pool_find_readable [of readable p i "pl_leases s"] pool_find_spec [OF l pool_invD(2) [OF inv], of i] by auto
  moreover have first: "po_first p = V4 (n + 2)" "unat (n + 2) = unat n + 2" using l unat_add2 [OF l] by (simp_all add: pool_layout_def)
  moreover have "s\<lparr>pl_active := (i, po_first p) # pl_active s\<rparr> =
      \<lparr>pl_leases = pl_leases s, pl_active = (i, po_first p) # pl_active s\<rparr>" by simp
  ultimately have "pool_inv n k (s\<lparr>pl_active := (i, po_first p) # pl_active s\<rparr>)"
    using True by (simp only:, intro inv_active [OF inv]) (auto simp: first split: if_splits)
  then show ?thesis using True by (simp add: pool_apply_def)
qed (auto simp: pool_apply_def inv)

lemma pool_apply_inv: "pool_layout p n k \<Longrightarrow> pool_inv n k s \<Longrightarrow> pool_inv n k (pool_apply p e s)"
  by (cases e) (simp_all add: inv_begin inv_try inv_release)

subsection \<open>The layout behind a pool, and the lowest free address\<close>

lemma normalise_layout:
  assumes "net_normalise configured = Inr (subnet, gateway)"
  shows "\<exists>n k. pool_layout (newPool subnet gateway) n k \<and> gateway = V4 (n + 1) \<and> subnet = Prefix (V4 n) (Some (32 - k))"
proof -
  obtain n b where s: "subnet = Prefix (V4 n) (Some b)" "b \<le> 30" "Masked subnet = subnet" "gateway = addr_Next (V4 n)"
    using assms by (cases "pfx_addr subnet"; cases subnet; cases "pfx_bits subnet") (auto simp: net_normalise_def DefaultSubnet_def Let_def split: if_splits)
  let ?k = "32 - b"
  have "n = push_bit ?k (drop_bit ?k n)" using s(1,3) by simp
  then have "unat n = unat (push_bit ?k (drop_bit ?k n))" by simp
  also have "\<dots> = 2 ^ ?k * unat (drop_bit ?k n) mod 2 ^ 32"
    by (simp only: unsigned_push_bit_eq) (simp add: take_bit_eq_mod push_bit_eq_mult mult.commute)
  finally have "unat n = 2 ^ ?k * unat (drop_bit ?k n) mod 2 ^ 32" .
  moreover have "(2 :: nat) ^ ?k dvd 2 ^ 32" by (rule le_imp_power_dvd) simp
  ultimately have dvd: "2 ^ ?k dvd unat n" by (metis dvd_mod dvd_triv_left)
  then have "unat n + 2 ^ ?k \<le> 2 ^ 32" by (intro dvd_word_room) simp_all
  moreover have "(2 :: nat) ^ 2 \<le> 2 ^ ?k" using s(2) by (intro power_increasing) simp_all
  ultimately have "unat n + 4 \<le> 2 ^ 32" by simp
  then have "n + 1 \<noteq> 0" "n + 1 + 1 \<noteq> 0" using unat_add_lem [of n "1 :: u32"] unat_add_lem [of n "2 :: u32"] by (auto simp: add.assoc)
  then have "gateway = V4 (n + 1)" "po_first (newPool subnet gateway) = V4 (n + 2)" using s(4) by (simp_all add: newPool_def)
  then show ?thesis using s dvd by (intro exI [of _ n] exI [of _ ?k]) (auto simp: pool_layout_def newPool_def)
qed

lemma alloc_from_lowest:
  assumes l: "pool_layout p n k" and nf: "\<And>a. faults a = None" and w: "unat n + 2 \<le> unat w"
  shows "alloc_from p faults i (V4 w) d =
    (case List.find (\<lambda>w. ipv4_String w \<notin> fst ` set d) (map word_of_nat [unat w..<unat n + 2 ^ k - 1]) of
       None \<Rightarrow> (d, Inl NoFreeAddress)
     | Some v \<Rightarrow> (AList.update (ipv4_String v) (File (i @ [char_of (10::nat)])) d, Inr (V4 v)))"
  using w
proof (induction "unat n + 2 ^ k - unat w" arbitrary: w rule: less_induct)
  case less
  note allowed = try_allowed [OF l less.prems]
  show ?case
  proof (cases "usable n k w")
    case False
    then have "[unat w..<unat n + 2 ^ k - 1] = []" using less.prems by (auto simp: usable_def)
    then show ?thesis using False allowed by (subst alloc_from.simps) (auto simp: alloc_try_def)
  next
    case True
    then have up: "[unat w..<unat n + 2 ^ k - 1] = unat w # [Suc (unat w)..<unat n + 2 ^ k - 1]"
      by (intro upt_conv_Cons) (simp add: usable_def)
    have nx: "addr_Next (V4 w) = V4 (w + 1)" "unat (w + 1) = Suc (unat w)"
      using contains_next(2) [OF l, of w] True unfolding usable_def by linarith+
    show ?thesis
    proof (cases "ipv4_String w \<in> fst ` set d")
      case False
      then have "alloc_try p (faults (V4 w)) i (V4 w) d =
          (AList.update (ipv4_String w) (File (i @ [char_of (10::nat)])) d, AllocDone (Inr (V4 w)))"
        using True allowed nf by (simp add: alloc_try_def pool_claim_def)
      then show ?thesis using False up by (subst alloc_from.simps) simp
    next
      case taken: True
      then have "alloc_try p (faults (V4 w)) i (V4 w) d = (d, AllocNext (V4 (w + 1)))"
        using True allowed nf nx by (simp add: alloc_try_def pool_claim_def)
      moreover have "unat n + 2 ^ k - unat (w + 1) < unat n + 2 ^ k - unat w" "unat n + 2 \<le> unat (w + 1)"
        using True nx by (auto simp: usable_def)
      ultimately show ?thesis using less.hyps [of "w + 1"] taken up nx by (subst alloc_from.simps) simp
    qed
  qed
qed

text \<open>C34: with no failing call, an allocation of a sandbox that holds no address takes the lowest address of
  the subnet, after the gateway and before the broadcast one, that has no file, and answers that none is
  free only when every one of them has a file.\<close>

theorem allocate_takes_lowest:
  assumes "pool_layout p n k" and "pool_find True p i d = Inr None"
  shows "pool_allocate True p (\<lambda>a. None) i d =
    (case List.find (\<lambda>w. ipv4_String w \<notin> fst ` set d) (map word_of_nat [unat n + 2..<unat n + 2 ^ k - 1]) of
       None \<Rightarrow> (d, Inl NoFreeAddress)
     | Some w \<Rightarrow> (AList.update (ipv4_String w) (File (i @ [char_of (10::nat)])) d, Inr (V4 w, False)))"
proof -
  have "po_first p = V4 (n + 2)" "unat (n + 2) = unat n + 2" using assms(1) unat_add2 [OF assms(1)] by (simp_all add: pool_layout_def)
  then show ?thesis using alloc_from_lowest [OF assms(1) refl, of "n + 2" i d] assms(2)
    by (simp add: pool_allocate_def split: option.splits)
qed

theorem allocate_takes_lowest_witness:
  "pool_allocate True (newPool (Prefix (V4 8) (Some 29)) (V4 9)) (\<lambda>a. None) ''calm-otter-1a2b''
     [(''0.0.0.10'', File ''dark-raven-3c4d'')]
   = ([(''0.0.0.10'', File ''dark-raven-3c4d''), (''0.0.0.11'', File (''calm-otter-1a2b'' @ [char_of (10::nat)]))],
      Inr (V4 11, False))"
proof -
  have "pool_layout (newPool (Prefix (V4 8) (Some 29)) (V4 9)) 8 3" by code_simp
  moreover have "pool_find True (newPool (Prefix (V4 8) (Some 29)) (V4 9)) ''calm-otter-1a2b''
      [(''0.0.0.10'', File ''dark-raven-3c4d'')] = Inr None" by code_simp
  moreover have "List.find (\<lambda>w. ipv4_String w \<notin> fst ` set [(''0.0.0.10'', File ''dark-raven-3c4d'')])
      (map word_of_nat [unat (8 :: u32) + 2..<unat (8 :: u32) + 2 ^ 3 - 1]) = Some 11" by code_simp
  moreover have "ipv4_String 11 = ''0.0.0.11''" by code_simp
  ultimately show ?thesis using allocate_takes_lowest
    [of "newPool (Prefix (V4 8) (Some 29)) (V4 9)" "8" 3 "''calm-otter-1a2b''"
      "[(''0.0.0.10'', File ''dark-raven-3c4d'')]"] by simp
qed

subsection \<open>A lease is kept and is exclusive\<close>

lemma kept_step:
  assumes l: "pool_layout p n k" and inv: "pool_inv n k s" and i: "generatedIDShape i"
    and h: "holds (pl_leases s) x i" and e: "\<not> releases e i"
  shows "holds (pl_leases (pool_apply p e s)) x i"
proof (cases e)
  case (PoolTry fault j)
  show ?thesis
  proof (cases "map_of (pl_active s) j")
    case (Some a)
    have j: "generatedIDShape j" by (rule pool_invD(4) [OF inv Some])
    show ?thesis
    proof (cases rule: try_cases [OF l inv Some, of fault, case_names none taken failed made])
      case (made w m r)
      then show ?thesis using Some PoolTry holds_new(2) [OF made(3) j i refl h] by (simp add: pool_apply_def)
    qed (simp_all add: pool_apply_def Some PoolTry h)
  qed (simp add: pool_apply_def PoolTry h)
next
  case (PoolRelease readable fault j)
  then have ne: "j \<noteq> i" using e by (simp add: releases_def)
  from release_result [OF l inv, of readable fault j]
  have "holds (fst (pool_release readable p fault j (pl_leases s))) x i"
  proof (elim disjE exE conjE)
    fix w assume w: "holds (pl_leases s) (ipv4_String w) j"
      "fst (pool_release readable p fault j (pl_leases s)) = AList.delete (ipv4_String w) (pl_leases s)"
    have "x \<noteq> ipv4_String w" using h w(1) ne by (auto simp: holds_def)
    then show ?thesis using h w(2) by (simp add: holds_delete)
  qed (simp add: h)
  then show ?thesis using h PoolRelease by (simp add: pool_apply_def)
qed (simp add: pool_apply_def h)

lemma fold_inv: "pool_layout p n k \<Longrightarrow> pool_inv n k s \<Longrightarrow> pool_inv n k (fold (pool_apply p) es s)"
  by (induction es arbitrary: s) (simp_all add: pool_apply_inv)

lemma fold_kept:
  "pool_layout p n k \<Longrightarrow> pool_inv n k s \<Longrightarrow> generatedIDShape i \<Longrightarrow> holds (pl_leases s) x i \<Longrightarrow>
   list_all (\<lambda>e. \<not> releases e i) es \<Longrightarrow> holds (pl_leases (fold (pool_apply p) es s)) x i"
  by (induction es arbitrary: s) (simp_all add: pool_apply_inv kept_step)

lemma empty_inv: "pool_inv n k \<lparr>pl_leases = [], pl_active = []\<rparr>"
  by (simp add: pool_inv_def holds_def)

text \<open>C33: the pool takes no lock, and still in every interleaving of the claims, the releases and the
  failures of any number of sandboxes, an address a sandbox holds stays its own until it is released: the
  sandbox finds the same address later, no other sandbox finds it, and it is an address of the subnet that
  is not the network's, the gateway's or the broadcast one.\<close>

theorem lease_exclusive:
  assumes lay: "net_normalise configured = Inr (subnet, gateway)"
    and p: "p = newPool subnet gateway"
    and s: "s = fold (pool_apply p) before \<lparr>pl_leases = [], pl_active = []\<rparr>"
    and t: "t = fold (pool_apply p) after s"
    and i: "generatedIDShape i" "pool_find True p i (pl_leases s) = Inr (Some a)" "list_all (\<lambda>e. \<not> releases e i) after"
    and j: "generatedIDShape j" "j \<noteq> i" "pool_find True p j (pl_leases t) = Inr (Some b)"
  shows "pool_find True p i (pl_leases t) = Inr (Some a) \<and> a \<noteq> b
    \<and> pfx_Contains subnet a \<and> a \<noteq> pfx_addr subnet \<and> a \<noteq> gateway \<and> pfx_Contains subnet (addr_Next a)"
proof -
  obtain n k where l: "pool_layout p n k" and g: "gateway = V4 (n + 1)" "subnet = Prefix (V4 n) (Some (32 - k))"
    using normalise_layout [OF lay] p by blast
  have inv: "pool_inv n k s" "pool_inv n k t" using s t fold_inv [OF l] empty_inv by blast+
  note find_s = pool_find_holds [OF l pool_invD(2) [OF inv(1)]] and find_t = pool_find_holds [OF l pool_invD(2) [OF inv(2)]]
  have uniq: "generatedIDShape h \<Longrightarrow> \<forall>x y. holds (pl_leases s) x h \<longrightarrow> holds (pl_leases s) y h \<longrightarrow> x = y"
    "generatedIDShape h \<Longrightarrow> \<forall>x y. holds (pl_leases t) x h \<longrightarrow> holds (pl_leases t) y h \<longrightarrow> x = y" for h
    using pool_invD(3) [OF inv(1), of h] pool_invD(3) [OF inv(2), of h] by blast+
  obtain w where w: "a = V4 w" "holds (pl_leases s) (ipv4_String w) i" "usable n k w"
    using find_s [OF uniq(1) [OF i(1)], of a] pool_find_spec [OF l pool_invD(2) [OF inv(1)], of i] i(2) by auto
  have kept: "holds (pl_leases t) (ipv4_String w) i"
    unfolding t by (rule fold_kept [OF l inv(1) i(1) w(2) i(3)])
  then have "pool_find True p i (pl_leases t) = Inr (Some a)" using find_t [OF uniq(2) [OF i(1)], of a] w(1) by blast
  moreover obtain v where v: "b = V4 v" "holds (pl_leases t) (ipv4_String v) j" using find_t [OF uniq(2) [OF j(1)], of b] j(3) by blast
  have "v \<noteq> w" using v(2) kept j(2) by (auto simp: holds_def)
  moreover have "pfx_Contains subnet a" "pfx_Contains subnet (addr_Next a)"
    using try_allowed [OF l, of w] w p by (auto simp: usable_def newPool_def)
  moreover have "w \<noteq> n" "w \<noteq> n + 1"
  proof -
    have "unat (n + 1) \<le> unat n + 1" by (metis add.commute order.refl unatSuc unat_0 zero_le le_SucI plus_1_eq_Suc)
    then show "w \<noteq> n" "w \<noteq> n + 1" using w(3) by (auto simp: usable_def)
  qed
  ultimately show ?thesis using v w g by (simp add: pfx_addr_def)
qed

theorem lease_exclusive_witness:
  "pool_find True (newPool DefaultSubnet (V4 0x0a570001)) ''calm-otter-1a2b''
     (pl_leases (fold (pool_apply (newPool DefaultSubnet (V4 0x0a570001)))
        [PoolTry None ''dark-raven-3c4d'', PoolTry None ''dark-raven-3c4d'']
        (fold (pool_apply (newPool DefaultSubnet (V4 0x0a570001))) two_claims \<lparr>pl_leases = [], pl_active = []\<rparr>)))
   = Inr (Some (V4 0x0a570002))"
proof -
  have "net_normalise (Prefix AddrZero None) = Inr (DefaultSubnet, V4 0x0a570001)" by code_simp
  moreover have "generatedIDShape ''calm-otter-1a2b''" by code_simp
  moreover have "pool_find True (newPool DefaultSubnet (V4 0x0a570001)) ''calm-otter-1a2b'' (pl_leases
      (fold (pool_apply (newPool DefaultSubnet (V4 0x0a570001))) two_claims \<lparr>pl_leases = [], pl_active = []\<rparr>)) =
    Inr (Some (V4 0x0a570002))" by code_simp
  moreover have "list_all (\<lambda>e. \<not> releases e ''calm-otter-1a2b'')
    [PoolTry None ''dark-raven-3c4d'', PoolTry None ''dark-raven-3c4d'']" by code_simp
  moreover have "generatedIDShape ''dark-raven-3c4d''" by code_simp
  moreover have "pool_find True (newPool DefaultSubnet (V4 0x0a570001)) ''dark-raven-3c4d''
     (pl_leases (fold (pool_apply (newPool DefaultSubnet (V4 0x0a570001)))
        [PoolTry None ''dark-raven-3c4d'', PoolTry None ''dark-raven-3c4d'']
        (fold (pool_apply (newPool DefaultSubnet (V4 0x0a570001))) two_claims \<lparr>pl_leases = [], pl_active = []\<rparr>)))
    = Inr (Some (V4 0x0a570003))" by code_simp
  ultimately show ?thesis
    using lease_exclusive [OF _ refl refl refl, of "Prefix AddrZero None" DefaultSubnet "V4 0x0a570001" "''calm-otter-1a2b''" two_claims
      "V4 0x0a570002" "[PoolTry None ''dark-raven-3c4d'', PoolTry None ''dark-raven-3c4d'']" "''dark-raven-3c4d''" "V4 0x0a570003"]
    by simp
qed

end
