(* ===== verification/Records.thy ===== *)
theory Records
  imports Slices Chains
begin

text \<open>
  What the lifecycle verbs of \<open>services/sandbox\<close> decide from a record and what they write into one:
  the restart policies and what a start of a sandbox brings back (\<open>launchable.go\<close>, \<open>restart.go\<close>,
  \<open>autostart.go\<close>), the table of named processes (\<open>process.go\<close>), the memory kills (\<open>oom.go\<close>) and each
  mutation a verb hands to \<open>Repository.Update\<close>. Each is a total function of its arguments.
\<close>

subsection \<open>What a start brings back\<close>

datatype trigger = OperatorStart | DaemonStart

definition launchable :: "process \<Rightarrow> sandbox \<Rightarrow> trigger \<Rightarrow> bool" where
  "launchable p sb by =
     (case rs_Policy (pr_Restart p) of
        RestartAlways \<Rightarrow> True
      | RestartUnlessStopped \<Rightarrow> \<not> pr_Killed p \<and> (by = OperatorStart \<or> \<not> sb_StoppedByOperator sb)
      | _ \<Rightarrow> False)"

definition Owed :: "sandbox \<Rightarrow> bool" where
  "Owed sb =
     (if sb_State sb \<noteq> StateStopped \<and> sb_State sb \<noteq> StateRunning then False
      else list_ex (\<lambda>p. launchable p sb DaemonStart) (sb_Processes sb))"

definition DefaultRestartBackoff :: int where
  "DefaultRestartBackoff = 1"

datatype restart_error =
    RestartPolicyUnknown | RetriesNegative | BackoffNegative | BackoffTooLong | RetriesUnread | BackoffUnread

definition validRestart :: "restart_spec \<Rightarrow> restart_error + unit" where
  "validRestart r =
     (if rs_Policy r \<notin> {RestartNo, RestartOnFailure, RestartAlways, RestartUnlessStopped} then Inl RestartPolicyUnknown
      else if rs_Retries r < 0 then Inl RetriesNegative
      else if rs_Backoff r < 0 then Inl BackoffNegative
      else if RestartBackoffCap < rs_Backoff r then Inl BackoffTooLong
      else if rs_Retries r \<noteq> 0 \<and> rs_Policy r \<noteq> RestartOnFailure then Inl RetriesUnread
      else if \<not> restart_Set r \<and> rs_Backoff r \<noteq> 0 then Inl BackoffUnread
      else Inr ())"

definition restartOf :: "restart_spec option \<Rightarrow> restart_error + restart_spec" where
  "restartOf ro =
     (case ro of
        None \<Rightarrow> Inr \<lparr>rs_Policy = RestartUnlessStopped, rs_Retries = 0, rs_Backoff = DefaultRestartBackoff\<rparr>
      | Some r \<Rightarrow>
          (case validRestart r of
             Inl e \<Rightarrow> Inl e
           | Inr _ \<Rightarrow> Inr (if restart_Set r \<and> rs_Backoff r = 0 then r\<lparr>rs_Backoff := DefaultRestartBackoff\<rparr> else r)))"

definition Supervised :: "sandbox \<Rightarrow> bool" where
  "Supervised sb = (sb_State sb = StateRunning \<and> sb_Processes sb \<noteq> [])"

subsection \<open>The table of named processes\<close>

definition isNamed :: "string \<Rightarrow> process \<Rightarrow> bool" where
  "isNamed name p = (pr_Name p = name)"

definition with_state :: "process_state \<Rightarrow> process \<Rightarrow> process" where
  "with_state s p = p\<lparr>pr_Status := (pr_Status p)\<lparr>ps_State := s\<rparr>\<rparr>"

text \<open>The guest's last word on each name: of two reports the later one in the table, unless the earlier one
  has the higher sequence number.\<close>

definition later_report ::
  "(string \<Rightarrow> process_report option) \<Rightarrow> process_report \<Rightarrow> (string \<Rightarrow> process_report option)" where
  "later_report latest r =
     (case latest (rep_Name r) of
        Some prev \<Rightarrow> if rep_Seq r < rep_Seq prev then latest else latest(rep_Name r := Some r)
      | None \<Rightarrow> latest(rep_Name r := Some r))"

definition latestReports :: "process_report list \<Rightarrow> string \<Rightarrow> process_report option" where
  "latestReports reports = foldl later_report (\<lambda>_. None) reports"

definition merged :: "process list \<Rightarrow> process_report list \<Rightarrow> process list" where
  "merged procs reports =
     map (\<lambda>p. case latestReports reports (pr_Name p) of Some r \<Rightarrow> p\<lparr>pr_Status := rep_Status r\<rparr> | None \<Rightarrow> p) procs"

definition endProcesses :: "process list \<Rightarrow> process list" where
  "endProcesses procs = map (\<lambda>p. if Ended (ps_State (pr_Status p)) then p else with_state ProcessStopped p) procs"

definition withProcess :: "process list \<Rightarrow> process \<Rightarrow> process list" where
  "withProcess procs p =
     (case IndexFunc (isNamed (pr_Name p)) procs of Some i \<Rightarrow> procs[i := p] | None \<Rightarrow> procs @ [p])"

definition withLogStart :: "(string \<times> int) list \<Rightarrow> string \<Rightarrow> int \<Rightarrow> (string \<times> int) list" where
  "withLogStart starts name n = AList.update name n starts"

definition exitedProcess :: "process \<Rightarrow> bool" where
  "exitedProcess p = Ended (ps_State (pr_Status p))"

datatype admit_error = NameTaken | ProcessLimit

definition admitted :: "process list \<Rightarrow> string \<Rightarrow> admit_error + process list" where
  "admitted procs name =
     (let full = (\<lambda>ps. if length ps < MaxProcesses then Inr ps
                       else case IndexFunc exitedProcess ps of
                         None \<Rightarrow> Inl ProcessLimit
                       | Some oldest \<Rightarrow> Inr (delete_at oldest ps)) in
      case IndexFunc (isNamed name) procs of
        Some i \<Rightarrow> if \<not> exitedProcess (procs ! i) then Inl NameTaken else full (delete_at i procs)
      | None \<Rightarrow> full procs)"

record run_request =
  rr_Name :: string
  rr_Command :: "string list"
  rr_Env :: "string list"
  rr_WorkDir :: string
  rr_User :: string
  rr_Restart :: "restart_spec option"

datatype process_error = NoCommand | BadProcessName | BadRestart restart_error | BadEnv string

definition assignment :: "string \<Rightarrow> bool" where
  "assignment entry = (case Cut entry (CHR ''='') of (key, _, found) \<Rightarrow> found \<and> key \<noteq> [])"

definition zero_status :: process_status where
  "zero_status = \<lparr>ps_State = ProcessOther [], ps_Restarts = 0, ps_Exit = None, ps_StartedAt = 0\<rparr>"

definition newProcess :: "run_request \<Rightarrow> process_error + process" where
  "newProcess req =
     (if rr_Command req = [] then Inl NoCommand
      else let name = (if rr_Name req = [] then path_Base (hd (rr_Command req)) else rr_Name req) in
        if \<not> ValidProcessName name then Inl BadProcessName
        else case restartOf (rr_Restart req) of
          Inl e \<Rightarrow> Inl (BadRestart e)
        | Inr restart \<Rightarrow>
            (case filter (\<lambda>e. \<not> assignment e) (rr_Env req) of
               e # _ \<Rightarrow> Inl (BadEnv e)
             | [] \<Rightarrow> Inr \<lparr>pr_Name = name, pr_Command = rr_Command req, pr_Env = rr_Env req, pr_WorkDir = rr_WorkDir req,
                         pr_User = rr_User req, pr_Restart = restart, pr_Killed = False, pr_Status = zero_status\<rparr>))"

definition sameStatus :: "process \<Rightarrow> process \<Rightarrow> bool" where
  "sameStatus a b =
     (let x = pr_Status a; y = pr_Status b in
      ps_State x = ps_State y \<and> ps_Restarts x = ps_Restarts y \<and> ps_StartedAt x = ps_StartedAt y \<and> ps_Exit x = ps_Exit y)"

subsection \<open>Memory kills\<close>

definition OOMHealthyRun :: duration where
  "OOMHealthyRun = 600 * second"

definition OOMRestartBackoff :: duration where
  "OOMRestartBackoff = 10 * second"

definition OOMRestartBackoffCap :: duration where
  "OOMRestartBackoffCap = 300 * second"

definition oomBackoff :: "int \<Rightarrow> duration" where
  "oomBackoff inARow =
     (if inARow \<le> 1 then 0
      else ((\<lambda>wait. min (wait * 2) OOMRestartBackoffCap) ^^ nat (inARow - 2)) OOMRestartBackoff)"

definition nextOOM :: "sandbox \<Rightarrow> time \<Rightarrow> oom" where
  "nextOOM sb now =
     (let prev = (case sb_OOM sb of Some k \<Rightarrow> k | None \<Rightarrow> \<lparr>oom_Kills = 0, oom_InARow = 0, oom_KilledAt = 0, oom_RestartAt = 0\<rparr>);
          row = (if sb_RunStartedAt sb = 0 \<or> OOMHealthyRun \<le> now - sb_RunStartedAt sb then 0 else oom_InARow prev) + 1 in
      \<lparr>oom_Kills = oom_Kills prev + 1, oom_InARow = row, oom_KilledAt = now, oom_RestartAt = now + oomBackoff row\<rparr>)"

definition callOffOOMRestart :: "sandbox \<Rightarrow> sandbox" where
  "callOffOOMRestart sb = sb\<lparr>sb_OOM := map_option (\<lambda>k. k\<lparr>oom_RestartAt := 0\<rparr>) (sb_OOM sb)\<rparr>"

subsection \<open>What the verbs write\<close>

definition OOMKilledReason :: string where
  "OOMKilledReason = ''ran out of memory and the host ended it''"

definition DiedReason :: string where
  "DiedReason = ''the sandbox process died''"

definition SupervisorFailedReason :: string where
  "SupervisorFailedReason = ''shard-init failed''"

definition LostReason :: string where
  "LostReason = ''daemon restarted and found no process''"

definition InterruptedReason :: string where
  "InterruptedReason = ''the daemon restarted before the create finished''"

definition DroppedCopyReason :: string where
  "DroppedCopyReason = ''the daemon restarted before the fork finished''"

definition byOperator :: "sandbox \<Rightarrow> sandbox" where
  "byOperator sb = sb\<lparr>sb_StoppedByOperator := True\<rparr>"

definition supervisorFailed :: "string \<Rightarrow> sandbox \<Rightarrow> sandbox" where
  "supervisorFailed why sb = sb\<lparr>sb_StoppedReason := SupervisorFailedReason @ '': '' @ why\<rparr>"

definition write_failed :: "string \<Rightarrow> string \<Rightarrow> sandbox \<Rightarrow> sandbox" where
  "write_failed reason public sb =
     sb\<lparr>sb_State := StateFailed, sb_FailedReason := reason, sb_FailedPublic := public, sb_PID := 0, sb_Pausing := False\<rparr>"

definition write_running :: "bool \<Rightarrow> int \<Rightarrow> string \<Rightarrow> time \<Rightarrow> sandbox \<Rightarrow> sandbox" where
  "write_running resumed pid kernel_tag now sb =
     (let a = callOffOOMRestart (sb\<lparr>sb_State := StateRunning, sb_PID := pid, sb_StoppedReason := [], sb_UnresponsiveReason := [],
                                 sb_Pausing := False\<rparr>);
          b = a\<lparr>sb_RunStartedAt := now\<rparr>;
          c = (if \<not> resumed \<or> sb_StartedAt b = 0 then b\<lparr>sb_StartedAt := now\<rparr> else b) in
      if \<not> resumed then c\<lparr>sb_Kernel := kernel_tag\<rparr> else c)"

definition write_stopped :: "process_report list \<Rightarrow> string \<Rightarrow> sandbox \<Rightarrow> sandbox" where
  "write_stopped after supervisor sb =
     (let a = callOffOOMRestart (sb\<lparr>sb_State := StateStopped, sb_PID := 0, sb_UnresponsiveReason := []\<rparr>);
          b = a\<lparr>sb_Checkpoint := [], sb_Processes := endProcesses (merged (sb_Processes a) after)\<rparr> in
      byOperator (if supervisor \<noteq> [] then supervisorFailed supervisor b else b))"

definition write_paused :: "string \<Rightarrow> sandbox \<Rightarrow> sandbox" where
  "write_paused dir sb =
     sb\<lparr>sb_State := StatePaused, sb_PID := 0, sb_Checkpoint := dir, sb_Pausing := False, sb_UnresponsiveReason := []\<rparr>"

definition write_gone :: "sandbox \<Rightarrow> sandbox" where
  "write_gone sb = sb\<lparr>sb_State := StateStopped, sb_PID := 0, sb_Pausing := False\<rparr>"

definition write_died :: "string \<Rightarrow> sandbox \<Rightarrow> sandbox" where
  "write_died reason sb =
     sb\<lparr>sb_State := StateStopped, sb_PID := 0, sb_StoppedReason := reason, sb_UnresponsiveReason := [],
        sb_Processes := endProcesses (sb_Processes sb)\<rparr>"

definition write_supervisor_failed :: "string \<Rightarrow> sandbox \<Rightarrow> sandbox" where
  "write_supervisor_failed why sb =
     supervisorFailed why (sb\<lparr>sb_State := StateStopped, sb_PID := 0, sb_UnresponsiveReason := [],
        sb_Processes := endProcesses (sb_Processes sb)\<rparr>)"

definition write_oom :: "oom \<Rightarrow> sandbox \<Rightarrow> sandbox" where
  "write_oom k sb =
     sb\<lparr>sb_State := StateStopped, sb_PID := 0, sb_StoppedReason := OOMKilledReason, sb_UnresponsiveReason := [],
        sb_Processes := endProcesses (sb_Processes sb), sb_OOM := Some k\<rparr>"

definition write_unresponsive :: "string \<Rightarrow> sandbox \<Rightarrow> sandbox" where
  "write_unresponsive reason sb = sb\<lparr>sb_State := StateUnresponsive, sb_UnresponsiveReason := reason\<rparr>"

definition write_answered :: "status \<Rightarrow> sandbox \<Rightarrow> sandbox" where
  "write_answered st sb =
     (let a = sb\<lparr>sb_State := StateRunning, sb_UnresponsiveReason := []\<rparr> in
      if st_State st = StateRunning \<and> sb_Pausing a then a\<lparr>sb_Pausing := False\<rparr> else a)"

definition ranPast :: "sandbox \<Rightarrow> status \<Rightarrow> bool" where
  "ranPast sb st = (sb_State sb = StateRunning \<and> sb_Pausing sb \<and> Alive st \<and> st_State st = StateRunning)"

subsection \<open>The backoff of the memory kills\<close>

lemma oom_wait: "((\<lambda>wait. min (wait * 2) OOMRestartBackoffCap) ^^ n) OOMRestartBackoff = doubled OOMRestartBackoffCap OOMRestartBackoff n"
proof (induction n)
  case 0
  then show ?case by (simp add: doubled_def OOMRestartBackoffCap_def OOMRestartBackoff_def second_def)
next
  case (Suc n)
  have "min (min (OOMRestartBackoff * 2 ^ n) OOMRestartBackoffCap * 2) OOMRestartBackoffCap = min (OOMRestartBackoff * 2 ^ Suc n) OOMRestartBackoffCap"
    by (simp add: OOMRestartBackoffCap_def second_def min_def)
  then show ?case using Suc by (simp add: doubled_def)
qed

lemma oomBackoff_closed: "oomBackoff k = (if k \<le> 1 then 0 else doubled OOMRestartBackoffCap OOMRestartBackoff (nat (k - 2)))"
  by (simp add: oomBackoff_def oom_wait)

lemma oomBackoff_bounds: "0 \<le> oomBackoff k" "oomBackoff k \<le> OOMRestartBackoffCap"
  by (simp_all add: oomBackoff_closed doubled_def OOMRestartBackoffCap_def OOMRestartBackoff_def second_def)

subsection \<open>What the table functions keep\<close>

lemma names_merged [simp]: "map pr_Name (merged procs reports) = map pr_Name procs"
  by (simp add: merged_def comp_def split: option.splits cong: map_cong)

lemma names_endProcesses [simp]: "map pr_Name (endProcesses procs) = map pr_Name procs"
  by (simp add: endProcesses_def with_state_def comp_def if_distrib cong: if_cong)

lemma endProcesses_ended: "list_all exitedProcess (endProcesses procs)"
  by (auto simp: endProcesses_def exitedProcess_def with_state_def Ended_def list_all_iff)

lemma endProcesses_idem: "list_all exitedProcess procs \<Longrightarrow> endProcesses procs = procs"
  by (simp add: endProcesses_def exitedProcess_def list_all_iff map_idI)

lemma merged_Nil [simp]: "merged procs [] = procs"
  by (simp add: merged_def latestReports_def)

end
