(* ===== verification/Lifecycle.thy ===== *)
theory Lifecycle
  imports Records Ids
begin

text \<open>
  The lifecycle verbs of \<open>services/sandbox\<close> on one sandbox: what each asks of the repository, the
  substrate and the network, in which order, and what it writes into the record.

  A verb runs under the lock of its sandbox. Its world is the record as it stands on disk and the trace
  of what happened so far; every call outside the package appends one event, and the environment answers
  each call by its position in the trace, so every failure of every call is one environment. An update of
  the record that fails may or may not have reached the disk, which is what
  the update of the repository promises. The text of errors is left to the environment; their kinds, which
  the verbs branch on, are kept.
\<close>

subsection \<open>Calls, answers and errors\<close>

datatype life_call =
    CallResolve | CallLock | CallTryLock | CallContext | CallCancelPull
  | CallGet | CallMake | CallUpdate | CallDelete | CallList | CallDir | CallCheckpointDir
  | CallStatus | CallCreate | CallStart | CallStop | CallRemove | CallPause | CallResume | CallFork
  | CallReclaim | CallReleaseFrozen | CallAdoptStaging | CallProcesses | CallStartProcess string | CallStopProcess string
  | CallAllocate | CallReapply | CallReapplyAll | CallRelease | CallClosePorts | CallOpenPorts
  | CallStatCheckpoint string | CallStatStaging string | CallRemoveCheckpoint string | CallDropCheckpoint | CallLogSize string
  | CallSeed | CallSecrets | CallProxyCA | CallPull | CallReleaseRoot | CallDropExecs | CallSettle | CallBudget

text \<open>The kinds of failure a verb tells apart.\<close>

datatype life_fault =
    Failure | TimedOut | LostGuest | Silent string | ChannelBroken string | StillRunning | NotSupported
  | NotStarted int | NoRecord | Unreadable

record net_spec =
  ns_NetnsPath :: string
  ns_Address :: prefix
  ns_HostInterface :: string

record answer =
  an_err :: "life_fault option"
  an_status :: status
  an_reports :: "process_report list"
  an_now :: time
  an_held :: bool
  an_written :: bool
  an_cancelled :: bool
  an_text :: string
  an_size :: int
  an_polls :: nat
  an_spec :: net_spec

datatype life_code =
    CodeSandboxFailed | CodeSandboxNotStopped | CodeSandboxNotRunning | CodeSandboxNotPaused
  | CodeNoCheckpoint | CodeNameTaken | CodeNoProcess | CodeProcessLimit

datatype life_error =
    FaultError life_call life_fault
  | StateError state life_code
  | SubstrateTimeout
  | Cancelled
  | Interrupted life_error
  | MayBeRunning
  | DidNotStop
  | PausedButCleanup | GoneWhilePausing | FrozenBeside
  | RequestRefused
  | Unavailable
  | Joined life_error life_error
  | Unsupported

text \<open>The errors a verb picks out of the others: a create or a fork cut while it started, a record that is gone,
  a channel only the guest's root can break, and a process that missed its probe.\<close>

fun interrupted :: "life_error \<Rightarrow> bool" where
  "interrupted (Interrupted e) = True"
| "interrupted e = False"

fun channel_broken :: "life_fault \<Rightarrow> string option" where
  "channel_broken (ChannelBroken why) = Some why"
| "channel_broken e = None"

fun silent_reason :: "life_fault \<Rightarrow> string option" where
  "silent_reason (Silent why) = Some why"
| "silent_reason e = None"

datatype life_event = Called life_call answer | Wrote sandbox sandbox | Made sandbox | Deleted

record world =
  w_record :: "sandbox option"
  w_trace :: "life_event list"

record life_env =
  en_answer :: "nat \<Rightarrow> answer"
  en_reclaims :: bool
  en_releases :: bool
  en_pause :: bool
  en_resume :: bool
  en_fork :: bool
  en_kernel :: string
  en_text :: "life_error \<Rightarrow> string"
  en_public :: "life_error \<Rightarrow> string"

type_synonym 'a verb = "life_env \<Rightarrow> world \<Rightarrow> (life_error + 'a) \<times> world"

subsection \<open>Sequencing\<close>

definition ret :: "'a \<Rightarrow> 'a verb" where
  "ret x = (\<lambda>env w. (Inr x, w))"

definition throw :: "life_error \<Rightarrow> 'a verb" where
  "throw e = (\<lambda>env w. (Inl e, w))"

definition andThen :: "'a verb \<Rightarrow> ('a \<Rightarrow> 'b verb) \<Rightarrow> 'b verb" where
  "andThen m f = (\<lambda>env w. case m env w of (Inl e, w') \<Rightarrow> (Inl e, w') | (Inr x, w') \<Rightarrow> f x env w')"

definition attempt :: "'a verb \<Rightarrow> (life_error + 'a) verb" where
  "attempt m = (\<lambda>env w. case m env w of (r, w') \<Rightarrow> (Inr r, w'))"

definition asks :: "(life_env \<Rightarrow> 'a) \<Rightarrow> 'a verb" where
  "asks f = (\<lambda>env w. (Inr (f env), w))"

definition logged :: "life_event \<Rightarrow> world \<Rightarrow> world" where
  "logged e w = w\<lparr>w_trace := w_trace w @ [e]\<rparr>"

definition answer_at :: "life_env \<Rightarrow> world \<Rightarrow> answer" where
  "answer_at env w = en_answer env (length (w_trace w))"

text \<open>A call whose failure the verb looks at itself, and one whose failure ends the verb.\<close>

definition call :: "life_call \<Rightarrow> answer verb" where
  "call c = (\<lambda>env w. (Inr (answer_at env w), logged (Called c (answer_at env w)) w))"

definition ask :: "life_call \<Rightarrow> answer verb" where
  "ask c = andThen (call c) (\<lambda>a. case an_err a of None \<Rightarrow> ret a | Some e \<Rightarrow> throw (FaultError c e))"

definition repoGet :: "sandbox verb" where
  "repoGet = andThen (ask CallGet) (\<lambda>_ env w.
     case w_record w of None \<Rightarrow> (Inl (FaultError CallGet NoRecord), w) | Some sb \<Rightarrow> (Inr sb, w))"

text \<open>\<open>Repository.Update\<close>: the mutation sees the record on disk and may refuse; a failed write leaves the old
  record or the new one.\<close>

definition updateWith :: "(time \<Rightarrow> sandbox \<Rightarrow> life_error + sandbox \<times> 'a) \<Rightarrow> 'a verb" where
  "updateWith f = (\<lambda>env w.
     let a = answer_at env w in
     case w_record w of
       None \<Rightarrow> (Inl (FaultError CallUpdate NoRecord), logged (Called CallUpdate a) w)
     | Some sb \<Rightarrow>
         (case f (an_now a) sb of
            Inl e \<Rightarrow> (Inl e, logged (Called CallUpdate a) w)
          | Inr (sb', x) \<Rightarrow>
              (case an_err a of
                 None \<Rightarrow> (Inr x, logged (Wrote sb sb') w\<lparr>w_record := Some sb'\<rparr>)
               | Some e \<Rightarrow>
                   (Inl (FaultError CallUpdate e),
                    if an_written a then logged (Wrote sb sb') w\<lparr>w_record := Some sb'\<rparr> else logged (Called CallUpdate a) w))))"

definition update :: "(sandbox \<Rightarrow> sandbox) \<Rightarrow> unit verb" where
  "update f = updateWith (\<lambda>_ sb. Inr (f sb, ()))"

definition repoDelete :: "unit verb" where
  "repoDelete = (\<lambda>env w.
     let a = answer_at env w in
     case w_record w of
       None \<Rightarrow> (Inl (FaultError CallDelete NoRecord), logged (Called CallDelete a) w)
     | Some sb \<Rightarrow>
         (case an_err a of
            None \<Rightarrow> (Inr (), logged Deleted w\<lparr>w_record := None\<rparr>)
          | Some e \<Rightarrow>
              (Inl (FaultError CallDelete e),
               if an_written a then logged Deleted w\<lparr>w_record := None\<rparr> else logged (Called CallDelete a) w)))"

subsection \<open>Shared steps\<close>

definition recordOf :: "sandbox verb" where
  "recordOf = repoGet"

definition FailedGuard :: "sandbox \<Rightarrow> unit verb" where
  "FailedGuard sb = (if sb_State sb \<noteq> StateFailed then ret () else throw (StateError StateFailed CodeSandboxFailed))"

definition probe :: "status verb" where
  "probe = andThen (call CallStatus) (\<lambda>a.
     case an_err a of
       None \<Rightarrow> ret (an_status a)
     | Some e \<Rightarrow> throw (if e = TimedOut then SubstrateTimeout else FaultError CallStatus e))"

definition providerStatus :: "status verb" where
  "providerStatus = andThen (ask CallStatus) (\<lambda>a. ret (an_status a))"

definition openPorts :: "unit verb" where
  "openPorts = andThen repoGet (\<lambda>sb. andThen (ask CallOpenPorts) (\<lambda>_. ret ()))"

definition closePorts :: "unit verb" where
  "closePorts = andThen (ask CallClosePorts) (\<lambda>_. ret ())"

definition table :: "(process_report list \<times> string) verb" where
  "table = andThen (call CallProcesses) (\<lambda>a.
     case an_err a of
       None \<Rightarrow> ret (an_reports a, [])
     | Some e \<Rightarrow> (case channel_broken e of Some why \<Rightarrow> ret ([], why) | None \<Rightarrow> throw (FaultError CallProcesses e)))"

definition failWith :: "life_error \<Rightarrow> 'a verb" where
  "failWith cause = andThen (asks (\<lambda>env. (en_text env cause, en_public env cause))) (\<lambda>(text, public).
     andThen (attempt (update (write_failed text public))) (\<lambda>r.
       case r of Inl e \<Rightarrow> throw (Joined cause e) | Inr _ \<Rightarrow> throw cause))"

definition hasCheckpoint :: "string \<Rightarrow> bool verb" where
  "hasCheckpoint dir =
     (if dir = [] then ret False else andThen (ask (CallStatCheckpoint dir)) (\<lambda>a. ret (an_held a)))"

definition dropCheckpoint :: "unit verb" where
  "dropCheckpoint = andThen (ask CallCheckpointDir) (\<lambda>_. andThen (ask CallDropCheckpoint) (\<lambda>_. ret ()))"

definition RecordRunning :: "bool \<Rightarrow> unit verb" where
  "RecordRunning resumed = andThen providerStatus (\<lambda>st. andThen (asks en_kernel) (\<lambda>tag.
     updateWith (\<lambda>now sb. Inr (write_running resumed (st_PID st) tag now sb, ()))))"

definition Reconcile :: "bool \<Rightarrow> unit verb" where
  "Reconcile resumed = andThen providerStatus (\<lambda>st.
     if \<not> Alive st then ret () else andThen (RecordRunning resumed) (\<lambda>_. throw MayBeRunning))"

definition recordPaused :: "string \<Rightarrow> unit verb" where
  "recordPaused dir = update (write_paused dir)"

definition recordUnresponsive :: "sandbox \<Rightarrow> string \<Rightarrow> unit verb" where
  "recordUnresponsive sb reason =
     (if sb_State sb = StateUnresponsive \<and> sb_UnresponsiveReason sb = reason then ret ()
      else update (write_unresponsive reason))"

definition recordAnswered :: "status \<Rightarrow> unit verb" where
  "recordAnswered st = update (write_answered st)"

definition recordDied :: "string \<Rightarrow> unit verb" where
  "recordDied reason = andThen (update (write_died reason)) (\<lambda>_. andThen (call CallDropExecs) (\<lambda>_. ret ()))"

definition recordSupervisorFailed :: "string \<Rightarrow> unit verb" where
  "recordSupervisorFailed why = update (write_supervisor_failed why)"

definition recordOOMKilled :: "sandbox \<Rightarrow> time \<Rightarrow> unit verb" where
  "recordOOMKilled sb now =
     andThen (update (write_oom (nextOOM sb now))) (\<lambda>_. andThen (call CallDropExecs) (\<lambda>_. ret ()))"

definition dropMark :: "unit verb" where
  "dropMark = update (\<lambda>sb. sb\<lparr>sb_Pausing := False\<rparr>)"

text \<open>\<open>awaitStopped\<close> polls the substrate every 50 ms until the settle is over; the answer to the settle says how
  many polls it leaves room for.\<close>

fun pollStopped :: "nat \<Rightarrow> status verb" where
  "pollStopped polls = andThen (call CallStatus) (\<lambda>a.
     case an_err a of
       Some e \<Rightarrow> throw (if an_cancelled a then Cancelled else FaultError CallStatus e)
     | None \<Rightarrow>
         if \<not> Alive (an_status a) then ret (an_status a)
         else case polls of
           0 \<Rightarrow> throw DidNotStop
         | Suc n \<Rightarrow> if an_cancelled a then throw Cancelled else pollStopped n)"

definition awaitStopped :: "status verb" where
  "awaitStopped = andThen (call CallSettle) (\<lambda>a. pollStopped (an_polls a))"

declare pollStopped.simps [simp del]

subsection \<open>Named processes\<close>

definition logSize :: "string \<Rightarrow> int verb" where
  "logSize name = andThen (ask (CallLogSize name)) (\<lambda>a. ret (an_size a))"

definition unstarted :: "sandbox \<Rightarrow> process \<Rightarrow> life_fault \<Rightarrow> process verb" where
  "unstarted prior p e =
     (if e = StillRunning \<or> e = NotSupported then
        andThen (update (\<lambda>rec. rec\<lparr>sb_Processes := sb_Processes prior, sb_LogStarts := sb_LogStarts prior\<rparr>)) (\<lambda>_.
          throw (if e = StillRunning then StateError (sb_State prior) CodeNameTaken
                 else FaultError (CallStartProcess (pr_Name p)) e))
      else
        let q = with_state ProcessExited p;
            r = (case e of NotStarted c \<Rightarrow> q\<lparr>pr_Status := (pr_Status q)\<lparr>ps_Exit := Some \<lparr>es_Code = c, es_Signal = 0\<rparr>\<rparr>\<rparr> | _ \<Rightarrow> q) in
        andThen (update (\<lambda>rec. rec\<lparr>sb_Processes := withProcess (sb_Processes rec) r\<rparr>)) (\<lambda>_.
          throw (FaultError (CallStartProcess (pr_Name p)) e)))"

definition startProcess :: "sandbox \<Rightarrow> process list \<Rightarrow> process \<Rightarrow> process verb" where
  "startProcess prior procs p = andThen (logSize (pr_Name p)) (\<lambda>start.
     andThen (updateWith (\<lambda>now rec.
         let q = p\<lparr>pr_Status := \<lparr>ps_State = ProcessRunning, ps_Restarts = 0, ps_Exit = None, ps_StartedAt = now\<rparr>\<rparr> in
         Inr (rec\<lparr>sb_Processes := withProcess procs q, sb_LogStarts := withLogStart (sb_LogStarts rec) (pr_Name p) start\<rparr>, q))) (\<lambda>q.
       andThen (call (CallStartProcess (pr_Name p))) (\<lambda>a.
         case an_err a of None \<Rightarrow> ret q | Some e \<Rightarrow> unstarted prior q e)))"

text \<open>One process of \<open>launch\<close>: one that fails is kept as an error and the rest still start, but a record that cannot
  be read ends the loop.\<close>

fun launch_loop :: "(process \<Rightarrow> bool) \<Rightarrow> life_error option \<Rightarrow> process list \<Rightarrow> unit verb" where
  "launch_loop starts err [] = (case err of None \<Rightarrow> ret () | Some e \<Rightarrow> throw e)"
| "launch_loop starts err (p # ps) =
     (if \<not> starts p then launch_loop starts err ps
      else andThen (attempt repoGet) (\<lambda>r.
        case r of
          Inl e \<Rightarrow> throw (case err of None \<Rightarrow> e | Some d \<Rightarrow> Joined d e)
        | Inr rec \<Rightarrow>
            andThen (attempt (startProcess rec (sb_Processes rec) p)) (\<lambda>s.
              launch_loop starts
                (case s of Inr _ \<Rightarrow> err | Inl e \<Rightarrow> Some (case err of None \<Rightarrow> e | Some d \<Rightarrow> Joined d e)) ps)))"

definition launch :: "trigger \<Rightarrow> (string \<Rightarrow> bool) \<Rightarrow> unit verb" where
  "launch by skip = andThen repoGet (\<lambda>sb.
     launch_loop (\<lambda>p. \<not> skip (pr_Name p) \<and> launchable p sb by) None (sb_Processes sb))"

definition seen :: "sandbox \<Rightarrow> process list verb" where
  "seen sb = (if \<not> Live (sb_State sb) then ret (sb_Processes sb)
     else andThen table (\<lambda>(reports, _). ret (merged (sb_Processes sb) reports)))"

definition killProcess :: "string \<Rightarrow> process_report list \<Rightarrow> bool \<Rightarrow> process list \<Rightarrow> (process list \<times> process) option" where
  "killProcess name reports reaped known =
     (let procs = merged known reports in
      case IndexFunc (isNamed name) procs of
        None \<Rightarrow> None
      | Some i \<Rightarrow>
          let q = (procs ! i)\<lparr>pr_Killed := True\<rparr>;
              r = (if reaped \<and> \<not> exitedProcess q then with_state ProcessKilled q else q) in
          Some (procs[i := r], r))"

definition recordKill :: "string \<Rightarrow> process_report list \<Rightarrow> bool \<Rightarrow> process verb" where
  "recordKill name reports reaped = updateWith (\<lambda>_ rec.
     case killProcess name reports reaped (sb_Processes rec) of
       None \<Rightarrow> Inl (FaultError CallUpdate Failure)
     | Some (procs, killed) \<Rightarrow> Inr (rec\<lparr>sb_Processes := procs\<rparr>, killed))"

definition recordExitChannel :: "sandbox \<Rightarrow> string \<Rightarrow> unit verb" where
  "recordExitChannel sb why =
     (if sb_ExitChannel sb = why then ret () else update (\<lambda>rec. rec\<lparr>sb_ExitChannel := why\<rparr>))"

definition writeProcesses :: "sandbox \<Rightarrow> unit verb" where
  "writeProcesses sb =
     (if \<not> Supervised sb then ret ()
      else andThen table (\<lambda>(reports, why). andThen (recordExitChannel sb why) (\<lambda>_.
        if list_all2 sameStatus (merged (sb_Processes sb) reports) (sb_Processes sb) then ret ()
        else update (\<lambda>rec. rec\<lparr>sb_Processes := merged (sb_Processes rec) reports\<rparr>))))"

definition recordProcesses :: "unit verb" where
  "recordProcesses = andThen (call CallTryLock) (\<lambda>a.
     if an_err a \<noteq> None then ret () else andThen repoGet writeProcesses)"

definition recordProcessesNow :: "unit verb" where
  "recordProcessesNow = andThen (ask CallLock) (\<lambda>_. andThen repoGet writeProcesses)"

subsection \<open>Start\<close>

definition recordFailedStart :: "unit verb" where
  "recordFailedStart = andThen providerStatus (\<lambda>st.
     if Alive st \<or> st_SupervisorFailed st = [] then ret ()
     else update (supervisorFailed (st_SupervisorFailed st)))"

definition startWithin :: "unit verb" where
  "startWithin = andThen (ask CallAllocate) (\<lambda>_. andThen (attempt (ask CallStart)) (\<lambda>r.
     case r of
       Inr _ \<Rightarrow> RecordRunning False
     | Inl e \<Rightarrow> andThen (attempt (Reconcile False)) (\<lambda>s.
         case s of
           Inl d \<Rightarrow> throw (Joined e d)
         | Inr _ \<Rightarrow> andThen (attempt recordFailedStart) (\<lambda>t.
             throw (case t of Inl d \<Rightarrow> Joined e d | Inr _ \<Rightarrow> e)))))"

text \<open>The budget of a start: past it the verb answers the timeout, whatever the start did.\<close>

definition startVerb :: "unit verb" where
  "startVerb = andThen (attempt startWithin) (\<lambda>r. andThen (call CallBudget) (\<lambda>a.
     if an_err a \<noteq> None then throw SubstrateTimeout
     else case r of Inl e \<Rightarrow> throw e | Inr _ \<Rightarrow> ret ()))"

definition Start :: "sandbox verb" where
  "Start = andThen (ask CallResolve) (\<lambda>_. andThen (ask CallLock) (\<lambda>_. andThen repoGet (\<lambda>sb.
     andThen (FailedGuard sb) (\<lambda>_.
       if sb_State sb \<noteq> StateStopped then throw (StateError (sb_State sb) CodeSandboxNotStopped)
       else andThen startVerb (\<lambda>_. andThen openPorts (\<lambda>_.
         andThen (update (\<lambda>rec. rec\<lparr>sb_StoppedByOperator := False\<rparr>)) (\<lambda>_.
           andThen (attempt (launch OperatorStart (\<lambda>_. False))) (\<lambda>_. recordOf))))))))"

subsection \<open>Stop\<close>

definition kill :: "unit verb" where
  "kill = andThen (ask CallStop) (\<lambda>_. andThen awaitStopped (\<lambda>st.
     andThen (call CallDropExecs) (\<lambda>_. andThen table (\<lambda>(after, _).
       andThen (update (write_stopped after (st_SupervisorFailed st))) (\<lambda>_. dropCheckpoint)))))"

definition stopVerb :: "bool \<Rightarrow> unit verb" where
  "stopVerb force = andThen repoGet (\<lambda>sb. andThen closePorts (\<lambda>_.
     if force then kill
     else andThen (attempt probe) (\<lambda>r.
       case r of
         Inl e \<Rightarrow> if e = SubstrateTimeout \<and> sb_State sb = StateStopped then kill else throw e
       | Inr st \<Rightarrow>
           if sb_State sb = StateStopped \<and> \<not> Alive st \<and> RestartDue (sb_OOM sb)
           then andThen (update callOffOOMRestart) (\<lambda>_. dropCheckpoint)
           else if sb_State sb = StateStopped \<and> \<not> Alive st
           then andThen (update byOperator) (\<lambda>_. dropCheckpoint)
           else kill)))"

definition Stop :: "sandbox verb" where
  "Stop = andThen (ask CallResolve) (\<lambda>_. andThen (call CallCancelPull) (\<lambda>_. andThen (ask CallLock) (\<lambda>_.
     andThen repoGet (\<lambda>sb.
       andThen (if sb_State sb = StatePending
                then andThen (asks (\<lambda>env. (en_text env Cancelled, en_public env Cancelled))) (\<lambda>(text, public).
                  andThen (update (write_failed text public)) (\<lambda>_. repoGet))
                else ret sb) (\<lambda>now.
         andThen (FailedGuard now) (\<lambda>_. andThen (stopVerb False) (\<lambda>_. recordOf)))))))"

subsection \<open>Remove\<close>

definition refuseOrStop :: "state \<Rightarrow> bool \<Rightarrow> unit verb" where
  "refuseOrStop st force = (if \<not> force then throw (StateError st CodeSandboxNotStopped) else stopVerb True)"

definition reclaim :: "unit verb" where
  "reclaim = andThen (asks en_reclaims) (\<lambda>ok.
     if \<not> ok then throw SubstrateTimeout
     else andThen (attempt (ask CallReclaim)) (\<lambda>r.
       case r of Inl e \<Rightarrow> throw (Joined SubstrateTimeout e) | Inr _ \<Rightarrow> ret ()))"

definition endIfAlive :: "sandbox \<Rightarrow> bool \<Rightarrow> unit verb" where
  "endIfAlive sb force =
     (if sb_State sb = StatePaused then refuseOrStop (sb_State sb) force
      else andThen (attempt probe) (\<lambda>r.
        case r of
          Inl e \<Rightarrow> if force \<and> e = SubstrateTimeout then andThen reclaim (\<lambda>_. stopVerb force) else throw e
        | Inr st \<Rightarrow> if \<not> Alive st then ret () else refuseOrStop (st_State st) force))"

text \<open>\<open>free\<close> gives back what a stop kept, in this order, and stops at the first failure.\<close>

definition freeVerb :: "unit verb" where
  "freeVerb = andThen closePorts (\<lambda>_. andThen (ask CallRemove) (\<lambda>_. andThen (ask CallRelease) (\<lambda>_.
     andThen repoDelete (\<lambda>_. andThen (ask CallReapplyAll) (\<lambda>_. ret ())))))"

definition dropSubstrateRoot :: "unit verb" where
  "dropSubstrateRoot = andThen (call CallList) (\<lambda>a.
     case an_err a of
       Some e \<Rightarrow> if e = Unreadable then ret () else throw (FaultError CallList e)
     | None \<Rightarrow> if an_held a then ret () else andThen (ask CallReleaseRoot) (\<lambda>_. ret ()))"

definition Remove :: "bool \<Rightarrow> unit verb" where
  "Remove force = andThen (ask CallResolve) (\<lambda>_. andThen (call CallCancelPull) (\<lambda>_. andThen (ask CallLock) (\<lambda>_.
     andThen repoGet (\<lambda>sb. andThen (endIfAlive sb force) (\<lambda>_. andThen (call CallDropExecs) (\<lambda>_.
       andThen freeVerb (\<lambda>_. dropSubstrateRoot)))))))"

subsection \<open>Pause and resume\<close>

definition markedCheckpoint :: "sandbox \<Rightarrow> string verb" where
  "markedCheckpoint sb =
     (if \<not> Live (sb_State sb) \<or> \<not> sb_Pausing sb then ret []
      else andThen (ask CallCheckpointDir) (\<lambda>a. andThen (hasCheckpoint (an_text a)) (\<lambda>held.
        ret (if held then an_text a else []))))"

definition cutPause :: "sandbox \<Rightarrow> status \<Rightarrow> string verb" where
  "cutPause sb st = andThen (markedCheckpoint sb) (\<lambda>dir. andThen (asks en_releases) (\<lambda>ok.
     if dir = [] then ret []
     else if \<not> ok \<and> \<not> Alive st then ret dir
     else if \<not> ok \<or> Alive st \<and> st_State st \<noteq> StatePaused then ret []
     else andThen (ask CallReleaseFrozen) (\<lambda>_. ret dir)))"

definition settleLivePause :: "status \<Rightarrow> unit verb" where
  "settleLivePause st = andThen repoGet (\<lambda>sb. andThen (cutPause sb st) (\<lambda>dir.
     if dir \<noteq> [] then andThen (recordPaused dir) (\<lambda>_. throw PausedButCleanup)
     else andThen (markedCheckpoint sb) (\<lambda>held.
       if held \<noteq> [] \<and> st_State st = StatePaused then throw FrozenBeside
       else dropMark)))"

definition reconcileGone :: "string \<Rightarrow> unit verb" where
  "reconcileGone dir = andThen probe (\<lambda>st.
     if Alive st then settleLivePause st
     else andThen (hasCheckpoint dir) (\<lambda>held.
       if held then andThen (recordPaused dir) (\<lambda>_. throw PausedButCleanup)
       else andThen (update write_gone) (\<lambda>_. throw GoneWhilePausing)))"

definition Pause :: "sandbox verb" where
  "Pause = andThen (asks en_pause) (\<lambda>can. if \<not> can then throw Unsupported else
     andThen (ask CallResolve) (\<lambda>_. andThen (ask CallLock) (\<lambda>_. andThen repoGet (\<lambda>sb.
       andThen (FailedGuard sb) (\<lambda>_.
         if sb_State sb \<noteq> StateRunning then throw (StateError (sb_State sb) CodeSandboxNotRunning)
         else andThen closePorts (\<lambda>_. andThen (ask CallCheckpointDir) (\<lambda>d.
           andThen (ask (CallRemoveCheckpoint (an_text d))) (\<lambda>_.
             andThen (update (\<lambda>rec. rec\<lparr>sb_Pausing := True\<rparr>)) (\<lambda>_. andThen (call CallPause) (\<lambda>a.
               case an_err a of
                 None \<Rightarrow> andThen (recordPaused (an_text d)) (\<lambda>_. recordOf)
               | Some e \<Rightarrow>
                   (case silent_reason e of
                      Some reason \<Rightarrow>
                        andThen (recordUnresponsive sb reason) (\<lambda>_. throw (StateError StateUnresponsive CodeSandboxNotRunning))
                    | None \<Rightarrow>
                        if e = LostGuest then failWith (FaultError CallPause LostGuest)
                        else andThen (attempt (reconcileGone (an_text d))) (\<lambda>r.
                          throw (case r of Inl g \<Rightarrow> Joined (FaultError CallPause e) g | Inr _ \<Rightarrow> FaultError CallPause e)))))))))))))"

definition Resume :: "sandbox verb" where
  "Resume = andThen (asks en_resume) (\<lambda>can. if \<not> can then throw Unsupported else
     andThen (ask CallResolve) (\<lambda>_. andThen (ask CallLock) (\<lambda>_. andThen repoGet (\<lambda>sb.
       andThen (FailedGuard sb) (\<lambda>_.
         if sb_State sb \<noteq> StatePaused then throw (StateError (sb_State sb) CodeSandboxNotPaused)
         else if sb_Checkpoint sb = [] then throw (StateError (sb_State sb) CodeNoCheckpoint)
         else andThen (ask CallAllocate) (\<lambda>_.
           andThen (attempt (ask CallResume)) (\<lambda>r.
             case r of
               Inl e \<Rightarrow> andThen (attempt (Reconcile True)) (\<lambda>s.
                 throw (case s of Inl d \<Rightarrow> Joined e d | Inr _ \<Rightarrow> e))
             | Inr _ \<Rightarrow> andThen (attempt (ask CallReapply)) (\<lambda>t.
                 case t of
                   Inl e \<Rightarrow> andThen (attempt (Reconcile True)) (\<lambda>s.
                     throw (case s of Inl d \<Rightarrow> Joined e d | Inr _ \<Rightarrow> e))
                 | Inr _ \<Rightarrow> andThen (RecordRunning True) (\<lambda>_. andThen openPorts (\<lambda>_. recordOf))))))))))"

subsection \<open>Create\<close>

fun unwind :: "unit verb list \<Rightarrow> unit verb" where
  "unwind [] = ret ()"
| "unwind (step # steps) = andThen step (\<lambda>_. unwind steps)"

text \<open>The stack of a create or a fork while \<open>m\<close> runs, the latest claim first: a failure gives the claims back, but for
  an interrupted start, whose sandbox may run and which discards the stack.\<close>

definition unwinding :: "unit verb list \<Rightarrow> 'a verb \<Rightarrow> 'a verb" where
  "unwinding steps m = andThen (attempt m) (\<lambda>r.
     case r of
       Inr x \<Rightarrow> ret x
     | Inl e \<Rightarrow>
         if interrupted e then throw e
         else andThen (attempt (unwind steps)) (\<lambda>s. throw (case s of Inl d \<Rightarrow> Joined e d | Inr _ \<Rightarrow> e)))"

definition giveBack :: "life_call \<Rightarrow> unit verb" where
  "giveBack c = andThen (ask c) (\<lambda>_. ret ())"

definition write_created :: "int \<Rightarrow> net_spec \<Rightarrow> string \<Rightarrow> string \<Rightarrow> sandbox \<Rightarrow> sandbox" where
  "write_created pid spec digest tag sb =
     sb\<lparr>sb_PID := pid, sb_NetnsPath := ns_NetnsPath spec, sb_Address := ns_Address spec,
        sb_HostInterface := ns_HostInterface spec, sb_Digest := digest, sb_Kernel := tag\<rparr>"

definition recordCreated :: "net_spec \<Rightarrow> string \<Rightarrow> unit verb" where
  "recordCreated spec digest = andThen providerStatus (\<lambda>st. andThen (asks en_kernel) (\<lambda>tag.
     update (write_created (st_PID st) spec digest tag)))"

definition firstStart :: "unit verb" where
  "firstStart = andThen (call CallStart) (\<lambda>a.
     case an_err a of
       None \<Rightarrow> ret ()
     | Some e \<Rightarrow> andThen (call CallContext) (\<lambda>b.
         throw (if an_cancelled b then Interrupted (FaultError CallStart e) else FaultError CallStart e)))"

text \<open>What \<open>CreateRequest.fronted\<close> reads of a request: its policy and its secrets, which a snapshot it names leaves as they are.\<close>

definition request_fronted :: "string \<Rightarrow> string list \<Rightarrow> bool" where
  "request_fronted policy secrets = (policy \<noteq> [] \<or> secrets \<noteq> [])"

text \<open>Everything before the commit point.\<close>

definition build :: "bool \<Rightarrow> string \<Rightarrow> unit verb" where
  "build fronted snapshot =
     andThen (if snapshot \<noteq> [] then andThen (ask CallSeed) (\<lambda>a. ret (Some a)) else ret None) (\<lambda>seed.
       andThen (ask CallSecrets) (\<lambda>_. andThen (if fronted then giveBack CallProxyCA else ret ()) (\<lambda>_.
         andThen (case seed of Some a \<Rightarrow> ret a | None \<Rightarrow> ask CallPull) (\<lambda>img. andThen (ask CallDir) (\<lambda>_.
           andThen (unwinding [giveBack CallRelease] (ask CallAllocate)) (\<lambda>net.
             unwinding [giveBack CallRemove, giveBack CallRelease]
               (andThen (ask CallCreate) (\<lambda>_. andThen (recordCreated (an_spec net) (an_text img)) (\<lambda>_.
                 andThen (if fronted then giveBack CallReapply else ret ()) (\<lambda>_. firstStart))))))))))"

definition write_first_run :: "time \<Rightarrow> sandbox \<Rightarrow> sandbox" where
  "write_first_run now sb = sb\<lparr>sb_State := StateRunning, sb_StartedAt := now, sb_RunStartedAt := now\<rparr>"

definition Complete :: "string \<Rightarrow> string list \<Rightarrow> unit verb" where
  "Complete policy secrets = andThen (ask CallLock) (\<lambda>_. andThen (attempt repoGet) (\<lambda>g.
     case g of
       Inl e \<Rightarrow> if e = FaultError CallGet NoRecord then ret () else throw e
     | Inr sb \<Rightarrow>
         if sb_State sb \<noteq> StatePending then ret ()
         else andThen (attempt (build (request_fronted policy secrets) (sb_Snapshot sb))) (\<lambda>r.
           case r of
             Inl e \<Rightarrow>
               if interrupted e then throw e
               else andThen (call CallContext) (\<lambda>a. if an_cancelled a then throw e else failWith e)
           | Inr _ \<Rightarrow> andThen (updateWith (\<lambda>now rec. Inr (write_first_run now rec, ()))) (\<lambda>_. openPorts))))"

subsection \<open>Fork\<close>

definition repoCreate :: "(time \<Rightarrow> string \<Rightarrow> sandbox) \<Rightarrow> unit verb" where
  "repoCreate f = (\<lambda>env w.
     let a = answer_at env w in
     case an_err a of
       Some e \<Rightarrow> (Inl (FaultError CallMake e), logged (Called CallMake a) w)
     | None \<Rightarrow> (Inr (), logged (Made (f (an_now a) (an_text a))) w\<lparr>w_record := Some (f (an_now a) (an_text a))\<rparr>))"

text \<open>The copy's record: what a fork takes of its source. Its id is the one the repository generates.\<close>

definition copy_of :: "sandbox \<Rightarrow> string \<Rightarrow> string \<Rightarrow> time \<Rightarrow> string \<Rightarrow> sandbox" where
  "copy_of src name prov now i = zero_sandbox
     \<lparr>sb_ID := i, sb_ForkedFrom := sb_ID src, sb_Image := sb_Image src, sb_Digest := sb_Digest src,
      sb_Resources := sb_Resources src, sb_Secrets := sb_Secrets src, sb_Policy := sb_Policy src,
      sb_Processes := sb_Processes src, sb_Kernel := sb_Kernel src,
      sb_Name := name, sb_Provider := prov, sb_State := StateCreated, sb_CreatedAt := now\<rparr>"

definition dropCopy :: "unit verb" where
  "dropCopy = andThen (attempt repoDelete) (\<lambda>r.
     case r of Inr _ \<Rightarrow> ret () | Inl e \<Rightarrow> if e = FaultError CallDelete NoRecord then ret () else throw e)"

definition write_network :: "net_spec \<Rightarrow> sandbox \<Rightarrow> sandbox" where
  "write_network spec sb =
     sb\<lparr>sb_NetnsPath := ns_NetnsPath spec, sb_Address := ns_Address spec, sb_HostInterface := ns_HostInterface spec\<rparr>"

definition claimCopy :: "sandbox \<Rightarrow> string \<Rightarrow> string \<Rightarrow> unit verb" where
  "claimCopy src name prov = andThen (repoCreate (copy_of src name prov)) (\<lambda>_.
     andThen (unwinding [dropCopy] (andThen (ask CallLock) (\<lambda>_. andThen repoGet (\<lambda>_. ask CallDir)))) (\<lambda>_.
       unwinding [giveBack CallRelease, dropCopy] (andThen (ask CallAllocate) (\<lambda>net.
         andThen (update (write_network (an_spec net))) (\<lambda>_.
           if Fronted src then giveBack CallReapply else ret ())))))"

definition forkStart :: "unit verb" where
  "forkStart = andThen (call CallFork) (\<lambda>a.
     case an_err a of
       None \<Rightarrow> ret ()
     | Some e \<Rightarrow> andThen (call CallContext) (\<lambda>b.
         if \<not> an_cancelled b then throw (FaultError CallFork e)
         else andThen (attempt probe) (\<lambda>r.
           case r of
             Inl d \<Rightarrow> throw (Interrupted (Joined (FaultError CallFork e) d))
           | Inr st \<Rightarrow> throw (if Alive st then Interrupted (FaultError CallFork e) else FaultError CallFork e))))"

text \<open>The source is a record of its own, held under its own lock: \<open>src\<close> is what the read of it answers.\<close>

definition readSource :: "sandbox \<Rightarrow> string \<Rightarrow> unit verb" where
  "readSource src name =
     (if name \<noteq> [] \<and> ref_ValidName name \<noteq> Inr () then throw RequestRefused
      else andThen (ask CallResolve) (\<lambda>_. andThen (ask CallLock) (\<lambda>_. andThen (ask CallGet) (\<lambda>_. FailedGuard src))))"

definition Fork :: "sandbox \<Rightarrow> string \<Rightarrow> string \<Rightarrow> sandbox verb" where
  "Fork src name prov = andThen (asks en_fork) (\<lambda>can. if \<not> can then throw Unsupported else
     andThen (readSource src name) (\<lambda>_.
       if sb_State src \<noteq> StateRunning then throw (StateError (sb_State src) CodeSandboxNotRunning)
       else andThen (ask CallContext) (\<lambda>_. andThen (claimCopy src name prov) (\<lambda>_.
         andThen (unwinding [giveBack CallRemove, giveBack CallRelease, dropCopy] forkStart) (\<lambda>_.
           andThen (attempt (ask CallReapply)) (\<lambda>r.
             case r of
               Inl e \<Rightarrow> andThen (attempt (Reconcile True)) (\<lambda>s. throw (case s of Inl d \<Rightarrow> Joined e d | Inr _ \<Rightarrow> e))
             | Inr _ \<Rightarrow> andThen (RecordRunning True) (\<lambda>_. recordOf)))))))"

subsection \<open>Running and killing a named process\<close>

definition sameRun :: "sandbox \<Rightarrow> sandbox \<Rightarrow> bool" where
  "sameRun current sb = (Live (sb_State current) \<and> sb_PID current = sb_PID sb \<and> sb_RunStartedAt current = sb_RunStartedAt sb)"

definition noteUnresponsive :: "sandbox \<Rightarrow> string \<Rightarrow> unit verb" where
  "noteUnresponsive sb reason = andThen (call CallTryLock) (\<lambda>a.
     if an_err a \<noteq> None then ret ()
     else andThen repoGet (\<lambda>current. if \<not> sameRun current sb then ret () else recordUnresponsive current reason))"

definition pauseOutranks :: "life_error \<Rightarrow> 'a verb" where
  "pauseOutranks e = andThen (attempt repoGet) (\<lambda>r.
     case r of
       Inl d \<Rightarrow> throw (Joined e d)
     | Inr sb \<Rightarrow> if sb_State sb \<noteq> StatePaused \<and> \<not> sb_Pausing sb then throw e
                 else throw (StateError StatePaused CodeSandboxNotRunning))"

definition pausedMeanwhile :: "bool verb" where
  "pausedMeanwhile = andThen repoGet (\<lambda>sb.
     if sb_State sb = StatePaused then ret True else andThen (markedCheckpoint sb) (\<lambda>dir. ret (dir \<noteq> [])))"

definition readyForExec :: "sandbox verb" where
  "readyForExec = andThen (ask CallResolve) (\<lambda>_. andThen repoGet (\<lambda>sb. andThen (FailedGuard sb) (\<lambda>_.
     if sb_State sb = StateStopped then throw (StateError StateStopped CodeSandboxNotRunning)
     else if sb_State sb = StatePaused then throw (StateError StatePaused CodeSandboxNotRunning)
     else andThen (attempt (ask CallStatus)) (\<lambda>r.
       case r of
         Inl e \<Rightarrow> pauseOutranks e
       | Inr a \<Rightarrow>
           let st = an_status a in
           if st_State st = StateUnresponsive
           then andThen (noteUnresponsive sb (st_Reason st)) (\<lambda>_. throw Unavailable)
           else if Alive st then ret sb
           else andThen pausedMeanwhile (\<lambda>paused.
             throw (if paused then StateError StatePaused CodeSandboxNotRunning
                    else if st_OOMKilled st \<or> \<not> st_Exists st then Unavailable
                    else StateError (st_State st) CodeSandboxNotRunning))))))"

definition Run :: "run_request \<Rightarrow> process verb" where
  "Run req =
     (case newProcess req of
        Inl _ \<Rightarrow> throw RequestRefused
      | Inr p \<Rightarrow> andThen (ask CallResolve) (\<lambda>_. andThen (ask CallLock) (\<lambda>_. andThen readyForExec (\<lambda>sb.
          andThen (seen sb) (\<lambda>procs.
            case admitted procs (pr_Name p) of
              Inl NameTaken \<Rightarrow> throw (StateError (sb_State sb) CodeNameTaken)
            | Inl ProcessLimit \<Rightarrow> throw (StateError (sb_State sb) CodeProcessLimit)
            | Inr rest \<Rightarrow> startProcess sb rest p)))))"

definition Kill :: "string \<Rightarrow> process verb" where
  "Kill name = andThen (ask CallResolve) (\<lambda>_. andThen (ask CallLock) (\<lambda>_. andThen repoGet (\<lambda>sb.
     andThen (FailedGuard sb) (\<lambda>_.
       if \<not> list_ex (isNamed name) (sb_Processes sb) then throw (StateError (sb_State sb) CodeNoProcess)
       else if sb_State sb = StateStopped \<or> sb_State sb = StateCreated then recordKill name [] False
       else andThen readyForExec (\<lambda>_. andThen (ask (CallStopProcess name)) (\<lambda>_.
         andThen table (\<lambda>(reports, _). recordKill name reports True)))))))"

end
