(* ===== verification/Tasks.thy ===== *)
theory Tasks
  imports Lifecycle
begin

text \<open>
  What the daemon does to a record on its own: the correction of every record as it comes up
  (\<open>reconcile.go\<close>), the liveness tick (\<open>liveness.go\<close>), the start again after a memory kill (\<open>oom.go\<close>)
  and what a daemon start brings back (\<open>autostart.go\<close>).

  The liveness tick probes the substrate without the lock, so what it holds is a listed record and a
  probe that may both be old: they are arguments of the step it runs under the lock.
\<close>

subsection \<open>The liveness tick\<close>

definition probeLive :: "status option verb" where
  "probeLive = andThen (attempt probe) (\<lambda>r.
     case r of
       Inr st \<Rightarrow> ret (Some st)
     | Inl e \<Rightarrow> if e = SubstrateTimeout then ret None else throw e)"

definition settleLive :: "sandbox \<Rightarrow> time \<Rightarrow> status \<Rightarrow> unit verb" where
  "settleLive current now st = andThen (cutPause current st) (\<lambda>dir.
     if dir \<noteq> [] then recordPaused dir
     else andThen (if ranPast current st then dropMark else ret ()) (\<lambda>_.
       if Alive st then ret ()
       else if st_OOMKilled st then recordOOMKilled current now
       else if st_SupervisorFailed st \<noteq> [] then recordSupervisorFailed (st_SupervisorFailed st)
       else recordDied DiedReason))"

definition reconcileLocked :: "sandbox \<Rightarrow> time \<Rightarrow> status \<Rightarrow> unit verb" where
  "reconcileLocked sb now st = andThen (call CallTryLock) (\<lambda>a.
     if an_err a \<noteq> None then ret ()
     else andThen repoGet (\<lambda>current.
       if \<not> sameRun current sb then ret ()
       else if st_State st = StateUnresponsive then recordUnresponsive current (st_Reason st)
       else andThen (if Alive st \<and> sb_State current = StateUnresponsive
                     then andThen (recordAnswered st) (\<lambda>_. repoGet) else ret current) (\<lambda>cur.
         if ranPast cur st
         then andThen probeLive (\<lambda>again. case again of None \<Rightarrow> ret () | Some st' \<Rightarrow> settleLive cur now st')
         else settleLive cur now st)))"

definition reconcileLive :: "sandbox \<Rightarrow> time \<Rightarrow> unit verb" where
  "reconcileLive sb now = andThen repoGet (\<lambda>prior.
     if \<not> sameRun prior sb then ret ()
     else andThen probeLive (\<lambda>r. case r of None \<Rightarrow> ret () | Some st \<Rightarrow> reconcileLocked sb now st))"

subsection \<open>The start again after a memory kill\<close>

definition put_off :: "time \<Rightarrow> time \<Rightarrow> sandbox \<Rightarrow> sandbox" where
  "put_off due now rec =
     (case sb_OOM rec of
        Some k \<Rightarrow>
          if sb_State rec \<noteq> StateStopped \<or> oom_RestartAt k = 0 \<or> oom_RestartAt k \<noteq> due then rec
          else rec\<lparr>sb_OOM := Some (k\<lparr>oom_InARow := oom_InARow k + 1, oom_RestartAt := now + oomBackoff (oom_InARow k + 1)\<rparr>)\<rparr>
      | None \<Rightarrow> rec)"

definition retryOOMStart :: "time \<Rightarrow> time \<Rightarrow> life_error \<Rightarrow> unit verb" where
  "retryOOMStart due now cause = andThen (attempt (update (put_off due now))) (\<lambda>r.
     throw (case r of Inl e \<Rightarrow> Joined cause e | Inr _ \<Rightarrow> cause))"

definition due_at :: "sandbox \<Rightarrow> time" where
  "due_at sb = (case sb_OOM sb of Some k \<Rightarrow> oom_RestartAt k | None \<Rightarrow> 0)"

definition startAgainWhenDue :: "sandbox \<Rightarrow> time \<Rightarrow> unit verb" where
  "startAgainWhenDue sb now =
     (if now < due_at sb then ret ()
      else andThen (call CallTryLock) (\<lambda>a.
        if an_err a \<noteq> None then ret ()
        else andThen (attempt repoGet) (\<lambda>g.
          case g of
            Inl e \<Rightarrow> if e = FaultError CallGet NoRecord then ret () else throw e
          | Inr current \<Rightarrow>
              if sb_State current \<noteq> StateStopped \<or> \<not> RestartDue (sb_OOM current) \<or> due_at current \<noteq> due_at sb then ret ()
              else andThen (attempt startVerb) (\<lambda>r.
                case r of
                  Inl e \<Rightarrow> retryOOMStart (due_at current) now e
                | Inr _ \<Rightarrow> andThen (attempt (launch DaemonStart (\<lambda>_. False))) (\<lambda>_. ret ())))))"

text \<open>One record of the liveness tick.\<close>

definition Liveness :: "sandbox \<Rightarrow> time \<Rightarrow> unit verb" where
  "Liveness sb now =
     (if Live (sb_State sb) then reconcileLive sb now
      else if sb_State sb = StateStopped \<and> RestartDue (sb_OOM sb) then startAgainWhenDue sb now
      else ret ())"

subsection \<open>What a daemon start brings back\<close>

definition autostart :: "unit verb" where
  "autostart = andThen (ask CallLock) (\<lambda>_. andThen repoGet (\<lambda>sb.
     if \<not> Owed sb then ret ()
     else if sb_State sb = StateStopped then andThen startVerb (\<lambda>_. launch DaemonStart (\<lambda>_. False))
     else if sb_State sb = StateRunning then
       andThen table (\<lambda>(reports, why).
         if why \<noteq> [] then throw (FaultError CallProcesses (ChannelBroken why))
         else launch DaemonStart (\<lambda>name.
           case latestReports reports name of Some r \<Rightarrow> \<not> Ended (ps_State (rep_Status r)) | None \<Rightarrow> False))
     else ret ()))"

subsection \<open>The correction of the records\<close>

definition reconciled :: "sandbox \<Rightarrow> status \<Rightarrow> state verb" where
  "reconciled sb st =
     (let unguarded = Alive st \<and> \<not> pfx_IsValid (sb_Address sb) in
      if sb_State sb = StateCreated then ret StateFailed
      else if sb_State sb = StatePending \<and> (st_State st = StateCreated \<or> unguarded) then ret StateFailed
      else if Live (sb_State sb) \<and> unguarded then ret StateFailed
      else if Live (sb_State sb) \<and> st_Unstarted st then ret StateFailed
      else if st_Unstarted st \<and> (sb_State sb = StateStopped \<or> sb_State sb = StateFailed) then ret (sb_State sb)
      else if st_State st = StateUnresponsive then ret StateUnresponsive
      else if st_State st = StatePaused then ret StatePaused
      else if Alive st then ret StateRunning
      else andThen (if sb_State sb = StatePaused then hasCheckpoint (sb_Checkpoint sb) else ret False) (\<lambda>held.
        if held then ret StatePaused
        else if sb_State sb = StatePending then ret StateFailed
        else if Live (sb_State sb) \<or> sb_State sb = StatePaused then ret StateStopped
        else ret (sb_State sb)))"

definition endUnstarted :: "unit verb" where
  "endUnstarted = andThen (ask CallStop) (\<lambda>_. andThen awaitStopped (\<lambda>_. ret ()))"

definition write_dropped :: "string \<Rightarrow> sandbox \<Rightarrow> sandbox" where
  "write_dropped reason sb = sb\<lparr>sb_State := StateFailed, sb_PID := 0, sb_FailedReason := reason, sb_FailedPublic := reason\<rparr>"

definition failDropped :: "sandbox \<Rightarrow> status \<Rightarrow> unit verb" where
  "failDropped sb st =
     andThen (if Alive st then endUnstarted else ret ()) (\<lambda>_.
       andThen (if sb_State sb = StateCreated then giveBack CallRemove else ret ()) (\<lambda>_.
         update (write_dropped (if sb_State sb = StateCreated then DroppedCopyReason else InterruptedReason))))"

definition write_substrate_paused :: "sandbox \<Rightarrow> sandbox" where
  "write_substrate_paused sb = sb\<lparr>sb_State := StatePaused, sb_PID := 0\<rparr>"

definition correct :: "sandbox \<Rightarrow> status \<Rightarrow> state \<Rightarrow> state verb" where
  "correct sb st s =
     (if s = StateStopped \<and> st_Unstarted st then andThen endUnstarted (\<lambda>_. ret s)
      else if s = sb_State sb then ret s
      else if s = StateUnresponsive then andThen (recordUnresponsive sb (st_Reason st)) (\<lambda>_. ret s)
      else if s = StateRunning \<and> sb_State sb = StateUnresponsive then andThen (recordAnswered st) (\<lambda>_. ret s)
      else if s = StateRunning then andThen (RecordRunning False) (\<lambda>_. ret s)
      else if s = StatePaused then andThen (update write_substrate_paused) (\<lambda>_. ret s)
      else if s = StateFailed then andThen (failDropped sb st) (\<lambda>_. ret s)
      else if st_SupervisorFailed st \<noteq> [] then
        andThen (recordSupervisorFailed (st_SupervisorFailed st)) (\<lambda>_. ret StateStopped)
      else andThen (update (write_died LostReason)) (\<lambda>_. ret s))"

text \<open>\<open>applyReconcile\<close> on the listed record and the answer of its probe.\<close>

definition applyReconcile :: "sandbox \<Rightarrow> life_error + status \<Rightarrow> time \<Rightarrow> state verb" where
  "applyReconcile sb probed now =
     (case probed of
        Inl e \<Rightarrow> if e = SubstrateTimeout then ret (sb_State sb) else throw e
      | Inr st \<Rightarrow>
          if Live (sb_State sb) \<and> \<not> Alive st \<and> st_OOMKilled st
          then andThen (recordOOMKilled sb now) (\<lambda>_. ret StateStopped)
          else andThen (cutPause sb st) (\<lambda>cut.
            if cut \<noteq> [] then andThen (recordPaused cut) (\<lambda>_. ret StatePaused)
            else andThen (if ranPast sb st then dropMark else ret ()) (\<lambda>_.
              andThen (reconciled sb st) (correct sb st))))"

definition adoptStaging :: "unit verb" where
  "adoptStaging = andThen (ask CallCheckpointDir) (\<lambda>d. andThen (ask (CallStatStaging (an_text d @ ''.tmp''))) (\<lambda>held.
     andThen (ask CallAdoptStaging) (\<lambda>_.
       if \<not> an_held held then ret () else andThen (ask (CallStatStaging (an_text d @ ''.tmp''))) (\<lambda>_. ret ()))))"

text \<open>One record of \<open>ReconcileAll\<close>: the probe answered before, the write is tried again as often as the retry allows, and the
  answer is the state the daemon counts the sandbox in, and whether it serves at all beside it.\<close>

fun retried :: "nat \<Rightarrow> 'a verb \<Rightarrow> 'a verb" where
  "retried 0 m = m"
| "retried (Suc n) m = andThen (attempt m) (\<lambda>r. case r of Inr x \<Rightarrow> ret x | Inl _ \<Rightarrow> retried n m)"

definition reconcileOne :: "nat \<Rightarrow> sandbox \<Rightarrow> life_error + status \<Rightarrow> time \<Rightarrow> (state \<times> bool) verb" where
  "reconcileOne tries sb probed now =
     andThen (attempt (andThen adoptStaging (\<lambda>_. retried tries (applyReconcile sb probed now)))) (\<lambda>r.
       case r of
         Inr s \<Rightarrow> ret (s, True)
       | Inl e \<Rightarrow>
           let s = (case probed of Inr st \<Rightarrow> if Alive st then StateRunning else sb_State sb | Inl _ \<Rightarrow> sb_State sb) in
           ret (s, \<not> (Live s \<and> Fronted sb \<and> \<not> pfx_IsValid (sb_Address sb))))"

text \<open>What \<open>ReconcileAll\<close> does with the answers: a live sandbox no egress rule guards ends the daemon's start, and
  otherwise the host rules go on again when any sandbox is live.\<close>

definition reconcileEnd :: "(state \<times> bool) list \<Rightarrow> bool option" where
  "reconcileEnd outcomes =
     (if list_ex (\<lambda>(_, guarded). \<not> guarded) outcomes then None else Some (list_ex (\<lambda>(s, _). Live s) outcomes))"

subsection \<open>Worlds and environments of the examples\<close>

text \<open>An environment in which no call fails and the substrate always says the same, a substrate that runs the sandbox and
  one that does not hold it, and a stopped sandbox with one process.\<close>

definition quiet_answer :: "status \<Rightarrow> answer" where
  "quiet_answer st = \<lparr>an_err = None, an_status = st, an_reports = [], an_now = 7, an_held = False, an_written = True, an_cancelled = False,
     an_text = ''/srv/ck'', an_size = 0, an_polls = 3,
     an_spec = \<lparr>ns_NetnsPath = ''ns'', ns_Address = Prefix (V4 10) (Some 16), ns_HostInterface = ''shardv2''\<rparr>\<rparr>"

definition quiet_env :: "status \<Rightarrow> life_env" where
  "quiet_env st = \<lparr>en_answer = (\<lambda>_. quiet_answer st), en_reclaims = False, en_releases = False, en_pause = True, en_resume = True,
     en_fork = True, en_kernel = [], en_text = (\<lambda>_. []), en_public = (\<lambda>_. [])\<rparr>"

definition substrate_up :: status where
  "substrate_up = \<lparr>st_Exists = True, st_State = StateRunning, st_PID = 42, st_OOMKilled = False, st_Reason = [],
     st_SupervisorFailed = [], st_Unstarted = False\<rparr>"

definition substrate_gone :: status where
  "substrate_gone = \<lparr>st_Exists = False, st_State = StateStopped, st_PID = 0, st_OOMKilled = False, st_Reason = [],
     st_SupervisorFailed = [], st_Unstarted = False\<rparr>"

definition web_process :: process where
  "web_process = \<lparr>pr_Name = ''web'', pr_Command = [''serve''], pr_Env = [], pr_WorkDir = [], pr_User = [],
     pr_Restart = \<lparr>rs_Policy = RestartUnlessStopped, rs_Retries = 0, rs_Backoff = 1\<rparr>, pr_Killed = False,
     pr_Status = \<lparr>ps_State = ProcessStopped, ps_Restarts = 0, ps_Exit = None, ps_StartedAt = 3\<rparr>\<rparr>"

definition web_sandbox :: sandbox where
  "web_sandbox = zero_sandbox\<lparr>sb_ID := ''calm-otter-1a2b'', sb_State := StateStopped, sb_Processes := [web_process],
     sb_Address := Prefix (V4 10) (Some 16)\<rparr>"

definition start_world :: "sandbox \<Rightarrow> world" where
  "start_world sb = \<lparr>w_record = Some sb, w_trace = []\<rparr>"

end
