(* ===== verification/VerbLogic.thy ===== *)
theory VerbLogic
  imports Tasks
begin

text \<open>
  Two logics for the verbs of the lifecycle. \<open>safe\<close> speaks of the record: which writes a verb may make and
  what the record is when it ends. \<open>ordered\<close> speaks of the trace: what a verb did before each call. Each
  has one rule per way the verbs are put together, whose precondition is computed from the goal, so
  that a verb is proved by its rules and a last step on records.
\<close>

subsection \<open>A logic for the verbs\<close>

text \<open>The events of a verb as a path from one record to the next: each write starts from the record on disk and is
  one \<open>R\<close> allows, and a record is made as a created one.\<close>

fun path_ok :: "(sandbox \<Rightarrow> sandbox \<Rightarrow> bool) \<Rightarrow> sandbox option \<Rightarrow> life_event list \<Rightarrow> sandbox option \<Rightarrow> bool" where
  "path_ok R r [] r' = (r' = r)"
| "path_ok R r (Called c x # t) r' = path_ok R r t r'"
| "path_ok R r (Wrote a b # t) r' = (r = Some a \<and> R a b \<and> path_ok R (Some b) t r')"
| "path_ok R r (Made b # t) r' = (r = None \<and> sb_State b = StateCreated \<and> path_ok R (Some b) t r')"
| "path_ok R r (Deleted # t) r' = path_ok R None t r'"

lemma path_ok_append: "path_ok R r s r1 \<Longrightarrow> path_ok R r1 t r2 \<Longrightarrow> path_ok R r (s @ t) r2"
  by (induction R r s r1 rule: path_ok.induct) auto

lemma path_ok_mono: "path_ok R r t r' \<Longrightarrow> (\<And>a b. R a b \<Longrightarrow> R' a b) \<Longrightarrow> path_ok R' r t r'"
  by (induction R r t r' rule: path_ok.induct) auto

definition extends :: "(sandbox \<Rightarrow> sandbox \<Rightarrow> bool) \<Rightarrow> world \<Rightarrow> world \<Rightarrow> bool" where
  "extends R w w' = (\<exists>t. w_trace w' = w_trace w @ t \<and> path_ok R (w_record w) t (w_record w'))"

text \<open>\<open>safe R p m q e\<close>: run from a record that satisfies \<open>p\<close>, the verb \<open>m\<close> makes only writes that \<open>R\<close> allows, whatever
  the environment answers, and ends in \<open>q\<close> with a result or in \<open>e\<close> with an error.\<close>

definition safe ::
  "(sandbox \<Rightarrow> sandbox \<Rightarrow> bool) \<Rightarrow> (sandbox option \<Rightarrow> bool) \<Rightarrow> 'a verb \<Rightarrow>
   ('a \<Rightarrow> sandbox option \<Rightarrow> bool) \<Rightarrow> (life_error \<Rightarrow> sandbox option \<Rightarrow> bool) \<Rightarrow> bool" where
  "safe R p m q e =
     (\<forall>env w. p (w_record w) \<longrightarrow>
        (case m env w of (r, w') \<Rightarrow> extends R w w' \<and>
           (case r of Inl x \<Rightarrow> e x (w_record w') | Inr y \<Rightarrow> q y (w_record w'))))"

lemma extends_refl [simp]: "extends R w w"
  by (simp add: extends_def)

lemma extends_trans: "extends R a b \<Longrightarrow> extends R b c \<Longrightarrow> extends R a c"
  by (auto simp: extends_def intro: path_ok_append)

lemma extends_logged [simp]:
  "extends R w (logged (Called c x) w)"
  "w_record w = Some a \<Longrightarrow> R a b \<Longrightarrow> extends R w (logged (Wrote a b) w\<lparr>w_record := Some b\<rparr>)"
  "w_record w = None \<Longrightarrow> sb_State b = StateCreated \<Longrightarrow> extends R w (logged (Made b) w\<lparr>w_record := Some b\<rparr>)"
  "extends R w (logged Deleted w\<lparr>w_record := None\<rparr>)"
  "w_record (logged ev w) = w_record w"
  by (auto simp: extends_def logged_def)

lemma safeI:
  assumes "\<And>env w r w'. p (w_record w) \<Longrightarrow> m env w = (r, w') \<Longrightarrow>
    extends R w w' \<and> (case r of Inl x \<Rightarrow> e x (w_record w') | Inr y \<Rightarrow> q y (w_record w'))"
  shows "safe R p m q e"
  unfolding safe_def using assms by (auto split: prod.split)

lemma safeD:
  assumes "safe R p m q e" "p (w_record w)" "m env w = (r, w')"
  shows "extends R w w'" "r = Inl x \<Longrightarrow> e x (w_record w')" "r = Inr y \<Longrightarrow> q y (w_record w')"
proof -
  have "case m env w of (r, w') \<Rightarrow> extends R w w' \<and>
      (case r of Inl x \<Rightarrow> e x (w_record w') | Inr y \<Rightarrow> q y (w_record w'))"
    using assms(1,2) unfolding safe_def by simp
  then show "extends R w w'" "r = Inl x \<Longrightarrow> e x (w_record w')" "r = Inr y \<Longrightarrow> q y (w_record w')"
    using assms(3) by simp_all
qed

lemma safe_pre: "safe R p' m q e \<Longrightarrow> (\<And>r. p r \<Longrightarrow> p' r) \<Longrightarrow> safe R p m q e"
  by (simp add: safe_def)

lemma safe_ret: "safe R (q x) (ret x) q e"
  by (auto simp: safe_def ret_def)

lemma safe_throw: "safe R (e x) (throw x) q e"
  by (auto simp: safe_def throw_def)

lemma safe_andThen:
  assumes "\<And>x. safe R (s x) (f x) q e" "safe R p m s e"
  shows "safe R p (andThen m f) q e"
proof (rule safeI)
  fix env w r w'
  assume w: "p (w_record w)" and m: "andThen m f env w = (r, w')"
  obtain r1 w1 where m1: "m env w = (r1, w1)" by (metis surj_pair)
  note first = safeD [OF assms(2) w m1]
  show "extends R w w' \<and> (case r of Inl x \<Rightarrow> e x (w_record w') | Inr y \<Rightarrow> q y (w_record w'))"
  proof (cases r1)
    case (Inl x)
    then show ?thesis using m m1 first by (auto simp: andThen_def)
  next
    case (Inr x)
    then have "f x env w1 = (r, w')" using m m1 by (simp add: andThen_def)
    from safeD [OF assms(1) first(3) [OF Inr] this] show ?thesis using first(1) by (auto intro: extends_trans split: sum.split)
  qed
qed

lemma safe_attempt:
  assumes "safe R p m (\<lambda>x. q (Inr x)) (\<lambda>x. q (Inl x))"
  shows "safe R p (attempt m) q e"
proof (rule safeI)
  fix env w r w'
  assume w: "p (w_record w)" and m: "attempt m env w = (r, w')"
  obtain r1 w1 where m1: "m env w = (r1, w1)" by (metis surj_pair)
  then have "r = Inr r1" "w' = w1" using m by (simp_all add: attempt_def)
  then show "extends R w w' \<and> (case r of Inl x \<Rightarrow> e x (w_record w') | Inr y \<Rightarrow> q y (w_record w'))"
    using safeD [OF assms w m1] by (cases r1) auto
qed

lemma safe_asks: "safe R (\<lambda>r. \<forall>x. q x r) (asks f) q e"
  by (auto simp: safe_def asks_def)

lemma safe_call: "safe R (\<lambda>r. \<forall>a. q a r) (call c) q e"
  by (auto simp: safe_def call_def)

lemma safe_ask: "safe R (\<lambda>r. (\<forall>a. an_err a = None \<longrightarrow> q a r) \<and> (\<forall>x. e (FaultError c x) r)) (ask c) q e"
  by (auto simp: safe_def ask_def andThen_def call_def ret_def throw_def split: option.splits)

lemma safe_repoGet:
  "safe R (\<lambda>r. (\<forall>sb. r = Some sb \<longrightarrow> q sb r) \<and> (\<forall>x. e (FaultError CallGet x) r)) repoGet q e"
  by (auto simp: safe_def repoGet_def ask_def andThen_def call_def ret_def throw_def split: option.splits)

lemma safe_updateWith:
  "safe R (\<lambda>r. (\<forall>x. e (FaultError CallUpdate x) r) \<and>
     (\<forall>sb now. r = Some sb \<longrightarrow> (case f now sb of Inl x \<Rightarrow> e x r
        | Inr (sb', x) \<Rightarrow> R sb sb' \<and> q x (Some sb') \<and> (\<forall>y. e (FaultError CallUpdate y) (Some sb')))))
   (updateWith f) q e"
proof (rule safeI)
  fix env w r w'
  assume w: "(\<forall>x. e (FaultError CallUpdate x) (w_record w)) \<and>
     (\<forall>sb now. w_record w = Some sb \<longrightarrow> (case f now sb of Inl x \<Rightarrow> e x (w_record w)
        | Inr (sb', x) \<Rightarrow> R sb sb' \<and> q x (Some sb') \<and> (\<forall>y. e (FaultError CallUpdate y) (Some sb'))))"
    and m: "updateWith f env w = (r, w')"
  show "extends R w w' \<and> (case r of Inl x \<Rightarrow> e x (w_record w') | Inr y \<Rightarrow> q y (w_record w'))"
  proof (cases "w_record w")
    case None
    then show ?thesis using w m by (auto simp: updateWith_def Let_def)
  next
    case (Some sb)
    then have "case f (an_now (answer_at env w)) sb of Inl x \<Rightarrow> e x (w_record w)
        | Inr (sb', x) \<Rightarrow> R sb sb' \<and> q x (Some sb') \<and> (\<forall>y. e (FaultError CallUpdate y) (Some sb'))" using w by blast
    then show ?thesis using w m Some
      by (cases "f (an_now (answer_at env w)) sb") (auto simp: updateWith_def Let_def split: option.splits if_splits)
  qed
qed

lemma safe_update:
  "safe R (\<lambda>r. (\<forall>x. e (FaultError CallUpdate x) r) \<and>
     (\<forall>sb. r = Some sb \<longrightarrow> R sb (f sb) \<and> q () (Some (f sb)) \<and> (\<forall>y. e (FaultError CallUpdate y) (Some (f sb)))))
   (update f) q e"
  unfolding update_def by (rule safe_pre [OF safe_updateWith]) auto

lemma safe_repoDelete:
  "safe R (\<lambda>r. (\<forall>x. e (FaultError CallDelete x) r) \<and> (\<forall>x. e (FaultError CallDelete x) None) \<and> q () None) repoDelete q e"
  by (auto simp: safe_def repoDelete_def Let_def split: option.splits if_splits)

lemma safe_repoCreate:
  "safe R (\<lambda>r. r = None \<and> (\<forall>x. e (FaultError CallMake x) r) \<and> (\<forall>now i. sb_State (f now i) = StateCreated \<and> q () (Some (f now i))))
     (repoCreate f) q e"
  by (auto simp: safe_def repoCreate_def Let_def split: option.splits)

lemma safe_if: "safe R p m q e \<Longrightarrow> safe R p' n q e \<Longrightarrow> safe R (\<lambda>r. (b \<longrightarrow> p r) \<and> (\<not> b \<longrightarrow> p' r)) (if b then m else n) q e"
  unfolding safe_def by auto

lemma safe_case_option:
  "safe R p m q e \<Longrightarrow> (\<And>x. safe R (p' x) (n x) q e) \<Longrightarrow>
   safe R (\<lambda>r. (v = None \<longrightarrow> p r) \<and> (\<forall>x. v = Some x \<longrightarrow> p' x r)) (case v of None \<Rightarrow> m | Some x \<Rightarrow> n x) q e"
  by (cases v) (auto intro: safe_pre)

lemma safe_case_sum:
  "(\<And>x. safe R (p x) (m x) q e) \<Longrightarrow> (\<And>x. safe R (p' x) (n x) q e) \<Longrightarrow>
   safe R (\<lambda>r. (\<forall>x. v = Inl x \<longrightarrow> p x r) \<and> (\<forall>x. v = Inr x \<longrightarrow> p' x r)) (case v of Inl x \<Rightarrow> m x | Inr x \<Rightarrow> n x) q e"
  by (cases v) (auto intro: safe_pre)

lemma safe_case_prod:
  "(\<And>x y. safe R (p x y) (m x y) q e) \<Longrightarrow>
   safe R (\<lambda>r. \<forall>x y. v = (x, y) \<longrightarrow> p x y r) (case v of (x, y) \<Rightarrow> m x y) q e"
  by (cases v) (auto intro: safe_pre)

lemma safe_let: "(\<And>x. safe R (p x) (m x) q e) \<Longrightarrow> safe R (p v) (let x = v in m x) q e"
  by simp

lemmas safe_steps = safe_ret safe_throw safe_andThen safe_attempt safe_asks safe_call safe_ask safe_repoGet
  safe_updateWith safe_update safe_repoDelete safe_repoCreate safe_if safe_case_option safe_case_sum safe_case_prod safe_let

lemma safe_poll: "safe R (\<lambda>r. (\<forall>st. \<not> Alive st \<longrightarrow> q st r) \<and> (\<forall>x. e x r)) (pollStopped n) q e"
proof (induction n)
  case 0
  show ?case
    apply (rule safe_pre)
     apply (subst pollStopped.simps, simp only: nat.case)
     apply (rule safe_steps)+
    apply auto
    done
next
  case (Suc n)
  show ?case
    apply (rule safe_pre)
     apply (subst pollStopped.simps, simp only: nat.case)
     apply (rule safe_steps Suc)+
    apply auto
    done
qed

lemma safe_awaitStopped: "safe R (\<lambda>r. (\<forall>st. \<not> Alive st \<longrightarrow> q st r) \<and> (\<forall>x. e x r)) awaitStopped q e"
  unfolding awaitStopped_def
  by (rule safe_pre, (rule safe_steps safe_poll)+) auto

lemma safe_weak:
  assumes "safe R p m q e" "\<And>r. p' r \<Longrightarrow> p r" "\<And>x r. q x r \<Longrightarrow> q' x r" "\<And>x r. e x r \<Longrightarrow> e' x r"
    and "\<And>a b. R a b \<Longrightarrow> R' a b"
  shows "safe R' p' m q' e'"
proof (rule safeI)
  fix env w r w' assume "p' (w_record w)" and m: "m env w = (r, w')"
  note d = safeD [OF assms(1) assms(2) [OF this(1)] m]
  have "extends R' w w'" using d(1) path_ok_mono [OF _ assms(5)] by (auto simp: extends_def)
  then show "extends R' w w' \<and> (case r of Inl x \<Rightarrow> e' x (w_record w') | Inr y \<Rightarrow> q' y (w_record w'))"
    using d assms(3,4) by (cases r) simp_all
qed

lemma safe_of: "safe R p m (\<lambda>_. a) (\<lambda>_. b) \<Longrightarrow> safe R (\<lambda>r. p r \<and> (\<forall>s. a s \<longrightarrow> (\<forall>x. q x s)) \<and> (\<forall>s. b s \<longrightarrow> (\<forall>x. e x s))) m q e"
  by (rule safeI) (auto dest: safeD split: sum.split)

lemma safe_conclude:
  assumes "safe R p m q e" "p (w_record w)" "m env w = (Inr x, w')"
  shows "q x (w_record w')" "extends R w w'"
  using safeD [OF assms] by auto

subsection \<open>Rules for the shared steps\<close>

lemma safe_probe: "safe R (\<lambda>r. (\<forall>st. q st r) \<and> (\<forall>x. e x r)) probe q e"
  unfolding probe_def
  by (rule safe_pre, (rule safe_steps)+) auto

lemma safe_providerStatus: "safe R (\<lambda>r. (\<forall>st. q st r) \<and> (\<forall>x. e x r)) providerStatus q e"
  unfolding providerStatus_def
  by (rule safe_pre, (rule safe_steps)+) auto

lemma safe_openPorts: "safe R (\<lambda>r. q () r \<and> (\<forall>x. e x r)) openPorts q e"
  unfolding openPorts_def
  by (rule safe_pre, (rule safe_steps)+) auto

lemma safe_closePorts: "safe R (\<lambda>r. q () r \<and> (\<forall>x. e x r)) closePorts q e"
  unfolding closePorts_def
  by (rule safe_pre, (rule safe_steps)+) auto

lemma safe_giveBack: "safe R (\<lambda>r. q () r \<and> (\<forall>x. e x r)) (giveBack c) q e"
  unfolding giveBack_def
  by (rule safe_pre, (rule safe_steps)+) auto

lemma safe_dropCheckpoint: "safe R (\<lambda>r. q () r \<and> (\<forall>x. e x r)) dropCheckpoint q e"
  unfolding dropCheckpoint_def
  by (rule safe_pre, (rule safe_steps)+) auto

lemma safe_table: "safe R (\<lambda>r. (\<forall>x. q x r) \<and> (\<forall>x. e x r)) table q e"
  unfolding table_def
  by (rule safe_pre, (rule safe_steps)+) auto

lemma safe_hasCheckpoint: "safe R (\<lambda>r. (\<forall>x. q x r) \<and> (\<forall>x. e x r)) (hasCheckpoint dir) q e"
  unfolding hasCheckpoint_def
  by (rule safe_pre, (rule safe_steps)+) auto

lemma safe_FailedGuard:
  "safe R (\<lambda>r. (sb_State sb \<noteq> StateFailed \<longrightarrow> q () r) \<and> (\<forall>x. e x r)) (FailedGuard sb) q e"
  unfolding FailedGuard_def
  by (rule safe_pre, (rule safe_steps)+) auto

lemma safe_markedCheckpoint:
  "safe R (\<lambda>r. (\<forall>x. (x \<noteq> [] \<longrightarrow> Live (sb_State sb)) \<longrightarrow> q x r) \<and> (\<forall>x. e x r)) (markedCheckpoint sb) q e"
  unfolding markedCheckpoint_def
  by (rule safe_pre, (rule safe_steps safe_hasCheckpoint)+) auto

lemma safe_cutPause:
  "safe R (\<lambda>r. (\<forall>x. (x \<noteq> [] \<longrightarrow> Live (sb_State sb)) \<longrightarrow> q x r) \<and> (\<forall>x. e x r)) (cutPause sb st) q e"
  unfolding cutPause_def
  by (rule safe_pre, (rule safe_steps safe_markedCheckpoint)+) auto

lemma safe_failWith:
  "safe R (\<lambda>r. (\<forall>x. e x r) \<and> (\<forall>sb reason public. r = Some sb \<longrightarrow> R sb (write_failed reason public sb) \<and>
     (\<forall>x. e x (Some (write_failed reason public sb))))) (failWith cause) q e"
  unfolding failWith_def
  by (rule safe_pre, (rule safe_steps)+) auto

lemma safe_RecordRunning:
  "safe R (\<lambda>r. (\<forall>x. e x r) \<and> (\<forall>sb pid tag now. r = Some sb \<longrightarrow> R sb (write_running resumed pid tag now sb) \<and>
     q () (Some (write_running resumed pid tag now sb)) \<and> (\<forall>x. e x (Some (write_running resumed pid tag now sb)))))
   (RecordRunning resumed) q e"
  unfolding RecordRunning_def
  by (rule safe_pre, (rule safe_steps safe_providerStatus)+) auto

lemma safe_Reconcile:
  "safe R (\<lambda>r. (\<forall>x. e x r) \<and> q () r \<and> (\<forall>sb pid tag now. r = Some sb \<longrightarrow> R sb (write_running resumed pid tag now sb) \<and>
     (\<forall>x. e x (Some (write_running resumed pid tag now sb)))))
   (Reconcile resumed) q e"
  unfolding Reconcile_def
  by (rule safe_pre, (rule safe_steps safe_providerStatus safe_RecordRunning)+) auto

lemmas safe_shared = safe_steps safe_awaitStopped safe_probe safe_providerStatus safe_openPorts safe_closePorts safe_giveBack
  safe_dropCheckpoint safe_table safe_hasCheckpoint safe_FailedGuard safe_markedCheckpoint safe_cutPause safe_failWith
  safe_RecordRunning safe_Reconcile

lemma safe_unwind:
  assumes "\<And>s. s \<in> set steps \<Longrightarrow> safe R p s (\<lambda>_. p) (\<lambda>_. p)"
  shows "safe R p (unwind steps) (\<lambda>_. p) (\<lambda>_. p)"
  using assms
proof (induction steps)
  case Nil
  show ?case unfolding unwind.simps by (rule safe_pre [OF safe_ret]) simp
next
  case (Cons s steps)
  show ?case unfolding unwind.simps
    by (rule safe_andThen [where s = "\<lambda>_. p"]) (use Cons in simp_all)
qed

lemma safe_unwinding:
  assumes "safe R p m q (\<lambda>_. d)" "\<And>s. s \<in> set steps \<Longrightarrow> safe R d s (\<lambda>_. d) (\<lambda>_. d)"
  shows "safe R p (unwinding steps m) q (\<lambda>_. d)"
  unfolding unwinding_def
proof (rule safe_andThen [where s = "\<lambda>r. case r of Inl _ \<Rightarrow> d | Inr x \<Rightarrow> q x"])
  show "safe R p (attempt m) (\<lambda>r. case r of Inl _ \<Rightarrow> d | Inr x \<Rightarrow> q x) (\<lambda>_. d)"
    by (rule safe_attempt) (simp add: assms(1))
next
  fix r :: "life_error + 'a"
  show "safe R (case r of Inl _ \<Rightarrow> d | Inr x \<Rightarrow> q x)
      (case r of Inr x \<Rightarrow> ret x | Inl e \<Rightarrow> if interrupted e then throw e
         else andThen (attempt (unwind steps)) (\<lambda>s. throw (case s of Inl d \<Rightarrow> Joined e d | Inr _ \<Rightarrow> e))) q (\<lambda>_. d)"
  proof (cases r)
    case (Inl e)
    have "safe R d (attempt (unwind steps)) (\<lambda>_. d) (\<lambda>_. d)" by (rule safe_attempt [OF safe_unwind [OF assms(2)]])
    then have "safe R d (andThen (attempt (unwind steps)) (\<lambda>s. throw (case s of Inl d \<Rightarrow> Joined e d | Inr _ \<Rightarrow> e))) q (\<lambda>_. d)"
      by (rule safe_andThen [rotated]) (rule safe_throw)
    then show ?thesis using Inl by (auto intro: safe_throw)
  qed (simp add: safe_ret)
qed

lemma safe_case_admit:
  "safe R p m q e \<Longrightarrow> safe R p' n q e \<Longrightarrow>
   safe R (\<lambda>r. (v = NameTaken \<longrightarrow> p r) \<and> (v = ProcessLimit \<longrightarrow> p' r)) (case v of NameTaken \<Rightarrow> m | ProcessLimit \<Rightarrow> n) q e"
  by (cases v) (auto intro: safe_pre)

subsection \<open>A logic for the order of the calls\<close>

definition ordered :: "(world \<Rightarrow> bool) \<Rightarrow> 'a verb \<Rightarrow> ('a \<Rightarrow> world \<Rightarrow> bool) \<Rightarrow> (world \<Rightarrow> bool) \<Rightarrow> bool" where
  "ordered p m q e = (\<forall>env w. p w \<longrightarrow> (case m env w of (Inl x, w') \<Rightarrow> e w' | (Inr y, w') \<Rightarrow> q y w'))"

lemma orderedI: "(\<And>env w. p w \<Longrightarrow> case m env w of (Inl x, w') \<Rightarrow> e w' | (Inr y, w') \<Rightarrow> q y w') \<Longrightarrow> ordered p m q e"
  by (simp add: ordered_def)

lemma ordered_snd:
  assumes "ordered p m (\<lambda>_. p) p" "p w"
  shows "p (snd (m env w))"
proof -
  have "case m env w of (Inl x, w') \<Rightarrow> p w' | (Inr y, w') \<Rightarrow> p w'" using assms unfolding ordered_def by simp
  then show ?thesis by (cases "m env w"; cases "fst (m env w)") simp_all
qed

lemma ordered_pre: "ordered p' m q e \<Longrightarrow> (\<And>w. p w \<Longrightarrow> p' w) \<Longrightarrow> ordered p m q e"
  by (simp add: ordered_def)

lemma ordered_ret: "ordered (q x) (ret x) q e"
  by (simp add: ordered_def ret_def)

lemma ordered_throw: "ordered e (throw x) q e"
  by (simp add: ordered_def throw_def)

lemma ordered_andThen:
  assumes "\<And>x. ordered (s x) (f x) q e" "ordered p m s e"
  shows "ordered p (andThen m f) q e"
proof (rule orderedI)
  fix env w assume "p w"
  then have "case m env w of (Inl x, w') \<Rightarrow> e w' | (Inr y, w') \<Rightarrow> s y w'" using assms(2) by (simp add: ordered_def)
  moreover have "s x v \<Longrightarrow> case f x env v of (Inl x, w') \<Rightarrow> e w' | (Inr y, w') \<Rightarrow> q y w'" for x v
    using assms(1) [of x] by (simp add: ordered_def)
  ultimately show "case andThen m f env w of (Inl x, w') \<Rightarrow> e w' | (Inr y, w') \<Rightarrow> q y w'"
    by (cases "m env w"; cases "fst (m env w)") (simp_all add: andThen_def)
qed

lemma ordered_attempt:
  assumes "ordered p m (\<lambda>x. q (Inr x)) (\<lambda>w. \<forall>x. q (Inl x) w)"
  shows "ordered p (attempt m) q e"
proof (rule orderedI)
  fix env w assume "p w"
  then have "case m env w of (Inl x, w') \<Rightarrow> \<forall>x. q (Inl x) w' | (Inr y, w') \<Rightarrow> q (Inr y) w'" using assms by (simp add: ordered_def)
  then show "case attempt m env w of (Inl x, w') \<Rightarrow> e w' | (Inr y, w') \<Rightarrow> q y w'"
    by (auto simp: attempt_def split: prod.splits sum.splits)
qed

lemma ordered_of:
  "ordered p m (\<lambda>_. a) b \<Longrightarrow> ordered (\<lambda>w. p w \<and> (\<forall>v. a v \<longrightarrow> (\<forall>x. q x v)) \<and> (\<forall>v. b v \<longrightarrow> e v)) m q e"
  unfolding ordered_def by (fastforce split: prod.splits sum.splits)

lemma ordered_asks: "ordered (\<lambda>w. \<forall>x. q x w) (asks f) q e"
  by (simp add: ordered_def asks_def)

lemma ordered_call: "ordered (\<lambda>w. \<forall>a. q a (logged (Called c a) w)) (call c) q e"
  by (simp add: ordered_def call_def)

lemma ordered_ask:
  "ordered (\<lambda>w. \<forall>a. if an_err a = None then q a (logged (Called c a) w) else e (logged (Called c a) w)) (ask c) q e"
  by (auto simp: ordered_def ask_def andThen_def call_def ret_def throw_def split: option.splits dest: spec)

lemma ordered_repoGet:
  "ordered (\<lambda>w. \<forall>a. e (logged (Called CallGet a) w) \<and> (\<forall>sb. w_record w = Some sb \<longrightarrow> q sb (logged (Called CallGet a) w))) repoGet q e"
  by (auto simp: ordered_def repoGet_def ask_def andThen_def call_def ret_def throw_def split: option.splits)

lemma ordered_updateWith:
  "ordered (\<lambda>w. (\<forall>a. e (logged (Called CallUpdate a) w)) \<and>
     (\<forall>sb now. w_record w = Some sb \<longrightarrow> (case f now sb of Inl x \<Rightarrow> True
        | Inr (sb', x) \<Rightarrow> q x (logged (Wrote sb sb') w\<lparr>w_record := Some sb'\<rparr>) \<and> e (logged (Wrote sb sb') w\<lparr>w_record := Some sb'\<rparr>))))
   (updateWith f) q e"
proof (rule orderedI)
  fix env w
  assume w: "(\<forall>a. e (logged (Called CallUpdate a) w)) \<and>
     (\<forall>sb now. w_record w = Some sb \<longrightarrow> (case f now sb of Inl x \<Rightarrow> True
        | Inr (sb', x) \<Rightarrow> q x (logged (Wrote sb sb') w\<lparr>w_record := Some sb'\<rparr>) \<and> e (logged (Wrote sb sb') w\<lparr>w_record := Some sb'\<rparr>)))"
  show "case updateWith f env w of (Inl x, w') \<Rightarrow> e w' | (Inr y, w') \<Rightarrow> q y w'"
  proof (cases "w_record w")
    case None
    then show ?thesis using w by (simp add: updateWith_def Let_def)
  next
    case (Some sb)
    then have "case f (an_now (answer_at env w)) sb of Inl x \<Rightarrow> True
        | Inr (sb', x) \<Rightarrow> q x (logged (Wrote sb sb') w\<lparr>w_record := Some sb'\<rparr>) \<and> e (logged (Wrote sb sb') w\<lparr>w_record := Some sb'\<rparr>)"
      using w by blast
    then show ?thesis using w Some
      by (cases "f (an_now (answer_at env w)) sb") (auto simp: updateWith_def Let_def split: option.splits)
  qed
qed

lemma ordered_update:
  "ordered (\<lambda>w. (\<forall>a. e (logged (Called CallUpdate a) w)) \<and>
     (\<forall>sb. w_record w = Some sb \<longrightarrow> q () (logged (Wrote sb (f sb)) w\<lparr>w_record := Some (f sb)\<rparr>)
        \<and> e (logged (Wrote sb (f sb)) w\<lparr>w_record := Some (f sb)\<rparr>)))
   (update f) q e"
  unfolding update_def by (rule ordered_pre [OF ordered_updateWith]) auto

lemma ordered_repoDelete:
  "ordered (\<lambda>w. (\<forall>a. e (logged (Called CallDelete a) w)) \<and> e (logged Deleted w\<lparr>w_record := None\<rparr>) \<and> q () (logged Deleted w\<lparr>w_record := None\<rparr>))
     repoDelete q e"
  by (auto simp: ordered_def repoDelete_def Let_def split: option.splits)

lemma ordered_repoCreate:
  "ordered (\<lambda>w. (\<forall>a. e (logged (Called CallMake a) w)) \<and> (\<forall>now i. q () (logged (Made (f now i)) w\<lparr>w_record := Some (f now i)\<rparr>)))
     (repoCreate f) q e"
  by (auto simp: ordered_def repoCreate_def Let_def split: option.splits)

lemma ordered_if:
  "ordered p m q e \<Longrightarrow> ordered p' n q e \<Longrightarrow> ordered (\<lambda>w. (b \<longrightarrow> p w) \<and> (\<not> b \<longrightarrow> p' w)) (if b then m else n) q e"
  by (auto simp: ordered_def)

lemma ordered_case_option:
  "ordered p m q e \<Longrightarrow> (\<And>x. ordered (p' x) (n x) q e) \<Longrightarrow>
   ordered (\<lambda>w. (v = None \<longrightarrow> p w) \<and> (\<forall>x. v = Some x \<longrightarrow> p' x w)) (case v of None \<Rightarrow> m | Some x \<Rightarrow> n x) q e"
  by (cases v) (auto intro: ordered_pre)

lemma ordered_case_sum:
  "(\<And>x. ordered (p x) (m x) q e) \<Longrightarrow> (\<And>x. ordered (p' x) (n x) q e) \<Longrightarrow>
   ordered (\<lambda>w. (\<forall>x. v = Inl x \<longrightarrow> p x w) \<and> (\<forall>x. v = Inr x \<longrightarrow> p' x w)) (case v of Inl x \<Rightarrow> m x | Inr x \<Rightarrow> n x) q e"
  by (cases v) (auto intro: ordered_pre)

lemma ordered_case_prod:
  "(\<And>x y. ordered (p x y) (m x y) q e) \<Longrightarrow> ordered (\<lambda>w. \<forall>x y. v = (x, y) \<longrightarrow> p x y w) (case v of (x, y) \<Rightarrow> m x y) q e"
  by (cases v) (auto intro: ordered_pre)

lemmas ordered_steps = ordered_ret ordered_throw ordered_andThen ordered_attempt ordered_asks ordered_call ordered_ask ordered_repoGet
  ordered_updateWith ordered_update ordered_repoDelete ordered_if ordered_case_option ordered_case_sum ordered_case_prod

subsection \<open>What comes before an event\<close>

definition held_until :: "(life_event \<Rightarrow> bool) \<Rightarrow> (life_event list \<Rightarrow> bool) \<Rightarrow> life_event list \<Rightarrow> bool" where
  "held_until E G t = (\<forall>i < length t. E (t ! i) \<longrightarrow> G (take i t))"

lemma held_until_Nil [simp]: "held_until E G []"
  by (simp add: held_until_def)

lemma held_until_snoc [simp]: "held_until E G (t @ [ev]) \<longleftrightarrow> held_until E G t \<and> (E ev \<longrightarrow> G t)"
  by (auto simp: held_until_def less_Suc_eq nth_append)

definition said :: "(life_event \<Rightarrow> bool) \<Rightarrow> world \<Rightarrow> bool" where
  "said P w = list_ex P (w_trace w)"

lemma said_logged [simp]:
  "said P (logged ev w) \<longleftrightarrow> P ev \<or> said P w" "said P (w\<lparr>w_record := r\<rparr>) = said P w"
  by (auto simp: said_def logged_def)

lemma ordered_unwind:
  assumes "\<And>s. s \<in> set steps \<Longrightarrow> ordered p s (\<lambda>_. p) p"
  shows "ordered p (unwind steps) (\<lambda>_. p) p"
  using assms
proof (induction steps)
  case Nil
  show ?case unfolding unwind.simps by (rule ordered_pre [OF ordered_ret]) simp
next
  case (Cons s steps)
  show ?case unfolding unwind.simps
    by (rule ordered_andThen [where s = "\<lambda>_. p"]) (use Cons in simp_all)
qed

lemma ordered_unwinding:
  assumes "ordered p m q d" "\<And>s. s \<in> set steps \<Longrightarrow> ordered d s (\<lambda>_. d) d"
  shows "ordered p (unwinding steps m) q d"
  unfolding unwinding_def
proof (rule ordered_andThen [where s = "\<lambda>r. case r of Inl _ \<Rightarrow> d | Inr x \<Rightarrow> q x"])
  show "ordered p (attempt m) (\<lambda>r. case r of Inl _ \<Rightarrow> d | Inr x \<Rightarrow> q x) d"
    by (rule ordered_attempt) (simp add: assms(1))
next
  fix r :: "life_error + 'a"
  have "ordered d (attempt (unwind steps)) (\<lambda>_. d) d"
    by (rule ordered_attempt) (use ordered_unwind [OF assms(2)] in simp)
  then have "ordered d (andThen (attempt (unwind steps)) (\<lambda>s. throw (case s of Inl d \<Rightarrow> Joined e d | Inr _ \<Rightarrow> e))) q d" for e
    by (rule ordered_andThen [rotated]) (rule ordered_throw)
  then show "ordered (case r of Inl _ \<Rightarrow> d | Inr x \<Rightarrow> q x)
      (case r of Inr x \<Rightarrow> ret x | Inl e \<Rightarrow> if interrupted e then throw e
         else andThen (attempt (unwind steps)) (\<lambda>s. throw (case s of Inl d \<Rightarrow> Joined e d | Inr _ \<Rightarrow> e))) q d"
    by (cases r) (auto intro: ordered_throw ordered_ret)
qed

end
