(* ===== verification/Moves.thy ===== *)
theory Moves
  imports VerbLogic
begin

text \<open>
  The state machine of \<open>models/state.go\<close> against the verbs and the tasks that write a record: every history
  of them makes only the moves the machine lists, a stop leaves a record that is stopped for good, and
  the correction of the records at boot, which makes moves the machine does not list.
\<close>

subsection \<open>What the writes do to the state and the processes\<close>

lemma write_state [simp]:
  "sb_State (callOffOOMRestart sb) = sb_State sb" "sb_State (byOperator sb) = sb_State sb"
  "sb_State (supervisorFailed why sb) = sb_State sb" "sb_State (write_failed reason public sb) = StateFailed"
  "sb_State (write_running resumed pid tag now sb) = StateRunning" "sb_State (write_stopped after sf sb) = StateStopped"
  "sb_State (write_paused dir sb) = StatePaused" "sb_State (write_gone sb) = StateStopped"
  "sb_State (write_died reason sb) = StateStopped" "sb_State (write_supervisor_failed why sb) = StateStopped"
  "sb_State (write_oom k sb) = StateStopped" "sb_State (write_unresponsive reason sb) = StateUnresponsive"
  "sb_State (write_answered st sb) = StateRunning" "sb_State (write_created pid spec digest tag sb) = sb_State sb"
  "sb_State (write_first_run now sb) = StateRunning" "sb_State (write_network spec sb) = sb_State sb"
  "sb_State (put_off due now sb) = sb_State sb" "sb_State (write_dropped reason sb) = StateFailed"
  "sb_State (write_substrate_paused sb) = StatePaused"
  by (simp_all add: callOffOOMRestart_def byOperator_def supervisorFailed_def write_failed_def write_running_def Let_def
      write_stopped_def write_paused_def write_gone_def write_died_def write_supervisor_failed_def write_oom_def
      write_unresponsive_def write_answered_def write_created_def write_first_run_def write_network_def put_off_def
      write_dropped_def write_substrate_paused_def split: option.splits)

lemma write_processes [simp]:
  "sb_Processes (callOffOOMRestart sb) = sb_Processes sb" "sb_Processes (byOperator sb) = sb_Processes sb"
  "sb_Processes (supervisorFailed why sb) = sb_Processes sb"
  "sb_Processes (write_stopped after sf sb) = endProcesses (merged (sb_Processes sb) after)"
  "sb_Processes (write_died reason sb) = endProcesses (sb_Processes sb)"
  "sb_Processes (write_supervisor_failed why sb) = endProcesses (sb_Processes sb)"
  "sb_Processes (write_oom k sb) = endProcesses (sb_Processes sb)"
  "sb_Processes (write_created pid spec digest tag sb) = sb_Processes sb"
  "sb_Processes (write_network spec sb) = sb_Processes sb" "sb_Processes (put_off due now sb) = sb_Processes sb"
  by (simp_all add: callOffOOMRestart_def byOperator_def supervisorFailed_def Let_def
      write_stopped_def write_died_def write_supervisor_failed_def write_oom_def write_created_def write_network_def put_off_def
      split: option.splits)

subsection \<open>The moves of the state machine\<close>

definition legal_move :: "sandbox \<Rightarrow> sandbox \<Rightarrow> bool" where
  "legal_move a b = (sb_State b = sb_State a \<or> CanTransitionTo (sb_State a) (sb_State b))"

text \<open>A stopped record holds no process that still runs.\<close>

definition settled :: "sandbox \<Rightarrow> bool" where
  "settled sb = (sb_State sb = StateStopped \<longrightarrow> list_all exitedProcess (sb_Processes sb))"

definition good_write :: "sandbox \<Rightarrow> sandbox \<Rightarrow> bool" where
  "good_write a b = (legal_move a b \<and> (settled a \<longrightarrow> settled b))"

definition valid_rec :: "sandbox option \<Rightarrow> bool" where
  "valid_rec r = (case r of None \<Rightarrow> True | Some sb \<Rightarrow> state_Valid (sb_State sb))"

lemma valid_rec_simps [simp]: "valid_rec None" "valid_rec (Some sb) \<longleftrightarrow> state_Valid (sb_State sb)"
  by (simp_all add: valid_rec_def)

lemma state_Valid_simps [simp]:
  "state_Valid StatePending" "state_Valid StateCreated" "state_Valid StateRunning" "state_Valid StatePaused"
  "state_Valid StateUnresponsive" "state_Valid StateStopped" "state_Valid StateFailed" "\<not> state_Valid (StateOther s)"
  by (simp_all add: state_Valid_def)

lemma legal_same [simp]: "sb_State b = sb_State a \<Longrightarrow> legal_move a b"
  by (simp add: legal_move_def)

lemma legal_to:
  "sb_State b = StateRunning \<Longrightarrow> sb_State a \<in> {StatePending, StateCreated, StateRunning, StatePaused, StateUnresponsive, StateStopped} \<Longrightarrow> legal_move a b"
  "sb_State b = StateStopped \<Longrightarrow> sb_State a \<in> {StateCreated, StateRunning, StatePaused, StateUnresponsive, StateStopped} \<Longrightarrow> legal_move a b"
  "sb_State b = StatePaused \<Longrightarrow> sb_State a \<in> {StateRunning, StateUnresponsive, StatePaused} \<Longrightarrow> legal_move a b"
  "sb_State b = StateUnresponsive \<Longrightarrow> sb_State a \<in> {StateRunning, StateUnresponsive} \<Longrightarrow> legal_move a b"
  "sb_State b = StateFailed \<Longrightarrow> sb_State a \<in> {StatePending, StateCreated, StateRunning, StateFailed} \<Longrightarrow> legal_move a b"
  by (auto simp: legal_move_def CanTransitionTo_def)

lemma settled_up: "sb_State b \<noteq> StateStopped \<Longrightarrow> settled b"
  by (simp add: settled_def)

lemma settled_ended: "sb_Processes b = endProcesses ps \<Longrightarrow> settled b"
  by (simp add: settled_def endProcesses_ended)

lemma settled_kept: "sb_State b = sb_State a \<Longrightarrow> sb_Processes b = sb_Processes a \<Longrightarrow> settled a \<longrightarrow> settled b"
  by (simp add: settled_def)

lemma live_states: "Live s \<longleftrightarrow> s \<in> {StateRunning, StateUnresponsive}"
  by (auto simp: Live_def)

lemma valid_states: "state_Valid s \<longleftrightarrow>
    s \<in> {StatePending, StateCreated, StateRunning, StatePaused, StateUnresponsive, StateStopped, StateFailed}"
  by (cases s) simp_all

lemma good_write_simps [simp]:
  "sb_State sb \<in> {StatePending, StateCreated, StateRunning, StatePaused, StateUnresponsive, StateStopped} \<Longrightarrow>
     good_write sb (write_running resumed pid tag now sb)"
  "sb_State sb \<in> {StateCreated, StateRunning, StatePaused, StateUnresponsive, StateStopped} \<Longrightarrow>
     good_write sb (write_stopped after sf sb)"
  "Live (sb_State sb) \<Longrightarrow> good_write sb (write_died reason sb)"
  "Live (sb_State sb) \<Longrightarrow> good_write sb (write_supervisor_failed why sb)"
  "Live (sb_State sb) \<Longrightarrow> good_write sb (write_oom k sb)"
  "sb_State sb \<in> {StatePending, StateCreated, StateRunning, StateFailed} \<Longrightarrow> good_write sb (write_failed text public sb)"
  "Live (sb_State sb) \<Longrightarrow> good_write sb (write_paused dir sb)"
  "Live (sb_State sb) \<Longrightarrow> good_write sb (write_unresponsive reason sb)"
  "Live (sb_State sb) \<Longrightarrow> good_write sb (write_answered st sb)"
  "sb_State sb = StatePending \<Longrightarrow> good_write sb (write_first_run now sb)"
  "good_write sb (callOffOOMRestart sb)" "good_write sb (byOperator sb)" "good_write sb (supervisorFailed why sb)"
  "good_write sb (write_created pid spec digest tag sb)" "good_write sb (write_network spec sb)" "good_write sb (put_off due now sb)"
  by (auto simp: good_write_def legal_move_def CanTransitionTo_def settled_def endProcesses_ended live_states)

subsection \<open>Processes\<close>

definition in_states :: "state set \<Rightarrow> sandbox option \<Rightarrow> bool" where
  "in_states S r = (case r of None \<Rightarrow> True | Some sb \<Rightarrow> sb_State sb \<in> S)"

lemma in_states_simps [simp]: "in_states S None" "in_states S (Some sb) \<longleftrightarrow> sb_State sb \<in> S"
  by (simp_all add: in_states_def)

lemma in_states_mono: "in_states S r \<Longrightarrow> S \<subseteq> T \<Longrightarrow> in_states T r"
  by (cases r) auto

lemma in_states_valid: "in_states S r \<Longrightarrow> \<forall>s \<in> S. state_Valid s \<Longrightarrow> valid_rec r"
  by (cases r) auto

lemmas rec_states = in_states_def valid_rec_def option.case_eq_if

lemma good_processes: "sb_State sb \<noteq> StateStopped \<Longrightarrow> sb_State b = sb_State sb \<Longrightarrow> good_write sb b"
  by (simp add: good_write_def legal_move_def settled_def)

lemma safe_startProcess:
  assumes "StateStopped \<notin> S"
  shows "safe good_write (in_states S) (startProcess before procs p) (\<lambda>_. in_states S) (\<lambda>_. in_states S)"
  unfolding startProcess_def logSize_def unstarted_def
  apply (rule safe_pre)
   apply (rule safe_shared)+
  using assms by (auto simp: Let_def intro!: good_processes)

lemma safe_launch_loop:
  assumes "StateStopped \<notin> S"
  shows "safe good_write (in_states S) (launch_loop starts err ps) (\<lambda>_. in_states S) (\<lambda>_. in_states S)"
proof (induction ps arbitrary: err)
  case Nil
  show ?case unfolding launch_loop.simps
    by (rule safe_pre, (rule safe_shared)+) auto
next
  case (Cons p ps)
  show ?case unfolding launch_loop.simps
    by (rule safe_pre, (rule Cons.IH safe_startProcess [OF assms] safe_shared)+) auto
qed

lemma safe_launch:
  assumes "StateStopped \<notin> S"
  shows "safe good_write (in_states S) (launch by skip) (\<lambda>_. in_states S) (\<lambda>_. in_states S)"
  unfolding launch_def
  by (rule safe_pre, (rule safe_launch_loop [OF assms] safe_shared)+) auto

lemma safe_readyForExec:
  "safe good_write valid_rec readyForExec
     (\<lambda>sb r. (\<exists>sb'. r = Some sb' \<and> sb' = sb) \<and> state_Valid (sb_State sb) \<and> sb_State sb \<notin> {StateStopped, StatePaused, StateFailed})
     (\<lambda>_. valid_rec)"
  unfolding readyForExec_def noteUnresponsive_def pauseOutranks_def pausedMeanwhile_def recordUnresponsive_def
  by (rule safe_pre, (rule safe_shared)+) (auto simp: sameRun_def)

lemma killProcess_ended:
  assumes "killProcess name [] False ps = Some (ps', r)" "list_all exitedProcess ps"
  shows "list_all exitedProcess ps'"
proof -
  obtain i where i: "IndexFunc (isNamed name) ps = Some i" "ps' = ps[i := (ps ! i)\<lparr>pr_Killed := True\<rparr>]"
    using assms(1) by (auto simp: killProcess_def Let_def split: option.splits)
  have "ps ! i \<in> set ps" using IndexFunc_Some [OF i(1)] by simp
  then have "exitedProcess ((ps ! i)\<lparr>pr_Killed := True\<rparr>)" using assms(2) by (simp add: exitedProcess_def list_all_iff)
  then show ?thesis using assms(2) i(2) set_update_subset_insert [of ps i "(ps ! i)\<lparr>pr_Killed := True\<rparr>"]
    by (auto simp: list_all_iff)
qed

lemma safe_recordKill:
  "safe good_write (\<lambda>r. valid_rec r \<and> (\<forall>a. r = Some a \<longrightarrow> sb_State a = StateStopped \<longrightarrow> reports = [] \<and> \<not> reaped))
     (recordKill name reports reaped) (\<lambda>_. valid_rec) (\<lambda>_. valid_rec)"
proof -
  have good: "good_write sb (sb\<lparr>sb_Processes := ps\<rparr>)"
    if "killProcess name reports reaped (sb_Processes sb) = Some (ps, x)" "sb_State sb = StateStopped \<longrightarrow> reports = [] \<and> \<not> reaped" for sb ps x
    using that killProcess_ended [of name "sb_Processes sb" ps x]
    by (cases "sb_State sb = StateStopped") (auto simp: good_write_def legal_move_def settled_def)
  show ?thesis unfolding recordKill_def
    by (rule safe_pre, (rule safe_shared)+) (auto split: option.splits intro: good)
qed

subsection \<open>The verbs\<close>

lemma safe_startVerb:
  "safe good_write (in_states {StateStopped}) startVerb (\<lambda>_. in_states {StateRunning}) (\<lambda>_. in_states {StateStopped, StateRunning})"
  unfolding startVerb_def startWithin_def recordFailedStart_def
  by (rule safe_pre, (rule safe_shared)+) (auto simp: rec_states)

lemma good_write_field [simp]:
  "good_write sb (sb\<lparr>sb_Pausing := m\<rparr>)" "good_write sb (sb\<lparr>sb_StoppedByOperator := m\<rparr>)"
  by (simp_all add: good_write_def settled_def)

abbreviation keeps :: "'a verb \<Rightarrow> bool" where
  "keeps m \<equiv> safe good_write valid_rec m (\<lambda>_. valid_rec) (\<lambda>_. valid_rec)"

lemma Start_keeps: "keeps Start"
  unfolding Start_def recordOf_def
  by (rule safe_pre, (rule safe_of [OF safe_startVerb] safe_of [OF safe_launch, of "{StateRunning}"] safe_shared | simp; fail)+) (auto simp: rec_states)

lemma safe_kill:
  "safe good_write (in_states {StateCreated, StateRunning, StatePaused, StateUnresponsive, StateStopped}) kill
     (\<lambda>_. in_states {StateStopped}) (\<lambda>_. in_states {StateCreated, StateRunning, StatePaused, StateUnresponsive, StateStopped})"
  unfolding kill_def
  by (rule safe_pre, (rule safe_shared)+) (auto simp: rec_states)

lemma safe_stopVerb:
  "safe good_write (in_states {StateCreated, StateRunning, StatePaused, StateUnresponsive, StateStopped}) (stopVerb force)
     (\<lambda>_. in_states {StateStopped}) (\<lambda>_. in_states {StateCreated, StateRunning, StatePaused, StateUnresponsive, StateStopped})"
  unfolding stopVerb_def
  by (rule safe_pre, (rule safe_of [OF safe_kill] safe_shared)+) (auto simp: rec_states)

lemma Stop_keeps: "keeps Stop"
  unfolding Stop_def recordOf_def
  by (rule safe_pre, (rule safe_of [OF safe_stopVerb] safe_shared)+) (auto simp: rec_states valid_states)

lemma Remove_keeps: "keeps (Remove False)"
  unfolding Remove_def endIfAlive_def refuseOrStop_def reclaim_def freeVerb_def dropSubstrateRoot_def
  by (rule safe_pre, (rule safe_of [OF safe_stopVerb] safe_shared)+) (auto simp: rec_states)

lemma Resume_keeps: "keeps Resume"
  unfolding Resume_def recordOf_def
  by (rule safe_pre, (rule safe_shared)+) (auto simp: rec_states)

abbreviation "up_states \<equiv> {StatePending, StateCreated, StateRunning, StateUnresponsive}"

lemma safe_ready: "safe good_write valid_rec readyForExec (\<lambda>_. in_states up_states) (\<lambda>_. valid_rec)"
  by (rule safe_weak [OF safe_readyForExec]) (auto simp: valid_states)

lemma Run_keeps: "keeps (Run req)"
  unfolding Run_def seen_def
  by (rule safe_pre, (rule safe_of [OF safe_startProcess, of up_states] safe_of [OF safe_ready] safe_case_admit safe_shared | simp; fail)+) (auto simp: rec_states)

lemma Kill_keeps: "keeps (Kill name)"
  unfolding Kill_def
  by (rule safe_pre, (rule safe_of [OF safe_recordKill] safe_of [OF safe_ready] safe_shared)+) (auto simp: rec_states)

lemma writeProcesses_keeps: "safe good_write (\<lambda>r. r = Some sb \<and> valid_rec r) (writeProcesses sb) (\<lambda>_. valid_rec) (\<lambda>_. valid_rec)"
  unfolding writeProcesses_def recordExitChannel_def Supervised_def
  by (rule safe_pre, (rule safe_shared)+) (auto intro!: good_processes)

lemma recordProcesses_keeps: "keeps recordProcesses" "keeps recordProcessesNow"
  unfolding recordProcesses_def recordProcessesNow_def
   apply (rule safe_pre)
    apply (rule safe_of [OF writeProcesses_keeps] safe_shared)+
   apply auto[1]
  by (rule safe_pre, (rule safe_of [OF writeProcesses_keeps] safe_shared)+) auto

subsection \<open>Creates\<close>

lemma safe_build:
  "safe good_write (in_states {StatePending}) (build fronted snapshot) (\<lambda>_. in_states {StatePending}) (\<lambda>_. in_states {StatePending})"
proof -
  have give: "safe good_write d (giveBack c) (\<lambda>_. d) (\<lambda>_. d)" for d c
    by (rule safe_pre [OF safe_giveBack]) simp
  have alloc: "safe good_write (in_states {StatePending}) (unwinding [giveBack CallRelease] (ask CallAllocate))
      (\<lambda>_. in_states {StatePending}) (\<lambda>_. in_states {StatePending})"
    by (rule safe_unwinding) (auto intro: give safe_pre [OF safe_ask])
  have create: "safe good_write (in_states {StatePending})
      (unwinding [giveBack CallRemove, giveBack CallRelease]
         (andThen (ask CallCreate) (\<lambda>_. andThen (recordCreated (an_spec net) (an_text img)) (\<lambda>_.
            andThen (if fronted then giveBack CallReapply else ret ()) (\<lambda>_. firstStart)))))
      (\<lambda>_. in_states {StatePending}) (\<lambda>_. in_states {StatePending})" for net img
  proof (rule safe_unwinding)
    show "safe good_write (in_states {StatePending})
         (andThen (ask CallCreate) (\<lambda>_. andThen (recordCreated (an_spec net) (an_text img)) (\<lambda>_.
            andThen (if fronted then giveBack CallReapply else ret ()) (\<lambda>_. firstStart))))
        (\<lambda>_. in_states {StatePending}) (\<lambda>_. in_states {StatePending})"
      unfolding recordCreated_def firstStart_def
      by (rule safe_pre, (rule safe_shared)+) auto
  qed (auto intro: give)
  show ?thesis unfolding build_def
    by (rule safe_pre, (rule safe_of [OF alloc] safe_of [OF create] safe_shared)+) auto
qed

lemma Fork_keeps: "safe good_write (\<lambda>r. r = None) (Fork src name prov) (\<lambda>_. valid_rec) (\<lambda>_. valid_rec)"
proof -
  let ?p = "in_states {StateCreated}"
  have give: "safe good_write ?p (giveBack c) (\<lambda>_. ?p) (\<lambda>_. ?p)" for c
    by (rule safe_pre [OF safe_giveBack]) simp
  have drop: "safe good_write ?p dropCopy (\<lambda>_. ?p) (\<lambda>_. ?p)" unfolding dropCopy_def
    by (rule safe_pre, (rule safe_shared)+) auto
  have claim1: "safe good_write ?p (unwinding [dropCopy] (andThen (ask CallLock) (\<lambda>_. andThen repoGet (\<lambda>_. ask CallDir))))
      (\<lambda>_. ?p) (\<lambda>_. ?p)"
    apply (rule safe_unwinding)
     apply (rule safe_pre)
      apply (rule safe_shared)+
     apply auto[1]
    using drop by simp
  have claim2: "safe good_write ?p (unwinding [giveBack CallRelease, dropCopy] (andThen (ask CallAllocate) (\<lambda>net.
         andThen (update (write_network (an_spec net))) (\<lambda>_. if Fronted src then giveBack CallReapply else ret ()))))
      (\<lambda>_. ?p) (\<lambda>_. ?p)"
    apply (rule safe_unwinding)
     apply (rule safe_pre)
      apply (rule safe_shared)+
     apply simp
    using drop give by auto
  have started: "safe good_write ?p (unwinding [giveBack CallRemove, giveBack CallRelease, dropCopy] forkStart) (\<lambda>_. ?p) (\<lambda>_. ?p)"
    apply (rule safe_unwinding)
    unfolding forkStart_def
     apply (rule safe_pre)
      apply (rule safe_shared)+
     apply simp
    using drop give by auto
  show ?thesis unfolding Fork_def readSource_def claimCopy_def recordOf_def
    by (rule safe_pre, (rule safe_of [OF claim1] safe_of [OF claim2] safe_of [OF started] safe_shared)+) (auto simp: rec_states copy_of_def)
qed

lemma Complete_keeps: "keeps (Complete policy secrets)"
  unfolding Complete_def
  by (rule safe_pre, (rule safe_of [OF safe_build] safe_shared)+) (auto simp: rec_states)

subsection \<open>Pause\<close>

lemma Pause_legal: "safe legal_move valid_rec Pause (\<lambda>_. valid_rec) (\<lambda>_. valid_rec)"
  unfolding Pause_def reconcileGone_def settleLivePause_def recordPaused_def recordUnresponsive_def dropMark_def recordOf_def
  by (rule safe_pre, (rule safe_shared)+) (auto simp: rec_states legal_move_def CanTransitionTo_def)

subsection \<open>The tasks of the daemon\<close>

lemma safe_settleLive:
  "Live (sb_State current) \<Longrightarrow>
   safe good_write (in_states {StateRunning, StateUnresponsive}) (settleLive current now st) (\<lambda>_. valid_rec) (\<lambda>_. valid_rec)"
  unfolding settleLive_def recordPaused_def dropMark_def recordOOMKilled_def recordSupervisorFailed_def recordDied_def
  by (rule safe_pre, (rule safe_shared)+) (auto simp: rec_states live_states)

lemma reconcileLocked_keeps: "keeps (reconcileLocked sb now st)"
proof -
  have settle: "safe good_write (\<lambda>r. in_states {StateRunning, StateUnresponsive} r \<and> Live (sb_State current)) (settleLive current now st)
      (\<lambda>_. valid_rec) (\<lambda>_. valid_rec)" for current st
    using safe_settleLive [of current now st] by (auto simp: safe_def)
  show ?thesis unfolding reconcileLocked_def probeLive_def recordUnresponsive_def recordAnswered_def
    by (rule safe_pre, (rule safe_of [OF settle] safe_shared)+) (auto simp: rec_states sameRun_def live_states)
qed

lemma reconcileLive_keeps: "keeps (reconcileLive sb now)"
  unfolding reconcileLive_def probeLive_def
  by (rule safe_pre, (rule safe_of [OF reconcileLocked_keeps] safe_shared)+) auto

lemma startAgain_keeps: "keeps (startAgainWhenDue sb now)"
  unfolding startAgainWhenDue_def retryOOMStart_def
  by (rule safe_pre, (rule safe_of [OF safe_startVerb] safe_of [OF safe_launch, of "{StateRunning}"] safe_shared | simp; fail)+) (auto simp: rec_states)

lemma Liveness_keeps: "keeps (Liveness sb now)"
  unfolding Liveness_def by (simp add: reconcileLive_keeps startAgain_keeps safe_pre [OF safe_ret])

lemma autostart_keeps: "keeps autostart"
  unfolding autostart_def
  by (rule safe_pre, (rule safe_of [OF safe_startVerb] safe_of [OF safe_launch, of "{StateRunning}"] safe_shared | simp; fail)+) (auto simp: rec_states)

subsection \<open>Histories\<close>

datatype life_verb =
    VComplete string "string list" | VFork sandbox string string | VStart | VStop | VPause | VResume | VRemove
  | VRun run_request | VKill string | VRecord | VRecordNow
  | VLiveness sandbox time | VLocked sandbox time status | VAutostart

text \<open>One verb or task under the lock of the sandbox. A fork makes the record, so it runs only where there is none.\<close>

definition perform :: "life_verb \<Rightarrow> life_env \<Rightarrow> world \<Rightarrow> world" where
  "perform v env w =
     (case v of
        VComplete policy secrets \<Rightarrow> snd (Complete policy secrets env w)
      | VFork src name prov \<Rightarrow> if w_record w = None then snd (Fork src name prov env w) else w
      | VStart \<Rightarrow> snd (Start env w)
      | VStop \<Rightarrow> snd (Stop env w)
      | VPause \<Rightarrow> snd (Pause env w)
      | VResume \<Rightarrow> snd (Resume env w)
      | VRemove \<Rightarrow> snd (Remove False env w)
      | VRun req \<Rightarrow> snd (Run req env w)
      | VKill name \<Rightarrow> snd (Kill name env w)
      | VRecord \<Rightarrow> snd (recordProcesses env w)
      | VRecordNow \<Rightarrow> snd (recordProcessesNow env w)
      | VLiveness sb now \<Rightarrow> snd (Liveness sb now env w)
      | VLocked sb now st \<Rightarrow> snd (reconcileLocked sb now st env w)
      | VAutostart \<Rightarrow> snd (autostart env w))"

definition life_run :: "(life_verb \<times> life_env) list \<Rightarrow> world \<Rightarrow> world" where
  "life_run vs w = fold (\<lambda>(v, env). perform v env) vs w"

lemma keeps_snd:
  assumes "safe R p m (\<lambda>_. valid_rec) (\<lambda>_. valid_rec)" "p (w_record w)"
  shows "extends R w (snd (m env w)) \<and> valid_rec (w_record (snd (m env w)))"
proof -
  obtain r w' where m: "m env w = (r, w')" by (metis surj_pair)
  show ?thesis using safeD [OF assms m] m by (cases r) simp_all
qed

lemma good_legal: "good_write a b \<Longrightarrow> legal_move a b"
  by (simp add: good_write_def)

lemma extends_legal: "extends good_write w w' \<Longrightarrow> extends legal_move w w'"
  by (auto simp: extends_def intro: path_ok_mono good_legal)

lemmas verb_keeps = Complete_keeps Start_keeps Stop_keeps Resume_keeps Remove_keeps Run_keeps Kill_keeps
  recordProcesses_keeps Liveness_keeps reconcileLocked_keeps autostart_keeps

lemma perform_good:
  assumes "valid_rec (w_record w)" "v \<noteq> VPause"
  shows "extends good_write w (perform v env w) \<and> valid_rec (w_record (perform v env w))"
  using assms keeps_snd [OF Fork_keeps, of w]
  by (cases v) (auto simp: perform_def verb_keeps [THEN keeps_snd])

lemma perform_legal:
  assumes "valid_rec (w_record w)"
  shows "extends legal_move w (perform v env w) \<and> valid_rec (w_record (perform v env w))"
proof (cases "v = VPause")
  case True
  then show ?thesis using keeps_snd [OF Pause_legal assms] by (simp add: perform_def)
next
  case False
  then show ?thesis using perform_good [OF assms] extends_legal by blast
qed

text \<open>A step of a history, and the same without the pauses.\<close>

definition life_step :: "world \<Rightarrow> world \<Rightarrow> bool" where
  "life_step w w' = (\<exists>v env. w' = perform v env w)"

definition unpaused_step :: "world \<Rightarrow> world \<Rightarrow> bool" where
  "unpaused_step w w' = (\<exists>v env. v \<noteq> VPause \<and> w' = perform v env w)"

interpretation lifecycle: stepping "\<lambda>w. w = w0 \<and> valid_rec (w_record w)" life_step
    "\<lambda>w. extends legal_move w0 w \<and> valid_rec (w_record w)" for w0
  by unfold_locales (auto simp: life_step_def dest: perform_legal intro: extends_trans)

interpretation unpaused: stepping "\<lambda>w. w = w0 \<and> valid_rec (w_record w)" unpaused_step
    "\<lambda>w. extends good_write w0 w \<and> valid_rec (w_record w)" for w0
  by unfold_locales (auto simp: unpaused_step_def dest: perform_good intro: extends_trans)

lemma life_run_steps: "life_step\<^sup>*\<^sup>* w (life_run vs w)"
proof (induction vs arbitrary: w)
  case (Cons x vs)
  have "life_step w (perform (fst x) (snd x) w)" by (auto simp: life_step_def)
  then show ?case using Cons [of "perform (fst x) (snd x) w"]
    by (simp add: life_run_def case_prod_beta converse_rtranclp_into_rtranclp)
qed (simp add: life_run_def)

lemma unpaused_run_steps: "VPause \<notin> fst ` set vs \<Longrightarrow> unpaused_step\<^sup>*\<^sup>* w (life_run vs w)"
proof (induction vs arbitrary: w)
  case (Cons x vs)
  then have "unpaused_step w (perform (fst x) (snd x) w)"
    unfolding unpaused_step_def by (intro exI [of _ "fst x"] exI [of _ "snd x"]) auto
  then show ?case using Cons.IH [of "perform (fst x) (snd x) w"] Cons.prems
    by (simp add: life_run_def case_prod_beta converse_rtranclp_into_rtranclp)
qed (simp add: life_run_def)

lemma path_settled:
  "path_ok good_write r t r' \<Longrightarrow> (\<And>sb. r = Some sb \<Longrightarrow> settled sb) \<Longrightarrow> r' = Some sb' \<Longrightarrow> settled sb'"
  by (induction good_write r t r' rule: path_ok.induct) (auto simp: good_write_def settled_def)

text \<open>C35: whatever verbs and tasks run on a sandbox, in whatever order and whatever calls fail, the trace is a path of
  records that starts from the record on disk, each write of which keeps the state or makes a move the machine of
  \<open>models/state.go\<close> lists. A forced removal and the correction at boot are not among them.\<close>

theorem lifecycle_moves:
  assumes "state_Valid (sb_State sb)"
  shows "extends legal_move (start_world sb) (life_run vs (start_world sb))"
  using lifecycle.reach_inv [OF _ life_run_steps, of "start_world sb" "start_world sb" vs] assms
  by (simp add: start_world_def)

theorem lifecycle_moves_witness:
  "extends legal_move (start_world web_sandbox)
     (life_run [(VStart, quiet_env substrate_up), (VStop, quiet_env substrate_gone)] (start_world web_sandbox))"
  by (rule lifecycle_moves) (simp add: web_sandbox_def)

definition up_and_down :: "(life_verb \<times> life_env) list" where
  "up_and_down = [(VStart, quiet_env substrate_up), (VStop, quiet_env substrate_gone)]"

text \<open>C40: a stopped record names no process as running or waiting, in every history without a pause. A pause that finds the
  sandbox gone is the one write of a stopped record that leaves its processes as they were.\<close>

theorem stopped_holds_no_process:
  assumes "state_Valid (sb_State sb)" "settled sb" "VPause \<notin> fst ` set vs"
    and "w_record (life_run vs (start_world sb)) = Some sb'" "sb_State sb' = StateStopped"
  shows "list_all exitedProcess (sb_Processes sb')"
proof -
  have "extends good_write (start_world sb) (life_run vs (start_world sb))"
    using unpaused.reach_inv [OF _ unpaused_run_steps [OF assms(3)], of "start_world sb" "start_world sb"] assms(1)
    by (simp add: start_world_def)
  then obtain t where "path_ok good_write (Some sb) t (Some sb')" using assms(4) by (auto simp: extends_def start_world_def)
  then have "settled sb'" by (rule path_settled) (use assms(2) in auto)
  then show ?thesis using assms(5) by (simp add: settled_def)
qed

theorem stopped_holds_no_process_witness:
  "list_all exitedProcess (sb_Processes (the (w_record (life_run up_and_down (start_world web_sandbox)))))"
proof -
  have "case w_record (life_run up_and_down (start_world web_sandbox)) of Some sb' \<Rightarrow> sb_State sb' = StateStopped | None \<Rightarrow> False"
    by code_simp
  then have "w_record (life_run up_and_down (start_world web_sandbox)) = Some (the (w_record (life_run up_and_down (start_world web_sandbox))))"
    "sb_State (the (w_record (life_run up_and_down (start_world web_sandbox)))) = StateStopped"
    by (auto split: option.splits)
  moreover have "state_Valid (sb_State web_sandbox)" "settled web_sandbox" "VPause \<notin> fst ` set up_and_down"
    by (simp_all add: web_sandbox_def settled_def web_process_def exitedProcess_def Ended_def up_and_down_def)
  ultimately show ?thesis by (intro stopped_holds_no_process)
qed

text \<open>The write of such a pause.\<close>

definition cut_env :: life_env where
  "cut_env = (quiet_env substrate_gone)
     \<lparr>en_answer := \<lambda>i. (quiet_answer substrate_gone)\<lparr>an_err := if i = 7 then Some Failure else None\<rparr>\<rparr>"

lemma pause_gone_keeps_processes:
  "map_option (\<lambda>sb. (sb_State sb, map (\<lambda>p. ps_State (pr_Status p)) (sb_Processes sb)))
     (w_record (snd (Pause cut_env (start_world (web_sandbox\<lparr>sb_State := StateRunning, sb_Processes := [with_state ProcessRunning web_process]\<rparr>)))))
   = Some (StateStopped, [ProcessRunning])"
  by code_simp

subsection \<open>Stop\<close>

text \<open>What a stop leaves: a stopped record with no start again due, every process ended, no pid, no checkpoint and the mark of
  the operator. A record that was stopped already, over a sandbox that is not alive, only gets the mark, or, when it
  waits for its start after a memory kill, only has that start called off.\<close>

definition stopped_whole :: "sandbox \<Rightarrow> bool" where
  "stopped_whole sb =
     (sb_State sb = StateStopped \<and> \<not> RestartDue (sb_OOM sb) \<and> list_all exitedProcess (sb_Processes sb)
      \<and> sb_PID sb = 0 \<and> sb_Checkpoint sb = [] \<and> sb_StoppedByOperator sb)"

definition stop_done :: "sandbox \<Rightarrow> sandbox \<Rightarrow> bool" where
  "stop_done prior after =
     (if sb_State prior \<noteq> StateStopped then stopped_whole after
      else stopped_whole after
           \<or> after = (if RestartDue (sb_OOM prior) then callOffOOMRestart prior else byOperator prior))"

lemma not_due [simp]: "\<not> RestartDue (sb_OOM (callOffOOMRestart sb))"
  by (simp add: RestartDue_def callOffOOMRestart_def split: option.splits)

lemma stop_done_writes:
  "stop_done sb (write_stopped after sf sb)"
  "sb_State sb = StateStopped \<Longrightarrow> RestartDue (sb_OOM sb) \<Longrightarrow> stop_done sb (callOffOOMRestart sb)"
  "sb_State sb = StateStopped \<Longrightarrow> \<not> RestartDue (sb_OOM sb) \<Longrightarrow> stop_done sb (byOperator sb)"
proof -
  have "sb_OOM (write_stopped after sf sb) = sb_OOM (callOffOOMRestart sb)"
    by (simp add: write_stopped_def Let_def byOperator_def supervisorFailed_def callOffOOMRestart_def)
  then have "stopped_whole (write_stopped after sf sb)" using not_due [of sb]
    by (simp add: stopped_whole_def) (simp add: write_stopped_def Let_def byOperator_def supervisorFailed_def callOffOOMRestart_def endProcesses_ended)
  then show "stop_done sb (write_stopped after sf sb)" by (simp add: stop_done_def)
qed (simp_all add: stop_done_def)

lemma Stop_ends:
  "safe (\<lambda>_ _. True) (\<lambda>r. r = Some sb) Stop (\<lambda>sb' r. r = Some sb' \<and> stop_done sb sb') (\<lambda>_ _. True)"
  unfolding Stop_def stopVerb_def kill_def recordOf_def
  by (rule safe_pre, (rule safe_shared)+) (auto simp: stop_done_writes)

text \<open>C38: a stop that returns leaves on disk the record it returns. A record that was not stopped is then stopped, with no start
  again due, every process ended, no pid, no checkpoint named and the mark of the operator. One that was stopped already
  ends the same way, or is kept as it was but for one thing: the mark is set, or, if it waited for its start again
  after a memory kill, that start is called off.\<close>

theorem stop_ends:
  assumes "w_record w = Some sb" "Stop env w = (Inr sb', w')"
  shows "w_record w' = Some sb' \<and> stop_done sb sb'"
  using safe_conclude(1) [OF Stop_ends _ assms(2), of sb] assms(1) by simp

theorem stop_ends_witness:
  "stop_done (web_sandbox\<lparr>sb_State := StateRunning\<rparr>)
     (projr (fst (Stop (quiet_env substrate_gone) (start_world (web_sandbox\<lparr>sb_State := StateRunning\<rparr>)))))"
proof -
  have "isl (fst (Stop (quiet_env substrate_gone) (start_world (web_sandbox\<lparr>sb_State := StateRunning\<rparr>)))) = False" by code_simp
  then have "Stop (quiet_env substrate_gone) (start_world (web_sandbox\<lparr>sb_State := StateRunning\<rparr>)) =
      (Inr (projr (fst (Stop (quiet_env substrate_gone) (start_world (web_sandbox\<lparr>sb_State := StateRunning\<rparr>))))),
       snd (Stop (quiet_env substrate_gone) (start_world (web_sandbox\<lparr>sb_State := StateRunning\<rparr>))))"
    by (metis prod.collapse sum.collapse(2))
  then show ?thesis using stop_ends [of "start_world (web_sandbox\<lparr>sb_State := StateRunning\<rparr>)"] by (simp add: start_world_def)
qed

text \<open>A memory-killed sandbox that waits for its start again and is stopped by its operator: the start again is called off, and
  the mark of the operator's stop is not set.\<close>

lemma stop_of_memory_killed:
  "sb_State sb = StateStopped \<Longrightarrow> RestartDue (sb_OOM sb) \<Longrightarrow>
   fst (Stop (quiet_env substrate_gone) (start_world sb)) = Inr (callOffOOMRestart sb)"
  by (simp add: Stop_def stopVerb_def andThen_def ask_def call_def answer_at_def quiet_env_def quiet_answer_def ret_def start_world_def
      repoGet_def FailedGuard_def closePorts_def probe_def attempt_def substrate_gone_def Alive_def update_def updateWith_def
      dropCheckpoint_def recordOf_def logged_def Let_def)

lemma memory_killed_still_owed:
  "fst (Stop (quiet_env substrate_gone) (start_world (web_sandbox\<lparr>sb_OOM := Some \<lparr>oom_Kills = 1, oom_InARow = 1, oom_KilledAt = 5, oom_RestartAt = 9\<rparr>\<rparr>)))
     = Inr (callOffOOMRestart (web_sandbox\<lparr>sb_OOM := Some \<lparr>oom_Kills = 1, oom_InARow = 1, oom_KilledAt = 5, oom_RestartAt = 9\<rparr>\<rparr>))
   \<and> Owed (callOffOOMRestart (web_sandbox\<lparr>sb_OOM := Some \<lparr>oom_Kills = 1, oom_InARow = 1, oom_KilledAt = 5, oom_RestartAt = 9\<rparr>\<rparr>))"
  by (simp add: stop_of_memory_killed web_sandbox_def RestartDue_def Owed_def callOffOOMRestart_def launchable_def web_process_def zero_sandbox_def)

subsection \<open>The correction at boot\<close>

text \<open>The moves the correction of a record at boot makes beside those of the machine.\<close>

definition reconcile_extra :: "(state \<times> state) list" where
  "reconcile_extra =
     [(StatePending, StateUnresponsive), (StatePending, StatePaused), (StatePaused, StateUnresponsive),
      (StateUnresponsive, StateFailed), (StateStopped, StateUnresponsive), (StateStopped, StatePaused),
      (StateFailed, StateRunning), (StateFailed, StateUnresponsive), (StateFailed, StatePaused)]"

definition reconcile_states :: "state \<Rightarrow> state \<Rightarrow> bool" where
  "reconcile_states a b = (a = b \<or> CanTransitionTo a b \<or> (a, b) \<in> set reconcile_extra)"

definition reconcile_move :: "sandbox \<Rightarrow> sandbox \<Rightarrow> bool" where
  "reconcile_move a b = reconcile_states (sb_State a) (sb_State b)"

lemma write_address [simp]:
  "sb_Address (callOffOOMRestart sb) = sb_Address sb"
  "sb_Address (supervisorFailed why sb) = sb_Address sb"
  "sb_Address (write_running resumed pid tag now sb) = sb_Address sb" "sb_Address (write_paused dir sb) = sb_Address sb"
  "sb_Address (write_died reason sb) = sb_Address sb" "sb_Address (write_supervisor_failed why sb) = sb_Address sb"
  "sb_Address (write_oom k sb) = sb_Address sb" "sb_Address (write_unresponsive reason sb) = sb_Address sb"
  "sb_Address (write_answered st sb) = sb_Address sb" "sb_Address (write_dropped reason sb) = sb_Address sb"
  "sb_Address (write_substrate_paused sb) = sb_Address sb"
  by (simp_all add: callOffOOMRestart_def supervisorFailed_def write_running_def Let_def
      write_paused_def write_died_def write_supervisor_failed_def write_oom_def
      write_unresponsive_def write_answered_def write_dropped_def write_substrate_paused_def)

text \<open>The state the correction answers for a record, given what the substrate said of it. A pending, running or
  unresponsive record with a live process and no address does not stay live; a record of any other state is not
  checked for its address. A live record whose process is gone does not stay live.\<close>

definition right_state :: "sandbox \<Rightarrow> status \<Rightarrow> state \<Rightarrow> bool" where
  "right_state sb st s =
     ((Alive st \<longrightarrow> Live s \<longrightarrow> sb_State sb \<in> {StatePending, StateRunning, StateUnresponsive} \<longrightarrow> pfx_IsValid (sb_Address sb))
      \<and> (Live (sb_State sb) \<longrightarrow> \<not> Alive st \<longrightarrow> st_State st \<notin> {StateUnresponsive, StatePaused} \<longrightarrow> s \<in> {StateStopped, StatePaused, StateFailed}))"

definition corrected :: "sandbox \<Rightarrow> status \<Rightarrow> state \<Rightarrow> sandbox option \<Rightarrow> bool" where
  "corrected sb st s r =
     (\<exists>sb'. r = Some sb' \<and> sb_State sb' = s \<and> sb_Address sb' = sb_Address sb \<and> right_state sb st s)"

definition unmoved :: "sandbox \<Rightarrow> sandbox option \<Rightarrow> bool" where
  "unmoved sb r = (\<exists>rec. r = Some rec \<and> sb_State rec = sb_State sb \<and> sb_Address rec = sb_Address sb)"

definition reachable_state :: "sandbox \<Rightarrow> status \<Rightarrow> state \<Rightarrow> bool" where
  "reachable_state sb st s =
     (right_state sb st s \<and> reconcile_states (sb_State sb) s
      \<and> s \<in> {sb_State sb, StateRunning, StateUnresponsive, StatePaused, StateFailed, StateStopped}
      \<and> (s = StateStopped \<longrightarrow> st_Unstarted st \<longrightarrow> sb_State sb = StateStopped))"

lemma safe_correct:
  "safe reconcile_move (\<lambda>r. unmoved sb r \<and> reachable_state sb st s) (correct sb st s) (\<lambda>s' r. corrected sb st s' r) (\<lambda>_ _. True)"
  unfolding correct_def endUnstarted_def recordUnresponsive_def recordAnswered_def failDropped_def recordSupervisorFailed_def
  by (rule safe_pre, (rule safe_shared)+) (auto simp: corrected_def reconcile_move_def unmoved_def reachable_state_def)

lemma states_simps:
  "reconcile_states a a"
  "reconcile_states StatePending b \<longleftrightarrow> b \<in> {StatePending, StateRunning, StateFailed, StateUnresponsive, StatePaused}"
  "reconcile_states StateCreated b \<longleftrightarrow> b \<in> {StateCreated, StateRunning, StateStopped, StateFailed}"
  "reconcile_states StateRunning b \<longleftrightarrow> b \<in> {StateRunning, StatePaused, StateStopped, StateUnresponsive, StateFailed}"
  "reconcile_states StatePaused b \<longleftrightarrow> b \<in> {StatePaused, StateRunning, StateStopped, StateUnresponsive}"
  "reconcile_states StateUnresponsive b \<longleftrightarrow> b \<in> {StateUnresponsive, StateRunning, StatePaused, StateStopped, StateFailed}"
  "reconcile_states StateStopped b \<longleftrightarrow> b \<in> {StateStopped, StateRunning, StateUnresponsive, StatePaused}"
  "reconcile_states StateFailed b \<longleftrightarrow> b \<in> {StateFailed, StateRunning, StateUnresponsive, StatePaused}"
  by (auto simp: reconcile_states_def CanTransitionTo_def reconcile_extra_def)

lemma safe_reconciled:
  assumes "state_Valid (sb_State sb)" "st_Unstarted st \<longrightarrow> Alive st"
  shows "safe reconcile_move (unmoved sb) (reconciled sb st) (\<lambda>s r. unmoved sb r \<and> reachable_state sb st s) (\<lambda>_ _. True)"
  unfolding reconciled_def
  apply (rule safe_pre)
   apply (rule safe_shared)+
  subgoal for r
    using assms unfolding valid_states
    by (elim insertE emptyE) (auto simp: reachable_state_def right_state_def states_simps live_states Let_def)
  done

lemma safe_applyReconcile:
  assumes "state_Valid (sb_State sb)" "st_Unstarted st \<longrightarrow> Alive st"
  shows "safe reconcile_move (\<lambda>r. r = Some sb) (applyReconcile sb (Inr st) now) (\<lambda>s r. corrected sb st s r) (\<lambda>_ _. True)"
  unfolding applyReconcile_def sum.case recordOOMKilled_def recordPaused_def dropMark_def
  by (rule safe_pre, (rule safe_correct safe_andThen [OF safe_correct safe_reconciled [OF assms]] safe_shared)+) (auto simp: corrected_def unmoved_def reconcile_move_def live_states states_simps right_state_def)

text \<open>C39: for a record whose probe was answered, by a substrate that calls a container unstarted only while it holds it alive, a
  correction at boot that returns leaves the record in the state it answers and at the address it had. A pending, running or
  unresponsive record with a live process and no address is not answered live; a live record whose process is neither
  alive, unresponsive nor paused is answered stopped, paused or failed; and every write makes a move of the machine or one of
  \<open>reconcile_extra\<close>. A stopped, failed or paused record with a live process is not checked for its address.\<close>

theorem reconcile_corrects:
  assumes "w_record w = Some sb" "state_Valid (sb_State sb)" "st_Unstarted st \<longrightarrow> Alive st"
    and "applyReconcile sb (Inr st) now env w = (Inr s, w')"
  shows "corrected sb st s (w_record w') \<and> extends reconcile_move w w'"
  using safe_conclude [OF safe_applyReconcile [OF assms(2,3)] _ assms(4)] assms(1) by simp

definition bare_sandbox :: sandbox where
  "bare_sandbox = web_sandbox\<lparr>sb_State := StateRunning, sb_Address := Prefix AddrZero None\<rparr>"

theorem reconcile_corrects_witness:
  "corrected bare_sandbox substrate_up StateFailed
     (w_record (snd (applyReconcile bare_sandbox (Inr substrate_up) 9 (quiet_env substrate_gone) (start_world bare_sandbox))))"
proof -
  have "fst (applyReconcile bare_sandbox (Inr substrate_up) 9 (quiet_env substrate_gone) (start_world bare_sandbox)) = Inr StateFailed"
    by code_simp
  then have "applyReconcile bare_sandbox (Inr substrate_up) 9 (quiet_env substrate_gone) (start_world bare_sandbox) =
      (Inr StateFailed, snd (applyReconcile bare_sandbox (Inr substrate_up) 9 (quiet_env substrate_gone) (start_world bare_sandbox)))"
    by (metis prod.collapse)
  from reconcile_corrects [OF _ _ _ this] show ?thesis
    by (simp add: start_world_def bare_sandbox_def substrate_up_def)
qed

end
