(* ===== verification/Order.thy ===== *)
theory Order
  imports Moves
begin

text \<open>
  The order of the calls: a removal frees nothing of a sandbox the substrate still holds and keeps the
  record until the rest is gone, and a guest runs its first instruction only behind its address and
  its rules.
\<close>

subsection \<open>Remove\<close>

fun gone_answer :: "life_event \<Rightarrow> bool" where
  "gone_answer (Called CallStatus a) = (an_err a = None \<and> \<not> Alive (an_status a))"
| "gone_answer ev = False"

fun done_call :: "life_call \<Rightarrow> life_event \<Rightarrow> bool" where
  "done_call c (Called d a) = (d = c \<and> an_err a = None)"
| "done_call c ev = False"

fun is_call :: "life_call \<Rightarrow> life_event \<Rightarrow> bool" where
  "is_call c (Called d a) = (d = c)"
| "is_call c ev = False"

text \<open>Nothing of a sandbox is freed before the substrate said it is gone, the record is deleted only once the mount and
  the namespace are, and the host rules are rendered only once the record is gone.\<close>

definition freed_in_order :: "life_event list \<Rightarrow> bool" where
  "freed_in_order t =
     (held_until (is_call CallRemove) (list_ex gone_answer) t
      \<and> held_until (is_call CallRelease) (list_ex (done_call CallRemove)) t
      \<and> held_until (\<lambda>ev. ev = Deleted) (list_ex (done_call CallRelease)) t
      \<and> held_until (is_call CallReapplyAll) (list_ex (\<lambda>ev. ev = Deleted)) t)"

definition orderly :: "world \<Rightarrow> bool" where
  "orderly w = freed_in_order (w_trace w)"

lemma orderly_logged [simp]:
  "orderly (logged ev w) \<longleftrightarrow> orderly w \<and> (is_call CallRemove ev \<longrightarrow> said gone_answer w)
     \<and> (is_call CallRelease ev \<longrightarrow> said (done_call CallRemove) w)
     \<and> (ev = Deleted \<longrightarrow> said (done_call CallRelease) w) \<and> (is_call CallReapplyAll ev \<longrightarrow> said (\<lambda>ev. ev = Deleted) w)"
  "orderly (w\<lparr>w_record := r\<rparr>) = orderly w"
  by (auto simp: orderly_def freed_in_order_def said_def logged_def)

lemma ordered_poll: "ordered orderly (pollStopped n) (\<lambda>_ w. orderly w \<and> said gone_answer w) orderly"
proof (induction n)
  case 0
  show ?case
    apply (rule ordered_pre)
     apply (subst pollStopped.simps, simp only: nat.case)
     apply (rule ordered_steps)+
    by auto
next
  case (Suc n)
  show ?case
    apply (rule ordered_pre)
     apply (subst pollStopped.simps, simp only: nat.case)
     apply (rule ordered_steps Suc)+
    by auto
qed

abbreviation "gone w \<equiv> orderly w \<and> said gone_answer w"

lemma ordered_stopVerb: "ordered orderly (stopVerb True) (\<lambda>_. gone) orderly"
  unfolding stopVerb_def kill_def closePorts_def awaitStopped_def table_def dropCheckpoint_def if_True
  by (rule ordered_pre, (rule ordered_of [OF ordered_poll] ordered_steps)+) auto

lemma ordered_endIfAlive: "ordered orderly (endIfAlive sb force) (\<lambda>_. gone) orderly"
  unfolding endIfAlive_def refuseOrStop_def reclaim_def probe_def
  apply (cases force; simp only: if_True if_False not_True_eq_False not_False_eq_True simp_thms)
   apply (rule ordered_pre)
    apply (rule ordered_of [OF ordered_stopVerb] ordered_steps)+
   apply auto[1]
  by (rule ordered_pre, (rule ordered_steps)+) auto

lemma ordered_Remove: "ordered orderly (Remove force) (\<lambda>_. orderly) orderly"
  unfolding Remove_def freeVerb_def dropSubstrateRoot_def closePorts_def
  by (rule ordered_pre, (rule ordered_of [OF ordered_endIfAlive] ordered_steps)+) auto

lemma Remove_gone: "safe (\<lambda>_ _. True) (\<lambda>_. True) (Remove force) (\<lambda>_ r. r = None) (\<lambda>_ _. True)"
  unfolding Remove_def endIfAlive_def refuseOrStop_def reclaim_def freeVerb_def dropSubstrateRoot_def stopVerb_def kill_def
  by (rule safe_pre, (rule safe_shared)+) auto

text \<open>C37: in every removal, forced or not and whatever fails, the substrate's state of a sandbox is removed only after the
  substrate said the sandbox is not alive, its network is released only after that, its record is deleted only
  after both and the host rules are rendered only after the record is gone; a removal that returns leaves no record.\<close>

theorem remove_in_order:
  "freed_in_order (w_trace (snd (Remove force env \<lparr>w_record = r, w_trace = []\<rparr>)))
   \<and> (fst (Remove force env \<lparr>w_record = r, w_trace = []\<rparr>) = Inr () \<longrightarrow>
        w_record (snd (Remove force env \<lparr>w_record = r, w_trace = []\<rparr>)) = None)"
proof -
  obtain x w' where x: "Remove force env \<lparr>w_record = r, w_trace = []\<rparr> = (x, w')" by (metis surj_pair)
  have "orderly w'" using ordered_snd [OF ordered_Remove, of "\<lparr>w_record = r, w_trace = []\<rparr>" force env] x
    by (simp add: orderly_def freed_in_order_def)
  moreover have "x = Inr () \<Longrightarrow> w_record w' = None" using safeD(3) [OF Remove_gone _ x] by simp
  ultimately show ?thesis using x by (simp add: orderly_def)
qed

theorem remove_in_order_witness:
  "freed_in_order (w_trace (snd (Remove False (quiet_env substrate_gone) (start_world web_sandbox))))
   \<and> w_record (snd (Remove False (quiet_env substrate_gone) (start_world web_sandbox))) = None"
proof -
  have "fst (Remove False (quiet_env substrate_gone) (start_world web_sandbox)) = Inr ()" by code_simp
  then show ?thesis using remove_in_order [of False "quiet_env substrate_gone" "Some web_sandbox"] by (simp add: start_world_def)
qed

subsection \<open>The first start of a guest\<close>

fun leased :: "net_spec \<Rightarrow> life_event \<Rightarrow> bool" where
  "leased sp (Called c a) = (c = CallAllocate \<and> an_err a = None \<and> an_spec a = sp)"
| "leased sp ev = False"

fun wrote_address :: "net_spec \<Rightarrow> life_event \<Rightarrow> bool" where
  "wrote_address sp (Wrote a b) = (sb_Address b = ns_Address sp)"
| "wrote_address sp ev = False"

definition addressed :: "life_event list \<Rightarrow> bool" where
  "addressed u = (\<exists>sp. list_ex (leased sp) u \<and> list_ex (wrote_address sp) u)"

text \<open>The guest's first instruction runs only once the record holds the address the sandbox was leased, and behind a proxy
  or a policy only once the host rules were rendered from that record.\<close>

definition start_guarded :: "life_call \<Rightarrow> bool \<Rightarrow> life_event list \<Rightarrow> bool" where
  "start_guarded c fronted t =
     (held_until (is_call c) (\<lambda>u. addressed u \<and> (fronted \<longrightarrow> list_ex (done_call CallReapply) u)) t
      \<and> (fronted \<longrightarrow> held_until (is_call CallReapply) addressed t))"

definition held :: "world \<Rightarrow> bool" where
  "held w = addressed (w_trace w)"

definition brave :: "life_call \<Rightarrow> bool \<Rightarrow> world \<Rightarrow> bool" where
  "brave c fronted w = start_guarded c fronted (w_trace w)"

lemma held_logged [simp]: "held w \<Longrightarrow> held (logged ev w)" "held (w\<lparr>w_record := r\<rparr>) = held w"
  by (auto simp: held_def addressed_def logged_def)

lemma held_wrote [simp]:
  "said (leased sp) w \<Longrightarrow> held (logged (Wrote a (write_created pid sp digest tag sb)) w)"
  "said (leased sp) w \<Longrightarrow> held (logged (Wrote a (write_network sp sb)) w)"
  by (auto simp: held_def addressed_def said_def logged_def write_created_def write_network_def intro!: exI [of _ sp])

lemma brave_logged [simp]:
  "brave c f (logged ev w) \<longleftrightarrow> brave c f w \<and> (is_call c ev \<longrightarrow> held w \<and> (f \<longrightarrow> said (done_call CallReapply) w))
     \<and> (f \<and> is_call CallReapply ev \<longrightarrow> held w)"
  "brave c f (w\<lparr>w_record := r\<rparr>) = brave c f w"
  by (auto simp: brave_def start_guarded_def said_def held_def logged_def)

lemma brave_give: "c \<noteq> d \<Longrightarrow> d \<noteq> CallReapply \<Longrightarrow> ordered (brave c f) (giveBack d) (\<lambda>_. brave c f) (brave c f)"
  unfolding giveBack_def
  by (rule ordered_pre, (rule ordered_steps)+) auto

lemma brave_build: "ordered (brave CallStart f) (build f snapshot) (\<lambda>_. brave CallStart f) (brave CallStart f)"
proof -
  let ?b = "brave CallStart f"
  have alloc: "ordered ?b (unwinding [giveBack CallRelease] (ask CallAllocate)) (\<lambda>net w. ?b w \<and> said (leased (an_spec net)) w) ?b"
    apply (rule ordered_unwinding)
     apply (rule ordered_pre)
      apply (rule ordered_steps)+
     apply auto[1]
    by (auto intro: brave_give)
  have create: "ordered (\<lambda>w. ?b w \<and> said (leased (an_spec net)) w)
      (unwinding [giveBack CallRemove, giveBack CallRelease]
         (andThen (ask CallCreate) (\<lambda>_. andThen (recordCreated (an_spec net) (an_text img)) (\<lambda>_.
            andThen (if f then giveBack CallReapply else ret ()) (\<lambda>_. firstStart))))) (\<lambda>_. ?b) ?b" for net img
    apply (rule ordered_unwinding)
    unfolding recordCreated_def firstStart_def giveBack_def providerStatus_def
     apply (rule ordered_pre)
      apply (rule ordered_steps)+
     apply auto[1]
    by (auto intro: brave_give [unfolded giveBack_def])
  show ?thesis unfolding build_def
    unfolding giveBack_def [of CallProxyCA]
    by (rule ordered_pre, (rule create alloc ordered_steps)+) auto
qed

lemma brave_fail: "c \<noteq> CallUpdate \<Longrightarrow> ordered (brave c f) (failWith x) q (brave c f)"
  unfolding failWith_def
  by (rule ordered_pre, (rule ordered_steps)+) auto

lemma brave_Complete:
  "ordered (brave CallStart (request_fronted policy secrets)) (Complete policy secrets)
     (\<lambda>_. brave CallStart (request_fronted policy secrets)) (brave CallStart (request_fronted policy secrets))"
  unfolding Complete_def openPorts_def
  by (rule ordered_pre, (rule ordered_of [OF brave_build] brave_fail [of CallStart, simplified] ordered_steps)+) auto

lemma brave_Fork: "ordered (brave CallFork (Fronted src)) (Fork src name prov) (\<lambda>_. brave CallFork (Fronted src)) (brave CallFork (Fronted src))"
proof -
  let ?b = "brave CallFork (Fronted src)" and ?h = "\<lambda>w. brave CallFork (Fronted src) w \<and> held w \<and> (Fronted src \<longrightarrow> said (done_call CallReapply) w)"
  have drop: "ordered ?b dropCopy (\<lambda>_. ?b) ?b" unfolding dropCopy_def
    by (rule ordered_pre, (rule ordered_steps)+) auto
  have give: "ordered ?b (giveBack c) (\<lambda>_. ?b) ?b" if "c \<in> {CallRemove, CallRelease}" for c
    using that by (auto intro: brave_give)
  have claim1: "ordered ?b (unwinding [dropCopy] (andThen (ask CallLock) (\<lambda>_. andThen repoGet (\<lambda>_. ask CallDir)))) (\<lambda>_. ?b) ?b"
    apply (rule ordered_unwinding)
     apply (rule ordered_pre)
      apply (rule ordered_steps)+
     apply auto[1]
    using drop by simp
  have claim2: "ordered ?b (unwinding [giveBack CallRelease, dropCopy] (andThen (ask CallAllocate) (\<lambda>net.
         andThen (update (write_network (an_spec net))) (\<lambda>_. if Fronted src then giveBack CallReapply else ret ())))) (\<lambda>_. ?h) ?b"
    apply (rule ordered_unwinding)
     apply (rule ordered_pre)
    unfolding giveBack_def [of CallReapply]
      apply (rule ordered_steps)+
     apply auto[1]
    using drop give by auto
  have started: "ordered ?h (unwinding [giveBack CallRemove, giveBack CallRelease, dropCopy] forkStart) (\<lambda>_. ?h) ?b"
    apply (rule ordered_unwinding)
    unfolding forkStart_def probe_def
     apply (rule ordered_pre)
      apply (rule ordered_steps)+
     apply auto[1]
    using drop give by auto
  show ?thesis unfolding Fork_def readSource_def claimCopy_def recordOf_def FailedGuard_def Reconcile_def RecordRunning_def providerStatus_def
    by (rule ordered_pre, (rule ordered_of [OF claim1] ordered_of [OF claim2] ordered_of [OF started] ordered_repoCreate ordered_steps)+) auto
qed

text \<open>C36: a create starts its guest, and a fork its copy, only after the record holds the address the sandbox was leased; one
  with a policy or a secret only after the host rules were rendered again from a record that holds it.\<close>

theorem guest_starts_guarded:
  "start_guarded CallStart (request_fronted policy secrets) (w_trace (snd (Complete policy secrets env \<lparr>w_record = r, w_trace = []\<rparr>)))
   \<and> start_guarded CallFork (Fronted src) (w_trace (snd (Fork src name prov env \<lparr>w_record = r, w_trace = []\<rparr>)))"
proof -
  have "brave c f \<lparr>w_record = r, w_trace = []\<rparr>" for c f by (simp add: brave_def start_guarded_def)
  then show ?thesis
    using ordered_snd [OF brave_Complete, of policy secrets "\<lparr>w_record = r, w_trace = []\<rparr>" env]
      ordered_snd [OF brave_Fork, of src "\<lparr>w_record = r, w_trace = []\<rparr>" name prov env] by (simp add: brave_def)
qed

end
