(* ===== verification/Spec2Isabelle.thy ===== *)
theory Spec2Isabelle
  imports Broker Snapshots Supervision Pool Order
begin

text \<open>
  A verification of shard, a daemon that runs sandboxes on one host and lets them reach the network only
  through policies.

  \<^bold>\<open>The program.\<close> A sandbox is a record on disk, kept by the repository of \<open>services/sandboxstate\<close>. The
  lifecycle verbs of \<open>services/sandbox\<close> change it: they ask the repository for the record, a substrate (a
  container or a VM) for its process, and \<open>services/network\<close> for an address of the pool. Inside the
  sandbox PID 1 is \<open>cmd/shard-init\<close>, which keeps a table of named processes and reports it. What leaves
  the sandbox is judged twice from one policy of \<open>services/egress\<close>: the packet path by chains compiled
  from it, the web traffic by a proxy and a resolver that ask the broker (\<open>services/broker\<close>), which finds
  the sandbox behind an address, asks the policy, writes a log line and puts the values of
  \<open>services/secret\<close> in place of their placeholders.

  \<^bold>\<open>Conventions.\<close> Go strings are lists of bytes; \<open>(T, error)\<close> is \<open>'e + 'a\<close> with an error type per
  component; structs are records, enumerations datatypes. State is passed and returned. A directory is
  an association list. What a program cannot decide itself is an argument: the system call that fails,
  the clock, random draws, the answers of the resolver, of the kernel and of the substrate. The public
  suffix list is the parameter \<open>etld1\<close>, the hash of a rule the parameter \<open>fp\<close>.

  \<^bold>\<open>The theories.\<close>
  \<^item> \<open>Prelude\<close>, \<open>Netip\<close>, \<open>Slices\<close>, \<open>Wire\<close>: the part of Go's \<open>strings\<close>, \<open>strconv\<close>, \<open>net/netip\<close>, \<open>slices\<close>,
    \<open>encoding/base64\<close> and \<open>net/http\<close> the sources use, with the shared locales: \<open>first_match\<close> (a walk that
    answers by its first matching rule), \<open>first_match_sim\<close> (two such walks that agree rule by rule) and
    \<open>stepping\<close> (an invariant of a step relation).
  \<^item> \<open>Models\<close>: the types of \<open>models/\<close> and the state machine of \<open>models/state.go\<close>.
  \<^item> \<open>Hosts\<close>: canonical host names, destinations and wildcards (\<open>secret.go\<close>, \<open>decide.go\<close>). A grant reaches
    its host or names under a registrable domain, nothing else.
  \<^item> \<open>FileStore\<close>: \<open>pkg/store/atomic.go\<close>, call by call. A reader never sees a partial file, also when the
    removal of the temporary file fails. The locale \<open>keyed_store\<close> is the contract of a store of one file per
    name: which answers stay open after calls that failed.
  \<^item> \<open>Policy\<close>: \<open>services/egress/policy.go\<close>: the check of a policy, the parser and the printer of a rule with
    their round trip, and the store, which provides \<open>keyed_store\<close>.
  \<^item> \<open>Decide\<close>: \<open>compile.go\<close>'s effective rules and the walks of \<open>decide.go\<close>. An allowed address is private to
    nobody and allowed by the first rule that matches; an early deny is final; sampling names is exact.
  \<^item> \<open>Chains\<close>: the chains of \<open>compile.go\<close> with the hold on a failed lookup, and \<open>services/network/judge.go\<close>. A
    chain in force is a whole compile of the present rules or closed, and the judge agrees with the proxy.
  \<^item> \<open>SecretStore\<close>: \<open>services/secret/secret.go\<close>: the invariant of the store, the placeholder that stays while
    held, and what a redaction takes out of a text.
  \<^item> \<open>Broker\<close>: \<open>services/broker/broker.go\<close>: the cache by generation, the log line of every decision,
    non-interference of the rewrite, and the bound it reserves.
  \<^item> \<open>Ids\<close>, \<open>Repo\<close>, \<open>Snapshots\<close>: \<open>services/sandboxstate\<close>: ids and names, the index of names, the records and
    the snapshots, with each create, update, delete, listing and sweep under failing calls. \<open>repo_step\<close> is
    one verb with any failures; \<open>repo_step True\<close> leaves out the failing sync of a name just claimed, whose
    effect is a theorem of its own (\<open>create_sync_failure_leaks_name\<close>).
  \<^item> \<open>Guest\<close>, \<open>Supervision\<close>: \<open>cmd/shard-init\<close> as a transition system over requests, deaths, timers and
    signals: the table stays sound, a start again is never lost, an ended process stays down, a crash loop
    gives up, a stop ends the guest.
  \<^item> \<open>Pool\<close>: \<open>services/network/pool.go\<close>: leases stay exclusive in every interleaving of the claims of several
    sandboxes, and an allocation takes the lowest free address.
  \<^item> \<open>Records\<close>, \<open>Lifecycle\<close>, \<open>Tasks\<close>: \<open>services/sandbox\<close>: what the verbs decide from a record and write to it,
    the verbs call by call (create, fork, start, stop, pause, resume, remove, run and kill of a process),
    and the daemon's own tasks (correction at boot, liveness, start again after a memory kill, autostart).
  \<^item> \<open>VerbLogic\<close>, \<open>Moves\<close>, \<open>Order\<close>: a logic for the writes of a verb and one for the order of its calls; with
    them, that every history makes only moves of the machine, what a stop and a correction at boot leave,
    and that a guest starts only behind its address and rules and is removed in order.

  \<^bold>\<open>Bounds.\<close> Every function is total; none runs out of fuel. Two loops of the source run on a deadline and
  take the number of turns it leaves as an argument, over which every theorem quantifies: the polls of
  \<open>awaitStopped\<close> (\<open>an_polls\<close>), which at the last poll gives the error of the source, and the retries of a
  correction at boot (\<open>retried\<close>). The generation of the repository and the products of durations wrap at 64
  bits; the counters of the guest are natural numbers, far below their 64 bits.

  \<^bold>\<open>Where the model is coarser than the code.\<close>
  \<^item> A JSON file is the value it decodes to, or \<open>None\<close> where it does not decode; a byte that is no UTF-8 is
    kept where Go would replace it. \<open>ToLower\<close> changes ASCII letters and the two other runes whose lower case is
    ASCII; a rune it keeps is refused by the host checks in either case.
  \<^item> A read of a record is a function of the directory: a read that fails and succeeds later is not a case.
  \<^item> One pass of \<open>Chains\<close> asks one lookup function; another pass may ask another.
  \<^item> The broker reads a generation and the listing under it in one step, and a generation names one listing,
    the contract of \<open>Generation\<close> in \<open>sandboxstate.go\<close>.
  \<^item> In \<open>Guest\<close> a stop signal is a \<open>syscall.Signal\<close>, the only kind the source subscribes to, a report of the
    table is handed over without an error, and freezing and thawing the sandbox are events of its
    environment, beside those \<open>supervise\<close> receives.
  \<^item> In \<open>Pool\<close> the claim of one address, which makes, writes and syncs its file, is one step; \<open>pool_apply\<close> puts
    the steps of several sandboxes in any order, each sandbox under its own lock; the directory exists.
  \<^item> A lifecycle verb runs under the lock of its sandbox. What a create hands the substrate beside the order
    of the calls, and the texts of errors and reports, are left out.

  \<^bold>\<open>Not modelled.\<close> The substrates and the guest's boot, transports, files and sessions (system calls and byte
  streams); the proxy, the resolver and the userspace stack around the broker and the judge (protocol
  streams); the rendering of the host rules and the namespaces (command lines); images, bundles and
  disks (third-party formats); the API, the client, the command line, the setup and the wiring of the
  daemon; in \<open>services/sandbox\<close> the files, logs and executions of a sandbox and the verbs that only call a
  modelled store.
\<close>

end
